(* ===== verification/Xv6_Prelude.thy ===== *)
theory Xv6_Prelude
  imports Main "HOL-Library.Word"
begin

text \<open>
  Shared base of the development: the machine integer types of \<^verbatim>\<open>types.h\<close>, the
  monad in which every kernel routine is written, and generic lemmas on lists, words and loops.

  A kernel routine is a function from a state to a result.  A result is either a normal return
  (\<open>Ok\<close>), a fault, or a context switch (\<open>Swtch\<close>).  A fault is a call of
  \<^verbatim>\<open>panic()\<close>, a step whose effect C leaves undefined (an access through a null
  pointer, say), or \<open>Spin\<close>: the routine is in the \<^verbatim>\<open>xchg\<close> loop of
  \<^verbatim>\<open>acquire()\<close> for a lock that another CPU holds.  \<open>Swtch s\<close> means that the
  calling kernel thread has entered \<^verbatim>\<open>swtch()\<close> in state \<open>s\<close>; what it does when
  it is resumed is a routine of its own.
\<close>

unbundle bit_operations_syntax

section \<open>Machine integers\<close>

type_synonym uint = "32 word"
type_synonym ushort = "16 word"
type_synonym uchar = "8 word"

section \<open>Results and routines\<close>

datatype fault = Panic string | Undefined string | Spin

datatype ('s, 'a) res = Ok 'a 's | Fault fault | Swtch 's

type_synonym ('s, 'a) op = "'s \<Rightarrow> ('s, 'a) res"

named_theorems op_simps \<open>unfolding rules of the routine combinators\<close>

definition ret :: "'a \<Rightarrow> ('s, 'a) op" where
  "ret x = (\<lambda>s. Ok x s)"

definition bind :: "('s, 'a) op \<Rightarrow> ('a \<Rightarrow> ('s, 'b) op) \<Rightarrow> ('s, 'b) op" where
  "bind f g = (\<lambda>s. case f s of Ok x s' \<Rightarrow> g x s' | Fault e \<Rightarrow> Fault e | Swtch s' \<Rightarrow> Swtch s')"

definition seq :: "('s, unit) op \<Rightarrow> ('s, 'b) op \<Rightarrow> ('s, 'b) op" where
  "seq f g = bind f (\<lambda>_. g)"

primrec block :: "('s, unit) op list \<Rightarrow> ('s, unit) op" where
  "block [] = ret ()"
| "block (f # fs) = seq f (block fs)"

definition gets :: "('s \<Rightarrow> 'a) \<Rightarrow> ('s, 'a) op" where
  "gets f = (\<lambda>s. Ok (f s) s)"

definition modify :: "('s \<Rightarrow> 's) \<Rightarrow> ('s, unit) op" where
  "modify f = (\<lambda>s. Ok () (f s))"

definition panic :: "string \<Rightarrow> ('s, 'a) op" where
  "panic msg = (\<lambda>s. Fault (Panic msg))"

definition undef :: "string \<Rightarrow> ('s, 'a) op" where
  "undef msg = (\<lambda>s. Fault (Undefined msg))"

definition spin :: "('s, 'a) op" where
  "spin = (\<lambda>s. Fault Spin)"

definition swtch_out :: "('s, 'a) op" where
  "swtch_out = (\<lambda>s. Swtch s)"

definition unless_panic :: "bool \<Rightarrow> string \<Rightarrow> ('s, unit) op" where
  "unless_panic b msg = (if b then ret () else panic msg)"

definition do_if :: "bool \<Rightarrow> ('s, unit) op \<Rightarrow> ('s, unit) op" where
  "do_if b f = (if b then f else ret ())"

primrec for_each :: "'b list \<Rightarrow> ('b \<Rightarrow> ('s, unit) op) \<Rightarrow> ('s, unit) op" where
  "for_each [] f = ret ()"
| "for_each (x # xs) f = seq (f x) (for_each xs f)"

lemma ret_apply [simp, op_simps]: "ret x s = Ok x s"
  by (simp add: ret_def)

lemma bind_apply [simp, op_simps]:
  "bind f g s = (case f s of Ok x s' \<Rightarrow> g x s' | Fault e \<Rightarrow> Fault e | Swtch s' \<Rightarrow> Swtch s')"
  by (simp add: bind_def)

lemma seq_apply [simp, op_simps]:
  "seq f g s = (case f s of Ok x s' \<Rightarrow> g s' | Fault e \<Rightarrow> Fault e | Swtch s' \<Rightarrow> Swtch s')"
  by (simp add: seq_def)

lemma gets_apply [simp, op_simps]: "gets f s = Ok (f s) s"
  by (simp add: gets_def)

lemma modify_apply [simp, op_simps]: "modify f s = Ok () (f s)"
  by (simp add: modify_def)

lemma panic_apply [simp, op_simps]: "panic msg s = Fault (Panic msg)"
  by (simp add: panic_def)

lemma undef_apply [simp, op_simps]: "undef msg s = Fault (Undefined msg)"
  by (simp add: undef_def)

lemma spin_apply [simp, op_simps]: "spin s = Fault Spin"
  by (simp add: spin_def)

lemma swtch_out_apply [simp, op_simps]: "swtch_out s = Swtch s"
  by (simp add: swtch_out_def)

lemma unless_panic_apply [simp, op_simps]:
  "unless_panic b msg s = (if b then Ok () s else Fault (Panic msg))"
  by (simp add: unless_panic_def)

lemma do_if_apply [simp, op_simps]: "do_if b f s = (if b then f s else Ok () s)"
  by (simp add: do_if_def)

lemma bind_Ok_iff:
  "bind f g s = Ok y t \<longleftrightarrow> (\<exists>x s'. f s = Ok x s' \<and> g x s' = Ok y t)"
  by (auto split: res.splits)

lemma seq_Ok_iff:
  "seq f g s = Ok y t \<longleftrightarrow> (\<exists>s'. f s = Ok () s' \<and> g s' = Ok y t)"
  by (auto split: res.splits)

lemma for_each_snoc: "for_each (xs @ [x]) f s = seq (for_each xs f) (f x) s"
  by (induction xs arbitrary: s) (auto split: res.splits)

lemma seq_assoc: "seq (seq f g) h = seq f (seq g h)"
  by (rule ext) (simp split: res.split)

lemma block_append: "block (fs @ gs) s = seq (block fs) (block gs) s"
  by (induction fs arbitrary: s) (auto split: res.splits)

text \<open>
  \<open>returns P f Q\<close>: from every state that satisfies \<open>P\<close> the routine \<open>f\<close> returns (no
  panic, no undefined step, no context switch), with a value and a state that satisfy \<open>Q\<close>.
\<close>

definition returns :: "('s \<Rightarrow> bool) \<Rightarrow> ('s, 'a) op \<Rightarrow> ('a \<Rightarrow> 's \<Rightarrow> bool) \<Rightarrow> bool" where
  "returns P f Q \<longleftrightarrow> (\<forall>s. P s \<longrightarrow> (\<exists>x t. f s = Ok x t \<and> Q x t))"

lemma returnsI: "(\<And>s. P s \<Longrightarrow> \<exists>x t. f s = Ok x t \<and> Q x t) \<Longrightarrow> returns P f Q"
  by (simp add: returns_def)

lemma returnsD: "returns P f Q \<Longrightarrow> P s \<Longrightarrow> \<exists>x t. f s = Ok x t \<and> Q x t"
  by (simp add: returns_def)

lemma returns_ret: "(\<And>s. P s \<Longrightarrow> Q x s) \<Longrightarrow> returns P (ret x) Q"
  by (simp add: returns_def)

lemma returns_bind:
  assumes "returns P f R" and "\<And>x. returns (R x) (g x) Q"
  shows "returns P (bind f g) Q"
  using assms by (fastforce simp: returns_def)

lemma returns_seq:
  assumes "returns P f (\<lambda>_. R)" and "returns R g Q"
  shows "returns P (seq f g) Q"
  using assms by (fastforce simp: returns_def)

lemma returns_weaken:
  "returns P f Q \<Longrightarrow> (\<And>s. P' s \<Longrightarrow> P s) \<Longrightarrow> (\<And>x t. Q x t \<Longrightarrow> Q' x t) \<Longrightarrow> returns P' f Q'"
  by (fastforce simp: returns_def)

lemma returns_for_each:
  assumes "\<And>x. x \<in> set xs \<Longrightarrow> returns P (f x) (\<lambda>_. P)"
  shows "returns P (for_each xs f) (\<lambda>_. P)"
  using assms
proof (induction xs)
  case Nil
  then show ?case by (simp add: returns_def)
next
  case (Cons x xs)
  then have "returns P (f x) (\<lambda>_. P)" and "returns P (for_each xs f) (\<lambda>_. P)"
    by auto
  then show ?case by (simp only: for_each.simps) (rule returns_seq)
qed

text \<open>The results of a routine called several times.\<close>

primrec collect :: "nat \<Rightarrow> ('s, 'a) op \<Rightarrow> ('s, 'a list) op" where
  "collect 0 f = ret []"
| "collect (Suc n) f = bind f (\<lambda>x. bind (collect n f) (\<lambda>xs. ret (x # xs)))"

section \<open>Scanning an array\<close>

text \<open>The first index whose element satisfies a predicate: the array scans of the kernel.\<close>

fun find_idx :: "('a \<Rightarrow> bool) \<Rightarrow> 'a list \<Rightarrow> nat option" where
  "find_idx P [] = None"
| "find_idx P (x # xs) = (if P x then Some 0 else map_option Suc (find_idx P xs))"

lemma find_idx_None_iff: "find_idx P xs = None \<longleftrightarrow> (\<forall>x \<in> set xs. \<not> P x)"
  by (induction xs) auto

lemma find_idx_Some_iff:
  "find_idx P xs = Some i \<longleftrightarrow> i < length xs \<and> P (xs ! i) \<and> (\<forall>j < i. \<not> P (xs ! j))"
proof (induction xs arbitrary: i)
  case Nil
  then show ?case by simp
next
  case (Cons x xs)
  show ?case
    by (cases i) (auto simp: Cons.IH less_Suc_eq_0_disj)
qed

lemma find_idx_SomeD:
  assumes "find_idx P xs = Some i"
  shows "i < length xs" and "P (xs ! i)" and "j < i \<Longrightarrow> \<not> P (xs ! j)"
  using assms by (auto simp: find_idx_Some_iff)

lemma find_idx_exists:
  "i < length xs \<Longrightarrow> P (xs ! i) \<Longrightarrow> \<exists>j. find_idx P xs = Some j \<and> j \<le> i"
  by (metis find_idx_None_iff find_idx_SomeD(3) not_le_imp_less not_None_eq nth_mem)

text \<open>
  A scan that keeps the best element seen so far, and the earlier one among equals.
\<close>

definition best_step :: "('a \<Rightarrow> bool) \<Rightarrow> ('a \<Rightarrow> 'b::linorder) \<Rightarrow> 'a option \<Rightarrow> 'a \<Rightarrow> 'a option" where
  "best_step ok key temp j =
     (if ok j then (case temp of None \<Rightarrow> Some j | Some t \<Rightarrow> if key t < key j then Some j else temp)
      else temp)"

lemma best_step_simps [simp]:
  "\<not> ok j \<Longrightarrow> best_step ok key temp j = temp"
  "ok j \<Longrightarrow> best_step ok key None j = Some j"
  "ok j \<Longrightarrow> best_step ok key (Some t) j = (if key t < key j then Some j else Some t)"
  by (simp_all add: best_step_def)

lemma best_step_not_None: "ok j \<Longrightarrow> best_step ok key temp j \<noteq> None"
  by (cases temp) simp_all

lemma best_fold_None_iff:
  "foldl (best_step ok key) None xs = None \<longleftrightarrow> (\<forall>x \<in> set xs. \<not> ok x)"
proof (induction xs rule: rev_induct)
  case Nil
  then show ?case by simp
next
  case (snoc x xs)
  then show ?case by (cases "ok x") (simp_all add: best_step_not_None del: not_None_eq)
qed

lemma best_fold_Some:
  "foldl (best_step ok key) None xs = Some t \<Longrightarrow>
   \<exists>ys zs. xs = ys @ t # zs \<and> ok t \<and> (\<forall>y \<in> set ys. ok y \<longrightarrow> key y < key t) \<and>
     (\<forall>z \<in> set zs. ok z \<longrightarrow> key z \<le> key t)"
proof (induction xs arbitrary: t rule: rev_induct)
  case Nil
  then show ?case by simp
next
  case (snoc x xs)
  show ?case
  proof (cases "foldl (best_step ok key) None xs")
    case None
    with snoc.prems have "ok x" "t = x" by (cases "ok x"; simp)+
    with None show ?thesis
      by (intro exI [of _ xs] exI [of _ "[]"]) (simp add: best_fold_None_iff)
  next
    case (Some u)
    from snoc.IH [OF this] obtain ys zs where
      u: "xs = ys @ u # zs" "ok u" "\<forall>y \<in> set ys. ok y \<longrightarrow> key y < key u" "\<forall>z \<in> set zs. ok z \<longrightarrow> key z \<le> key u"
      by blast
    show ?thesis
    proof (cases "ok x \<and> key u < key x")
      case True
      then have "t = x" using Some snoc.prems by simp
      with True u show ?thesis by (intro exI [of _ xs] exI [of _ "[]"]) force
    next
      case False
      then have "t = u" using Some snoc.prems by (cases "ok x") auto
      with False u show ?thesis by (intro exI [of _ ys] exI [of _ "zs @ [x]"]) auto
    qed
  qed
qed

lemma best_fold_max:
  assumes "foldl (best_step ok key) None xs = Some t"
  shows "t \<in> set xs" and "ok t" and "x \<in> set xs \<Longrightarrow> ok x \<Longrightarrow> key x \<le> key t"
proof -
  from best_fold_Some [OF assms] obtain ys zs where
    u: "xs = ys @ t # zs" "ok t" "\<forall>y \<in> set ys. ok y \<longrightarrow> key y < key t" "\<forall>z \<in> set zs. ok z \<longrightarrow> key z \<le> key t"
    by blast
  from u show "t \<in> set xs" "ok t" by simp_all
  show "x \<in> set xs \<Longrightarrow> ok x \<Longrightarrow> key x \<le> key t" using u by (auto intro: less_imp_le)
qed

text \<open>
  The order in which a cyclic search that starts at \<open>pos\<close> visits a table of \<open>n\<close> slots.
\<close>

definition cyclic :: "nat \<Rightarrow> nat \<Rightarrow> nat list" where
  "cyclic n pos = map (\<lambda>i. (pos + i) mod n) [0..<n]"

lemma mod_shift_inj:
  fixes pos i j n :: nat
  assumes "(pos + i) mod n = (pos + j) mod n" and "i < n" and "j < n"
  shows "i = j"
proof -
  have "(int pos + int i) mod int n = (int pos + int j) mod int n"
    using assms(1) by (metis of_nat_add zmod_int)
  then have "(int pos + int i - int pos) mod int n = (int pos + int j - int pos) mod int n"
    by (metis mod_diff_left_eq)
  then show ?thesis using assms(2,3) by simp
qed

lemma distinct_cyclic: "distinct (cyclic n pos)"
  unfolding cyclic_def distinct_map by (auto intro!: inj_onI dest: mod_shift_inj)

lemma length_cyclic [simp]: "length (cyclic n pos) = n"
  by (simp add: cyclic_def)

lemma nth_cyclic: "i < n \<Longrightarrow> cyclic n pos ! i = (pos + i) mod n"
  by (simp add: cyclic_def)

lemma set_cyclic: "set (cyclic n pos) = {..<n}"
proof (rule card_subset_eq)
  show "set (cyclic n pos) \<subseteq> {..<n}" by (auto simp: cyclic_def)
  show "card (set (cyclic n pos)) = card {..<n}"
    using distinct_card [OF distinct_cyclic [of n pos]] by simp
qed simp

lemma find_Some_split: "find P xs = Some x \<Longrightarrow> \<exists>ys zs. xs = ys @ x # zs \<and> P x \<and> (\<forall>y \<in> set ys. \<not> P y)"
proof (induction xs)
  case (Cons a xs)
  show ?case
  proof (cases "P a")
    case True
    with Cons.prems have "a # xs = [] @ x # xs \<and> P x \<and> (\<forall>y \<in> set []. \<not> P y)" by simp
    then show ?thesis by blast
  next
    case False
    with Cons obtain ys zs where "xs = ys @ x # zs" "P x" "\<forall>y \<in> set ys. \<not> P y" by auto
    with False have "a # xs = (a # ys) @ x # zs \<and> P x \<and> (\<forall>y \<in> set (a # ys). \<not> P y)" by simp
    then show ?thesis by blast
  qed
qed simp

lemma find_Some_in: "find P xs = Some x \<Longrightarrow> x \<in> set xs \<and> P x"
  by (auto dest!: find_Some_split)

section \<open>Updating an array in place\<close>

abbreviation upd_at :: "nat \<Rightarrow> ('a \<Rightarrow> 'a) \<Rightarrow> 'a list \<Rightarrow> 'a list" where
  "upd_at i f xs \<equiv> xs[i := f (xs ! i)]"

lemma nth_upd_at: "i < length xs \<Longrightarrow> upd_at i f xs ! j = (if i = j then f (xs ! j) else xs ! j)"
  by simp

end
