(* ===== verification/Xv6_Types.thy ===== *)
theory Xv6_Types
  imports Xv6_Prelude
begin

text \<open>
  The data of the kernel, header by header: \<^verbatim>\<open>param.h\<close>, \<^verbatim>\<open>proc.h\<close>,
  \<^verbatim>\<open>spinlock.h\<close>, \<^verbatim>\<open>sleeplock.h\<close>, \<^verbatim>\<open>buf.h\<close>,
  \<^verbatim>\<open>fs.h\<close>, \<^verbatim>\<open>file.h\<close>, and the globals of the C files, gathered in the record
  \<open>kernel\<close>.

  Conventions.  \<^verbatim>\<open>uint\<close>, \<^verbatim>\<open>ushort\<close> and \<^verbatim>\<open>uchar\<close> are
  words of their width.  \<^verbatim>\<open>int\<close> is \<open>int\<close>: signed overflow has no meaning in C, and
  no value here wraps.  A flag that holds only 0 and 1 is a \<open>bool\<close>.  A pointer into a static
  table is an index into the list that models the table, and a pointer that may be null is an
  \<open>option\<close>.  Addresses of pages are \<open>uint\<close>, with 0 for null.
\<close>

section \<open>Constants\<close>

abbreviation NPROC :: nat where "NPROC \<equiv> 64"
abbreviation KSTACKSIZE :: uint where "KSTACKSIZE \<equiv> 4096"
abbreviation NCPU :: nat where "NCPU \<equiv> 8"
abbreviation NOFILE :: nat where "NOFILE \<equiv> 16"
abbreviation NFILE :: nat where "NFILE \<equiv> 100"
abbreviation NINODE :: nat where "NINODE \<equiv> 50"
abbreviation NDEV :: nat where "NDEV \<equiv> 10"
abbreviation ROOTDEV :: uint where "ROOTDEV \<equiv> 1"
abbreviation MAXOPBLOCKS :: nat where "MAXOPBLOCKS \<equiv> 10"
abbreviation LOGSIZE :: nat where "LOGSIZE \<equiv> 30"
abbreviation NBUF :: nat where "NBUF \<equiv> 30"
abbreviation BSIZE :: nat where "BSIZE \<equiv> 512"
abbreviation PIPESIZE :: nat where "PIPESIZE \<equiv> 512"
abbreviation PGSIZE :: uint where "PGSIZE \<equiv> 4096"
abbreviation KERNBASE :: uint where "KERNBASE \<equiv> 0x80000000"
abbreviation PHYSTOP :: uint where "PHYSTOP \<equiv> 0xE000000"

section \<open>Locks and CPUs\<close>

text \<open>The sleep-locks of the kernel: one per buffer and one per cached inode.\<close>

datatype sleepid = SL_buf nat | SL_inode nat

text \<open>The spin-locks, by the object that holds them.\<close>

datatype lockid =
    L_ptable | L_ticks | L_kmem | L_cons | L_ftable | L_icache | L_bcache | L_log | L_ide
  | L_pipe uint | L_sleep sleepid

text \<open>The call stack \<^verbatim>\<open>pcs\<close> kept for debugging is left out.\<close>

record spinlock =
  lk_locked :: bool
  lk_name :: string
  lk_cpu :: "nat option"

record sleeplock =
  sl_locked :: bool
  sl_name :: string
  sl_pid :: int

text \<open>
  \<open>c_esp0\<close> and \<open>c_cr3\<close> are what \<^verbatim>\<open>switchuvm()\<close> and \<^verbatim>\<open>switchkvm()\<close>
  leave in the task state segment and in the page-table register of the CPU.
\<close>

record cpu =
  c_apicid :: uchar
  c_started :: bool
  c_ncli :: int
  c_intena :: bool
  c_proc :: "nat option"
  c_esp0 :: uint
  c_cr3 :: uint

text \<open>
  \<open>lapicid\<close> and \<open>eflags_IF\<close> are the hardware view of the CPU that executes: the value
  \<^verbatim>\<open>lapicid()\<close> returns there, and its interrupt-enable flag.
\<close>

record machine =
  lapicid :: uchar
  eflags_IF :: bool
  cpus :: "cpu list"
  ncpu :: nat
  locks :: "lockid \<Rightarrow> spinlock"

section \<open>Processes\<close>

datatype procstate = UNUSED | EMBRYO | SLEEPING | RUNNABLE | RUNNING | ZOMBIE

text \<open>The addresses that processes sleep on.\<close>

datatype chan =
    Ch_proc nat | Ch_ticks | Ch_sleeplock sleepid | Ch_log | Ch_nread uint | Ch_nwrite uint
  | Ch_input | Ch_buf nat

text \<open>
  \<^verbatim>\<open>p->context\<close>: where a process that is not running resumes.  A new process starts at
  \<^verbatim>\<open>forkret()\<close>; any other one resumes after the \<^verbatim>\<open>swtch()\<close> in
  \<^verbatim>\<open>sched()\<close>, with the local \<^verbatim>\<open>intena\<close> of \<^verbatim>\<open>sched()\<close> and
  the caller of \<^verbatim>\<open>sched()\<close> on its kernel stack.
\<close>

datatype retpc = R_yield | R_sleep lockid | R_exit

datatype kcontext = Ctx_none | Ctx_forkret | Ctx_sched bool retpc

record trapframe =
  tf_eax :: uint
  tf_ds :: ushort
  tf_es :: ushort
  tf_trapno :: uint
  tf_err :: uint
  tf_eip :: uint
  tf_cs :: ushort
  tf_eflags :: uint
  tf_esp :: uint
  tf_ss :: ushort

record proc =
  p_sz :: uint
  p_pgdir :: uint
  p_kstack :: uint
  p_state :: procstate
  p_pid :: int
  p_parent :: "nat option"
  p_tf :: trapframe
  p_context :: kcontext
  p_chan :: "chan option"
  p_killed :: bool
  p_ofile :: "nat option list"
  p_cwd :: "nat option"
  p_name :: "uchar list"
  p_quantum :: int
  p_priority :: int
  p_level :: int

text \<open>
  The globals of \<^verbatim>\<open>proc.c\<close>.  (\<^verbatim>\<open>prev\<close>, \<^verbatim>\<open>prev_level\<close> and
  \<^verbatim>\<open>prev_quantum\<close> are declared there and never used.)
\<close>

record ptable =
  procs :: "proc list"
  initproc :: "nat option"
  nextpid :: int
  is_monopolized :: int
  moq_cnt :: int
  moq_priority :: int
  queue_position :: "nat list"
  forkret_first :: bool

section \<open>Memory, disk, buffers, log\<close>

record kmem =
  use_lock :: bool
  freelist :: uint

text \<open>
  A buffer of the cache.  The buffers are numbered from 0, and number \<open>NBUF\<close> is the list
  head \<^verbatim>\<open>bcache.head\<close>.
\<close>

record buf =
  b_valid :: bool
  b_dirty :: bool
  b_dev :: uint
  b_blockno :: uint
  b_refcnt :: uint
  b_prev :: nat
  b_next :: nat
  b_data :: "uchar list"

record log =
  log_start :: uint
  log_size :: int
  log_outstanding :: int
  log_committing :: bool
  log_dev :: uint
  lh_n :: int
  lh_block :: "uint list"

section \<open>Files, inodes, pipes\<close>

record superblock =
  sb_size :: uint
  sb_nblocks :: uint
  sb_ninodes :: uint
  sb_nlog :: uint
  sb_logstart :: uint
  sb_inodestart :: uint
  sb_bmapstart :: uint

record inode =
  i_dev :: uint
  i_inum :: uint
  i_ref :: int
  i_valid :: bool
  i_type :: ushort
  i_major :: ushort
  i_minor :: ushort
  i_nlink :: ushort
  i_size :: uint
  i_addrs :: "uint list"

datatype ftype = FD_NONE | FD_PIPE | FD_INODE

record file_t =
  f_type :: ftype
  f_ref :: int
  f_readable :: bool
  f_writable :: bool
  f_pipe :: uint
  f_ip :: "nat option"
  f_off :: uint

record pipe =
  pi_data :: "uchar list"
  pi_nread :: uint
  pi_nwrite :: uint
  pi_readopen :: bool
  pi_writeopen :: bool

section \<open>The console\<close>

text \<open>
  The devices and the input line of \<^verbatim>\<open>console.c\<close>: the text memory and the cursor of the
  screen, whether \<^verbatim>\<open>uartinit()\<close> found a serial port and the bytes sent to it, the modifier keys
  that \<^verbatim>\<open>kbdgetc()\<close> remembers, and the ring buffer \<^verbatim>\<open>input\<close> with its three counters.
\<close>

record console =
  cs_locking :: bool
  cs_panicked :: bool
  crt :: "nat \<Rightarrow> ushort"
  crt_pos :: nat
  uart :: bool
  uart_out :: "uchar list"
  kbd_shift :: uchar
  in_buf :: "uchar list"
  in_r :: uint
  in_w :: uint
  in_e :: uint

section \<open>The kernel\<close>

text \<open>
  \<open>mem\<close> is memory by kernel virtual address.  The structures that the kernel keeps in pages of
  their own (pipes, trap frames) are kept in typed form beside it.  \<open>disk\<close> is the disk image,
  a list of blocks.
\<close>

record kernel =
  mach :: machine
  sleeplocks :: "sleepid \<Rightarrow> sleeplock"
  pt :: ptable
  ticks :: uint
  mem :: "uint \<Rightarrow> uchar"
  km :: kmem
  kpgdir :: uint
  disk :: "uchar list list"
  bufs :: "buf list"
  log :: log
  sb :: superblock
  icache :: "inode list"
  ftable :: "file_t list"
  pipes :: "uint \<Rightarrow> pipe"
  cons :: console

type_synonym 'a kop = "(kernel, 'a) op"

section \<open>A cold kernel\<close>

text \<open>
  The state before \<^verbatim>\<open>main()\<close> runs, for a machine with one CPU: every global holds its
  initial value.  Concrete runs start from it.
\<close>

definition spinlock0 :: spinlock where
  "spinlock0 = \<lparr>lk_locked = False, lk_name = [], lk_cpu = None\<rparr>"

definition sleeplock0 :: sleeplock where
  "sleeplock0 = \<lparr>sl_locked = False, sl_name = [], sl_pid = 0\<rparr>"

definition cpu0 :: cpu where
  "cpu0 = \<lparr>c_apicid = 0, c_started = False, c_ncli = 0, c_intena = False, c_proc = None,
     c_esp0 = 0, c_cr3 = 0\<rparr>"

definition machine0 :: machine where
  "machine0 = \<lparr>lapicid = 0, eflags_IF = False, cpus = [cpu0], ncpu = 1,
     locks = (\<lambda>_. spinlock0)\<rparr>"

definition trapframe0 :: trapframe where
  "trapframe0 = \<lparr>tf_eax = 0, tf_ds = 0, tf_es = 0, tf_trapno = 0, tf_err = 0, tf_eip = 0,
     tf_cs = 0, tf_eflags = 0, tf_esp = 0, tf_ss = 0\<rparr>"

definition proc0 :: proc where
  "proc0 = \<lparr>p_sz = 0, p_pgdir = 0, p_kstack = 0, p_state = UNUSED, p_pid = 0, p_parent = None,
     p_tf = trapframe0, p_context = Ctx_none, p_chan = None, p_killed = False,
     p_ofile = replicate NOFILE None, p_cwd = None, p_name = replicate 16 0,
     p_quantum = 0, p_priority = 0, p_level = 0\<rparr>"

definition ptable0 :: ptable where
  "ptable0 = \<lparr>procs = replicate NPROC proc0, initproc = None, nextpid = 1, is_monopolized = 0,
     moq_cnt = 0, moq_priority = 0, queue_position = [0, 0, 0, 0], forkret_first = True\<rparr>"

definition buf0 :: buf where
  "buf0 = \<lparr>b_valid = False, b_dirty = False, b_dev = 0, b_blockno = 0, b_refcnt = 0,
     b_prev = 0, b_next = 0, b_data = replicate BSIZE 0\<rparr>"

definition log0 :: log where
  "log0 = \<lparr>log_start = 0, log_size = 0, log_outstanding = 0, log_committing = False,
     log_dev = 0, lh_n = 0, lh_block = replicate LOGSIZE 0\<rparr>"

definition superblock0 :: superblock where
  "superblock0 = \<lparr>sb_size = 0, sb_nblocks = 0, sb_ninodes = 0, sb_nlog = 0, sb_logstart = 0,
     sb_inodestart = 0, sb_bmapstart = 0\<rparr>"

definition inode0 :: inode where
  "inode0 = \<lparr>i_dev = 0, i_inum = 0, i_ref = 0, i_valid = False, i_type = 0, i_major = 0,
     i_minor = 0, i_nlink = 0, i_size = 0, i_addrs = replicate 13 0\<rparr>"

definition file0 :: file_t where
  "file0 = \<lparr>f_type = FD_NONE, f_ref = 0, f_readable = False, f_writable = False, f_pipe = 0,
     f_ip = None, f_off = 0\<rparr>"

definition pipe0 :: pipe where
  "pipe0 = \<lparr>pi_data = replicate PIPESIZE 0, pi_nread = 0, pi_nwrite = 0, pi_readopen = False,
     pi_writeopen = False\<rparr>"

definition console0 :: console where
  "console0 = \<lparr>cs_locking = False, cs_panicked = False, crt = (\<lambda>_. 0), crt_pos = 0, uart = False, uart_out = [],
     kbd_shift = 0, in_buf = replicate 128 0, in_r = 0, in_w = 0, in_e = 0\<rparr>"

definition kernel0 :: kernel where
  "kernel0 = \<lparr>mach = machine0, sleeplocks = (\<lambda>_. sleeplock0), pt = ptable0, ticks = 0,
     mem = (\<lambda>_. 0), km = \<lparr>use_lock = False, freelist = 0\<rparr>, kpgdir = 0, disk = [],
     bufs = replicate (NBUF + 1) buf0, log = log0, sb = superblock0,
     icache = replicate NINODE inode0, ftable = replicate NFILE file0, pipes = (\<lambda>_. pipe0),
     cons = console0\<rparr>"

lemmas cold_defs =
  kernel0_def machine0_def cpu0_def spinlock0_def sleeplock0_def ptable0_def proc0_def
  trapframe0_def buf0_def log0_def superblock0_def inode0_def file0_def pipe0_def console0_def

section \<open>Field access\<close>

text \<open>Shorthands for the two tables every component touches.\<close>

abbreviation proc_at :: "kernel \<Rightarrow> nat \<Rightarrow> proc" where
  "proc_at k i \<equiv> procs (pt k) ! i"

definition set_proc :: "nat \<Rightarrow> (proc \<Rightarrow> proc) \<Rightarrow> unit kop" where
  "set_proc i f = modify (\<lambda>k. k\<lparr>pt := pt k\<lparr>procs := upd_at i f (procs (pt k))\<rparr>\<rparr>)"

lemma set_proc_apply [simp, op_simps]:
  "set_proc i f k = Ok () (k\<lparr>pt := pt k\<lparr>procs := upd_at i f (procs (pt k))\<rparr>\<rparr>)"
  by (simp add: set_proc_def)

end
