(* ===== verification/Spinlock.thy ===== *)
theory Spinlock
  imports Xv6_Types
begin

text \<open>
  \<^verbatim>\<open>spinlock.c\<close>, with \<^verbatim>\<open>mycpu()\<close>, \<^verbatim>\<open>cpuid()\<close> and
  \<^verbatim>\<open>myproc()\<close> of \<^verbatim>\<open>proc.c\<close>, which it calls.  The first part is the routines
  as the code has them.  The second part gives each routine a closed form on the machine state
  (\<open>push_m\<close>, \<open>acq_m\<close>, \<dots>) and the algebra of those forms, which is what the proofs
  about the rest of the kernel use.  The last part is the instruction-level protocol of
  \<^verbatim>\<open>acquire()\<close> and \<^verbatim>\<open>release()\<close> run by any number of CPUs.
\<close>

section \<open>The routines\<close>

definition set_mach :: "(machine \<Rightarrow> machine) \<Rightarrow> unit kop" where
  "set_mach f = modify (\<lambda>k. k\<lparr>mach := f (mach k)\<rparr>)"

definition set_cpu :: "nat \<Rightarrow> (cpu \<Rightarrow> cpu) \<Rightarrow> unit kop" where
  "set_cpu c f = set_mach (\<lambda>m. m\<lparr>cpus := upd_at c f (cpus m)\<rparr>)"

definition set_lock :: "lockid \<Rightarrow> (spinlock \<Rightarrow> spinlock) \<Rightarrow> unit kop" where
  "set_lock l f = set_mach (\<lambda>m. m\<lparr>locks := (locks m)(l := f (locks m l))\<rparr>)"

definition cli :: "unit kop" where
  "cli = set_mach (\<lambda>m. m\<lparr>eflags_IF := False\<rparr>)"

definition sti :: "unit kop" where
  "sti = set_mach (\<lambda>m. m\<lparr>eflags_IF := True\<rparr>)"

text \<open>The search of \<^verbatim>\<open>mycpu()\<close> through the first \<open>ncpu\<close> entries of the table.\<close>

definition here :: "machine \<Rightarrow> nat option" where
  "here m = find_idx (\<lambda>c. c_apicid c = lapicid m) (take (ncpu m) (cpus m))"

definition mycpu :: "nat kop" where
  "mycpu =
     bind (gets mach) (\<lambda>m.
     if eflags_IF m then panic (''mycpu called with interrupts enabled'' @ [CHR 0x0A])
     else case here m of Some i \<Rightarrow> ret i | None \<Rightarrow> panic (''unknown apicid'' @ [CHR 0x0A]))"

definition cpuid :: "nat kop" where
  "cpuid = mycpu"

definition pushcli :: "unit kop" where
  "pushcli =
     bind (gets (\<lambda>k. eflags_IF (mach k))) (\<lambda>eflags.
     seq cli
     (bind mycpu (\<lambda>c.
      seq (set_cpu c (\<lambda>x. if c_ncli x = 0 then x\<lparr>c_intena := eflags\<rparr> else x))
          (set_cpu c (\<lambda>x. x\<lparr>c_ncli := c_ncli x + 1\<rparr>)))))"

definition popcli :: "unit kop" where
  "popcli =
     bind (gets (\<lambda>k. eflags_IF (mach k))) (\<lambda>eflags.
     if eflags then panic ''popcli - interruptible''
     else bind mycpu (\<lambda>c.
       seq (set_cpu c (\<lambda>x. x\<lparr>c_ncli := c_ncli x - 1\<rparr>))
       (bind (gets (\<lambda>k. cpus (mach k) ! c)) (\<lambda>x.
        if c_ncli x < 0 then panic ''popcli''
        else do_if (c_ncli x = 0 \<and> c_intena x) sti))))"

definition holding :: "lockid \<Rightarrow> bool kop" where
  "holding l =
     seq pushcli
     (bind (gets (\<lambda>k. locks (mach k) l)) (\<lambda>lk.
      bind (if lk_locked lk then bind mycpu (\<lambda>c. ret (lk_cpu lk = Some c)) else ret False) (\<lambda>r.
      seq popcli (ret r))))"

definition initlock :: "lockid \<Rightarrow> string \<Rightarrow> unit kop" where
  "initlock l name = set_lock l (\<lambda>_. \<lparr>lk_locked = False, lk_name = name, lk_cpu = None\<rparr>)"

text \<open>
  The \<^verbatim>\<open>xchg\<close> loop ends at once when the lock is free; while another CPU holds it, the
  routine stays in the loop (\<open>Spin\<close>).
\<close>

definition acquire :: "lockid \<Rightarrow> unit kop" where
  "acquire l =
     seq pushcli
     (bind (holding l) (\<lambda>h.
      if h then panic ''acquire''
      else bind (gets (\<lambda>k. lk_locked (locks (mach k) l))) (\<lambda>old.
        if old then spin
        else seq (set_lock l (\<lambda>lk. lk\<lparr>lk_locked := True\<rparr>))
             (bind mycpu (\<lambda>c. set_lock l (\<lambda>lk. lk\<lparr>lk_cpu := Some c\<rparr>))))))"

definition release :: "lockid \<Rightarrow> unit kop" where
  "release l =
     bind (holding l) (\<lambda>h.
     if \<not> h then panic ''release''
     else block [set_lock l (\<lambda>lk. lk\<lparr>lk_cpu := None\<rparr>),
                 set_lock l (\<lambda>lk. lk\<lparr>lk_locked := False\<rparr>),
                 popcli])"

definition myproc :: "nat option kop" where
  "myproc =
     seq pushcli
     (bind mycpu (\<lambda>c.
      bind (gets (\<lambda>k. c_proc (cpus (mach k) ! c))) (\<lambda>p.
      seq popcli (ret p))))"

lemma set_mach_apply [simp, op_simps]: "set_mach f k = Ok () (k\<lparr>mach := f (mach k)\<rparr>)"
  by (simp add: set_mach_def)

section \<open>Closed forms on the machine state\<close>

abbreviation this_cpu :: "machine \<Rightarrow> cpu" where
  "this_cpu m \<equiv> cpus m ! the (here m)"

abbreviation upd_this :: "(cpu \<Rightarrow> cpu) \<Rightarrow> machine \<Rightarrow> machine" where
  "upd_this f m \<equiv> m\<lparr>cpus := upd_at (the (here m)) f (cpus m)\<rparr>"

text \<open>
  \<open>ready m\<close>: the executing CPU is in the CPU table, and interrupts are off inside a nest of
  \<^verbatim>\<open>pushcli()\<close> calls.  This is what every kernel routine finds and keeps.
\<close>

definition ready :: "machine \<Rightarrow> bool" where
  "ready m \<longleftrightarrow> here m \<noteq> None \<and> 0 \<le> c_ncli (this_cpu m) \<and>
     (0 < c_ncli (this_cpu m) \<longrightarrow> \<not> eflags_IF m)"

definition push_m :: "machine \<Rightarrow> machine" where
  "push_m m = upd_this (\<lambda>x. x\<lparr>c_intena := (if c_ncli x = 0 then eflags_IF m else c_intena x),
     c_ncli := c_ncli x + 1\<rparr>) (m\<lparr>eflags_IF := False\<rparr>)"

definition pop_m :: "machine \<Rightarrow> machine" where
  "pop_m m = (upd_this (\<lambda>x. x\<lparr>c_ncli := c_ncli x - 1\<rparr>) m)
     \<lparr>eflags_IF := eflags_IF m \<or> (c_ncli (this_cpu m) = 1 \<and> c_intena (this_cpu m))\<rparr>"

text \<open>What a balanced \<^verbatim>\<open>pushcli()\<close>/\<^verbatim>\<open>popcli()\<close> pair leaves behind.\<close>

definition sync_m :: "machine \<Rightarrow> machine" where
  "sync_m m = (if c_ncli (this_cpu m) = 0 then upd_this (\<lambda>x. x\<lparr>c_intena := eflags_IF m\<rparr>) m else m)"

definition lock_free :: "lockid \<Rightarrow> machine \<Rightarrow> bool" where
  "lock_free l m \<longleftrightarrow> \<not> lk_locked (locks m l) \<and> lk_cpu (locks m l) = None"

definition holds :: "lockid \<Rightarrow> machine \<Rightarrow> bool" where
  "holds l m \<longleftrightarrow> lk_locked (locks m l) \<and> here m \<noteq> None \<and> lk_cpu (locks m l) = here m"

definition acq_m :: "lockid \<Rightarrow> machine \<Rightarrow> machine" where
  "acq_m l m = (push_m m)\<lparr>locks := (locks m)(l := (locks m l)\<lparr>lk_locked := True, lk_cpu := here m\<rparr>)\<rparr>"

definition rel_m :: "lockid \<Rightarrow> machine \<Rightarrow> machine" where
  "rel_m l m = pop_m (m\<lparr>locks := (locks m)(l := (locks m l)\<lparr>lk_locked := False, lk_cpu := None\<rparr>)\<rparr>)"

lemma here_Some_bound: "here m = Some c \<Longrightarrow> c < length (cpus m) \<and> c < ncpu m"
  by (auto simp: here_def find_idx_Some_iff)

text \<open>The search result does not depend on the fields that the routines below change.\<close>

lemma here_cong:
  assumes "lapicid m' = lapicid m" and "ncpu m' = ncpu m"
    and "map c_apicid (cpus m') = map c_apicid (cpus m)"
  shows "here m' = here m"
proof -
  have aux: "find_idx P xs = find_idx Q ys"
    if "map f xs = map f ys" "\<And>x. P x = R (f x)" "\<And>y. Q y = R (f y)"
    for P Q :: "cpu \<Rightarrow> bool" and R and f :: "cpu \<Rightarrow> uchar" and xs ys
    using that(1)
  proof (induction xs arbitrary: ys)
    case Nil
    then show ?case by simp
  next
    case (Cons x xs)
    then show ?case by (cases ys) (auto simp: that(2,3))
  qed
  show ?thesis
    unfolding here_def
    by (rule aux [where f = c_apicid and R = "\<lambda>a. a = lapicid m"])
      (simp_all add: assms flip: take_map)
qed

lemma here_cpu_update [simp]:
  assumes "c_apicid x = c_apicid (cpus m ! c)"
  shows "here (m\<lparr>cpus := (cpus m)[c := x]\<rparr>) = here m"
proof (rule here_cong)
  show "map c_apicid (cpus (m\<lparr>cpus := (cpus m)[c := x]\<rparr>)) = map c_apicid (cpus m)"
    by (cases "c < length (cpus m)")
      (simp_all add: assms map_update list_update_same_conv list_update_beyond)
qed simp_all

lemma here_eflags_IF [simp]: "here (m\<lparr>eflags_IF := b\<rparr>) = here m"
  by (simp add: here_def)

lemma here_eflags_IF_cpus [simp]: "here (m\<lparr>eflags_IF := b, cpus := cs\<rparr>) = here (m\<lparr>cpus := cs\<rparr>)"
  by (simp add: here_def)

lemma here_locks_cpus [simp]: "here (m\<lparr>locks := f, cpus := cs\<rparr>) = here (m\<lparr>cpus := cs\<rparr>)"
  by (simp add: here_def)

lemma here_locks [simp]: "here (m\<lparr>locks := x\<rparr>) = here m"
  by (simp add: here_def)

lemma here_push_m [simp]: "here (push_m m) = here m"
  by (simp add: push_m_def)

lemma here_pop_m [simp]: "here (pop_m m) = here m"
  by (simp add: pop_m_def)

lemma here_sync_m [simp]: "here (sync_m m) = here m"
  by (simp add: sync_m_def)

lemma here_acq_m [simp]: "here (acq_m l m) = here m"
  by (simp add: acq_m_def)

lemma here_rel_m [simp]: "here (rel_m l m) = here m"
  by (simp add: rel_m_def)

lemma locks_push_m [simp]: "locks (push_m m) = locks m"
  by (simp add: push_m_def)

lemma locks_pop_m [simp]: "locks (pop_m m) = locks m"
  by (simp add: pop_m_def)

lemma locks_sync_m [simp]: "locks (sync_m m) = locks m"
  by (simp add: sync_m_def)

lemma ready_here: "ready m \<Longrightarrow> \<exists>c. here m = Some c \<and> c < length (cpus m)"
  by (auto simp: ready_def dest: here_Some_bound)

lemma ncli_push_m: "ready m \<Longrightarrow> c_ncli (this_cpu (push_m m)) = c_ncli (this_cpu m) + 1"
  by (frule ready_here) (auto simp: push_m_def)

lemma IF_push_m [simp]: "\<not> eflags_IF (push_m m)"
  by (simp add: push_m_def)

lemma ready_push_m: "ready m \<Longrightarrow> ready (push_m m)"
  by (frule ncli_push_m) (simp add: ready_def)

lemma cpu_ncli_same: "c_ncli x = n \<Longrightarrow> x\<lparr>c_intena := b, c_ncli := n\<rparr> = x\<lparr>c_intena := b\<rparr>"
  by (rule cpu.equality) simp_all

lemma pop_push_m: "ready m \<Longrightarrow> pop_m (push_m m) = sync_m m"
  by (frule ready_here)
    (auto simp: pop_m_def push_m_def sync_m_def ready_def cpu_ncli_same intro!: machine.equality)

lemma sync_sync_m [simp]: "sync_m (sync_m m) = sync_m m"
  by (cases "the (here m) < length (cpus m)") (simp_all add: sync_m_def list_update_beyond)

lemma ready_sync_m [simp]: "ready (sync_m m) = ready m"
proof (cases "here m")
  case None
  then show ?thesis by (simp add: ready_def)
next
  case (Some c)
  then have "c < length (cpus m)" by (simp add: here_Some_bound)
  with Some show ?thesis
    by (simp add: ready_def) (simp add: sync_m_def)
qed

text \<open>The pointer to the running process is out of reach of the lock routines.\<close>

lemma cproc_push_m [simp]: "c_proc (cpus (push_m m) ! c) = c_proc (cpus m ! c)"
  by (cases "c = the (here m)"; cases "the (here m) < length (cpus m)")
    (simp_all add: push_m_def list_update_beyond)

section \<open>The routines compute the closed forms\<close>

lemma mycpu_ok: "\<not> eflags_IF (mach k) \<Longrightarrow> here (mach k) = Some c \<Longrightarrow> mycpu k = Ok c k"
  by (simp add: mycpu_def)

lemma pushcli_ok:
  assumes "here (mach k) = Some c"
  shows "pushcli k = Ok () (k\<lparr>mach := push_m (mach k)\<rparr>)"
proof -
  have "c < length (cpus (mach k))" using assms by (simp add: here_Some_bound)
  then show ?thesis using assms
    by (simp add: pushcli_def cli_def set_cpu_def mycpu_ok push_m_def)
qed

lemma popcli_ok:
  assumes "here (mach k) = Some c" and "\<not> eflags_IF (mach k)" and "1 \<le> c_ncli (cpus (mach k) ! c)"
  shows "popcli k = Ok () (k\<lparr>mach := pop_m (mach k)\<rparr>)"
proof -
  have "c < length (cpus (mach k))" using assms by (simp add: here_Some_bound)
  then show ?thesis using assms
    by (simp add: popcli_def sti_def set_cpu_def mycpu_ok pop_m_def)
qed

lemma popcli_after_push:
  assumes "ready (mach k)" and "mach k' = push_m (mach k)"
  shows "popcli k' = Ok () (k'\<lparr>mach := sync_m (mach k)\<rparr>)"
proof -
  from assms(1) obtain c where c: "here (mach k) = Some c" by (auto simp: ready_def)
  have "1 \<le> c_ncli (cpus (push_m (mach k)) ! c)"
    using ncli_push_m [OF assms(1)] c assms(1) by (simp add: ready_def)
  then have "popcli k' = Ok () (k'\<lparr>mach := pop_m (mach k')\<rparr>)"
    using assms c by (intro popcli_ok [of _ c]) simp_all
  then show ?thesis using assms by (simp add: pop_push_m)
qed

lemma holding_ok:
  assumes "ready (mach k)"
  shows "holding l k = Ok (holds l (mach k)) (k\<lparr>mach := sync_m (mach k)\<rparr>)"
proof -
  from assms obtain c where c: "here (mach k) = Some c" by (auto simp: ready_def)
  with assms show ?thesis
    by (simp add: holding_def pushcli_ok mycpu_ok popcli_after_push [of k] holds_def)
qed

lemma myproc_ok:
  assumes "ready (mach k)"
  shows "myproc k = Ok (c_proc (this_cpu (mach k))) (k\<lparr>mach := sync_m (mach k)\<rparr>)"
proof -
  from assms obtain c where c: "here (mach k) = Some c" by (auto simp: ready_def)
  with assms show ?thesis
    by (simp add: myproc_def pushcli_ok mycpu_ok popcli_after_push [of k])
qed

lemma sync_push_m: "ready m \<Longrightarrow> sync_m (push_m m) = push_m m"
  by (frule ncli_push_m) (auto simp: sync_m_def ready_def)

lemma acquire_ok:
  assumes "ready (mach k)" and "lock_free l (mach k)"
  shows "acquire l k = Ok () (k\<lparr>mach := acq_m l (mach k)\<rparr>)"
proof -
  from assms obtain c where c: "here (mach k) = Some c" by (auto simp: ready_def)
  with assms show ?thesis
    by (simp add: acquire_def pushcli_ok holding_ok ready_push_m sync_push_m mycpu_ok set_lock_def
        holds_def lock_free_def acq_m_def)
qed

lemma ready_acq_m: "ready m \<Longrightarrow> ready (acq_m l m)"
  by (drule ready_push_m) (simp add: ready_def acq_m_def)

lemma holds_acq_m: "ready m \<Longrightarrow> holds l (acq_m l' m) \<longleftrightarrow> l = l' \<or> holds l m"
  by (auto simp: holds_def acq_m_def ready_def)

lemma lock_free_acq_m: "lock_free l (acq_m l' m) \<longleftrightarrow> l \<noteq> l' \<and> lock_free l m"
  by (auto simp: lock_free_def acq_m_def)

lemma sync_acq_m: "ready m \<Longrightarrow> sync_m (acq_m l m) = acq_m l m"
  by (frule ncli_push_m) (auto simp: sync_m_def acq_m_def ready_def)

lemma rel_acq_m:
  assumes "ready m" and "lock_free l m"
  shows "rel_m l (acq_m l m) = sync_m m"
proof -
  have "(locks m)(l := (locks m l)\<lparr>lk_locked := False, lk_cpu := None\<rparr>) = locks m"
    using assms(2) by (auto simp: lock_free_def fun_eq_iff intro: spinlock.equality)
  then have "rel_m l (acq_m l m) = pop_m (push_m m)"
    by (simp add: rel_m_def acq_m_def push_m_def pop_m_def)
  then show ?thesis using assms(1) by (simp add: pop_push_m)
qed

definition nested :: "machine \<Rightarrow> bool" where
  "nested m \<longleftrightarrow> 1 \<le> c_ncli (this_cpu m)"

lemma nested_acq_m: "ready m \<Longrightarrow> nested (acq_m l m)"
  by (frule ncli_push_m) (auto simp: nested_def acq_m_def ready_def)

lemma sync_nested: "nested m \<Longrightarrow> sync_m m = m"
  by (simp add: nested_def sync_m_def)

lemma release_ok:
  assumes "ready (mach k)" and "holds l (mach k)" and "nested (mach k)"
  shows "release l k = Ok () (k\<lparr>mach := rel_m l (mach k)\<rparr>)"
proof -
  from assms(1) obtain c where c: "here (mach k) = Some c" by (auto simp: ready_def)
  let ?k' = "k\<lparr>mach := mach k\<lparr>locks := (locks (mach k))
    (l := (locks (mach k) l)\<lparr>lk_locked := False, lk_cpu := None\<rparr>)\<rparr>\<rparr>"
  have eq: "(locks (mach k) l)\<lparr>lk_cpu := None, lk_locked := False\<rparr>
      = (locks (mach k) l)\<lparr>lk_locked := False, lk_cpu := None\<rparr>"
    by simp
  have "popcli ?k' = Ok () (?k'\<lparr>mach := pop_m (mach ?k')\<rparr>)"
    using assms c by (intro popcli_ok [of _ c]) (auto simp: nested_def ready_def)
  then show ?thesis using assms
    by (simp add: release_def holding_ok sync_nested set_lock_def rel_m_def eq)
qed

text \<open>
  Two locks released in the order they were taken, as \<^verbatim>\<open>sleep()\<close> does when it trades
  its caller's lock for the process table's.
\<close>

lemma pop_push_push_m: "ready m \<Longrightarrow> pop_m (push_m (push_m m)) = push_m m"
  by (simp add: pop_push_m ready_push_m sync_push_m)

lemma push_m_locks: "push_m (m\<lparr>locks := f\<rparr>) = (push_m m)\<lparr>locks := f\<rparr>"
  by (rule machine.equality) (simp_all add: push_m_def)

lemma pop_m_locks: "pop_m (m\<lparr>locks := f\<rparr>) = (pop_m m)\<lparr>locks := f\<rparr>"
  by (rule machine.equality) (simp_all add: pop_m_def)

lemma rel_acq_acq_m:
  assumes "ready m" and "lock_free l m" and "l' \<noteq> l"
  shows "rel_m l (acq_m l' (acq_m l m)) = acq_m l' m"
proof -
  have "(locks m l)\<lparr>lk_locked := False, lk_cpu := None\<rparr> = locks m l"
    using assms(2) by (auto simp: lock_free_def intro!: spinlock.equality)
  then have "(locks m)(l := x, l' := y, l := (locks m l)\<lparr>lk_locked := False, lk_cpu := None\<rparr>)
      = (locks m)(l' := y)" for x y
    using assms(3) by auto
  then show ?thesis
    using assms(1,3) by (simp add: rel_m_def acq_m_def push_m_locks pop_m_locks pop_push_push_m)
qed

lemma lock_free_sync_m [simp]: "lock_free l (sync_m m) = lock_free l m"
  by (simp add: lock_free_def)

lemma holds_sync_m [simp]: "holds l (sync_m m) = holds l m"
  by (simp add: holds_def)

lemma eflags_IF_sync_m [simp]: "eflags_IF (sync_m m) = eflags_IF m"
  by (simp add: sync_m_def)

lemma cproc_acq_m [simp]: "c_proc (cpus (acq_m l m) ! c) = c_proc (cpus m ! c)"
  by (simp add: acq_m_def)

lemma cproc_sync_m [simp]: "c_proc (cpus (sync_m m) ! c) = c_proc (cpus m ! c)"
  by (cases "c = the (here m)"; cases "the (here m) < length (cpus m)")
    (simp_all add: sync_m_def list_update_beyond)

lemma ncli_sync_m [simp]: "c_ncli (cpus (sync_m m) ! c) = c_ncli (cpus m ! c)"
  by (cases "c = the (here m)"; cases "the (here m) < length (cpus m)")
    (simp_all add: sync_m_def list_update_beyond)

lemma nested_sync_m [simp]: "nested (sync_m m) = nested m"
  by (simp add: nested_def)

lemma ncli_acq_m:
  "ready m \<Longrightarrow> here m = Some c \<Longrightarrow> c_ncli (cpus (acq_m l m) ! c) = c_ncli (cpus m ! c) + 1"
  by (drule ncli_push_m) (simp add: acq_m_def)

lemma ncli_rel_m:
  "here m = Some c \<Longrightarrow> c_ncli (cpus (rel_m l m) ! c) = c_ncli (cpus m ! c) - 1"
  by (frule here_Some_bound) (auto simp: rel_m_def pop_m_def)

lemma intena_acq_m:
  "here m = Some c \<Longrightarrow>
   c_intena (cpus (acq_m l m) ! c) = (if c_ncli (cpus m ! c) = 0 then eflags_IF m else c_intena (cpus m ! c))"
  by (frule here_Some_bound) (auto simp: acq_m_def push_m_def)

lemma intena_rel_m: "here m = Some c \<Longrightarrow> c_intena (cpus (rel_m l m) ! c) = c_intena (cpus m ! c)"
  by (frule here_Some_bound) (auto simp: rel_m_def pop_m_def)

lemma cproc_rel_m [simp]: "c_proc (cpus (rel_m l m) ! c) = c_proc (cpus m ! c)"
  by (cases "c = the (here m)"; cases "the (here m) < length (cpus m)")
    (simp_all add: rel_m_def pop_m_def list_update_beyond)

lemma eflags_IF_acq_m [simp]: "\<not> eflags_IF (acq_m l m)"
  by (simp add: acq_m_def)

lemma eflags_IF_rel_m: "ready m \<Longrightarrow> 1 < c_ncli (this_cpu m) \<Longrightarrow> \<not> eflags_IF (rel_m l m)"
  by (simp add: rel_m_def pop_m_def ready_def)

lemma ready_rel_m: "ready m \<Longrightarrow> nested m \<Longrightarrow> ready (rel_m l m)"
  by (auto simp: ready_def nested_def ncli_rel_m eflags_IF_rel_m [unfolded ready_def])

lemma holds_rel_m: "holds l (rel_m l' m) \<longleftrightarrow> l \<noteq> l' \<and> holds l m"
  by (auto simp: holds_def rel_m_def)

lemma lock_free_rel_m: "lock_free l (rel_m l' m) \<longleftrightarrow> l = l' \<or> lock_free l m"
  by (auto simp: lock_free_def rel_m_def)

text \<open>The simplification rules of lock-protected code.\<close>

lemmas lock_simps =
  acquire_ok release_ok holding_ok myproc_ok ready_acq_m holds_acq_m lock_free_acq_m sync_acq_m
  nested_acq_m rel_acq_m rel_acq_acq_m

text \<open>The process running on the executing CPU.\<close>

abbreviation cur :: "kernel \<Rightarrow> nat option" where
  "cur k \<equiv> c_proc (this_cpu (mach k))"

lemma acquire_held:
  assumes "ready (mach k)" and "holds l (mach k)"
  shows "acquire l k = Fault (Panic ''acquire'')"
proof -
  from assms obtain c where c: "here (mach k) = Some c" by (auto simp: ready_def)
  with assms show ?thesis
    by (simp add: acquire_def pushcli_ok holding_ok ready_push_m holds_def)
qed

lemma acquire_spins:
  assumes "ready (mach k)" and "lk_locked (locks (mach k) l)" and "lk_cpu (locks (mach k) l) \<noteq> here (mach k)"
  shows "acquire l k = Fault Spin"
proof -
  from assms obtain c where c: "here (mach k) = Some c" by (auto simp: ready_def)
  with assms show ?thesis
    by (simp add: acquire_def pushcli_ok holding_ok ready_push_m holds_def)
qed

lemma release_not_held:
  "ready (mach k) \<Longrightarrow> \<not> holds l (mach k) \<Longrightarrow> release l k = Fault (Panic ''release'')"
  by (simp add: release_def holding_ok)

section \<open>Critical sections\<close>

text \<open>
  \<^verbatim>\<open>acquire(&l); body; release(&l); return x\<close>.  Most bodies of the kernel neither look at nor
  change the CPUs and the locks.  The locale states that contract, and its lemma is what the callers
  of such a section rely on.
\<close>

definition with_lock :: "lockid \<Rightarrow> 'a kop \<Rightarrow> 'a kop" where
  "with_lock l body = seq (acquire l) (bind body (\<lambda>x. seq (release l) (ret x)))"

fun on_state :: "('s \<Rightarrow> 's) \<Rightarrow> ('s, 'a) res \<Rightarrow> ('s, 'a) res" where
  "on_state f (Ok x s) = Ok x (f s)"
| "on_state f (Fault e) = Fault e"
| "on_state f (Swtch s) = Swtch (f s)"

locale mach_frame =
  fixes body :: "'a kop"
  assumes frame: "body (k\<lparr>mach := m\<rparr>) = on_state (\<lambda>k. k\<lparr>mach := m\<rparr>) (body k)"
begin

lemma mach_body:
  assumes "body k = Ok x k'"
  shows "mach k' = mach k"
proof -
  have "k' = k'\<lparr>mach := mach k\<rparr>"
    using frame [where k = k and m = "mach k"] assms by simp
  then show ?thesis by (metis kernel.select_convs(1) kernel.surjective kernel.update_convs(1))
qed

lemma run:
  assumes "ready (mach k)" and "lock_free l (mach k)" and "body k = Ok x k'"
  shows "with_lock l body k = Ok x (k'\<lparr>mach := sync_m (mach k)\<rparr>)"
  using assms by (simp add: with_lock_def frame lock_simps)

lemma run_fault:
  assumes "ready (mach k)" and "lock_free l (mach k)" and "body k = Fault e"
  shows "with_lock l body k = Fault e"
  using assms by (simp add: with_lock_def frame lock_simps)

end

section \<open>The instructions of \<open>acquire\<close> and \<open>release\<close>, on any number of CPUs\<close>

text \<open>
  One lock, and CPUs that each are outside (\<open>Outside\<close>), in the \<^verbatim>\<open>xchg\<close> loop
  (\<open>Spinning\<close>), past the loop with \<^verbatim>\<open>lk->cpu\<close> not yet written (\<open>Got\<close>), in the
  critical section (\<open>Critical\<close>), or in \<^verbatim>\<open>release()\<close> after \<^verbatim>\<open>lk->cpu = 0\<close>
  (\<open>Releasing\<close>).  Each rule is one access to the lock word or to \<^verbatim>\<open>lk->cpu\<close>; the
  test \<^verbatim>\<open>holding(lk)\<close> guards the entry of both routines.
\<close>

datatype lock_pc = Outside | Spinning | Got | Critical | Releasing

record lock_sys =
  ls_pc :: "nat \<Rightarrow> lock_pc"
  ls_locked :: bool
  ls_cpu :: "nat option"

definition lock_init :: lock_sys where
  "lock_init = \<lparr>ls_pc = (\<lambda>_. Outside), ls_locked = False, ls_cpu = None\<rparr>"

definition ls_holding :: "nat \<Rightarrow> lock_sys \<Rightarrow> bool" where
  "ls_holding i s \<longleftrightarrow> ls_locked s \<and> ls_cpu s = Some i"

inductive lock_step :: "lock_sys \<Rightarrow> lock_sys \<Rightarrow> bool" where
  enter: "ls_pc s i = Outside \<Longrightarrow> \<not> ls_holding i s \<Longrightarrow>
     lock_step s (s\<lparr>ls_pc := (ls_pc s)(i := Spinning)\<rparr>)"
| xchg_busy: "ls_pc s i = Spinning \<Longrightarrow> ls_locked s \<Longrightarrow> lock_step s (s\<lparr>ls_locked := True\<rparr>)"
| xchg_free: "ls_pc s i = Spinning \<Longrightarrow> \<not> ls_locked s \<Longrightarrow>
     lock_step s (s\<lparr>ls_locked := True, ls_pc := (ls_pc s)(i := Got)\<rparr>)"
| set_cpu: "ls_pc s i = Got \<Longrightarrow>
     lock_step s (s\<lparr>ls_cpu := Some i, ls_pc := (ls_pc s)(i := Critical)\<rparr>)"
| clear_cpu: "ls_pc s i = Critical \<Longrightarrow> ls_holding i s \<Longrightarrow>
     lock_step s (s\<lparr>ls_cpu := None, ls_pc := (ls_pc s)(i := Releasing)\<rparr>)"
| unlock: "ls_pc s i = Releasing \<Longrightarrow>
     lock_step s (s\<lparr>ls_locked := False, ls_pc := (ls_pc s)(i := Outside)\<rparr>)"

inductive lock_reachable :: "lock_sys \<Rightarrow> bool" where
  init: "lock_reachable lock_init"
| step: "lock_reachable s \<Longrightarrow> lock_step s t \<Longrightarrow> lock_reachable t"

definition owner :: "lock_pc \<Rightarrow> bool" where
  "owner c \<longleftrightarrow> c = Got \<or> c = Critical \<or> c = Releasing"

definition lock_inv :: "lock_sys \<Rightarrow> bool" where
  "lock_inv s \<longleftrightarrow>
     (\<forall>i j. owner (ls_pc s i) \<longrightarrow> owner (ls_pc s j) \<longrightarrow> i = j) \<and>
     (ls_locked s \<longleftrightarrow> (\<exists>i. owner (ls_pc s i))) \<and>
     (\<forall>i. ls_cpu s = Some i \<longleftrightarrow> ls_pc s i = Critical)"

lemma owner_simps [simp]:
  "owner Got" "owner Critical" "owner Releasing" "\<not> owner Outside" "\<not> owner Spinning"
  by (simp_all add: owner_def)

lemma lock_inv_owner:
  assumes "lock_inv s" and "owner (ls_pc s i)"
  shows "ls_locked s \<and> (\<forall>j. owner (ls_pc s j) \<longleftrightarrow> j = i) \<and> (\<forall>j. ls_pc s j = Critical \<longrightarrow> j = i)"
  using assms unfolding lock_inv_def by (metis owner_simps(2))

lemma lock_inv_step:
  assumes "lock_step s t" and "lock_inv s"
  shows "lock_inv t"
  using assms
proof (induction rule: lock_step.induct)
  case (xchg_free s i)
  then have none: "\<And>j. \<not> owner (ls_pc s j)" by (auto simp: lock_inv_def)
  then have "\<And>j. ls_pc s j \<noteq> Critical" by (metis owner_simps(2))
  with xchg_free none show ?case by (auto simp: lock_inv_def)
next
  case (set_cpu s i)
  then have "owner (ls_pc s i)" by simp
  note own = lock_inv_owner [OF set_cpu.prems this]
  then have "\<And>j. owner (((ls_pc s)(i := Critical)) j) \<longleftrightarrow> j = i"
    and "\<And>j. ((ls_pc s)(i := Critical)) j = Critical \<longleftrightarrow> j = i"
    by auto
  with own show ?case by (auto simp: lock_inv_def simp del: fun_upd_apply)
next
  case (clear_cpu s i)
  then have "owner (ls_pc s i)" by simp
  note own = lock_inv_owner [OF clear_cpu.prems this]
  then have "\<And>j. owner (((ls_pc s)(i := Releasing)) j) \<longleftrightarrow> j = i"
    and "\<And>j. ((ls_pc s)(i := Releasing)) j \<noteq> Critical"
    by auto
  with own show ?case by (auto simp: lock_inv_def simp del: fun_upd_apply)
next
  case (unlock s i)
  then have "owner (ls_pc s i)" by simp
  note own = lock_inv_owner [OF unlock.prems this]
  then have "\<And>j. \<not> owner (((ls_pc s)(i := Outside)) j)"
    and "\<And>j. ((ls_pc s)(i := Outside)) j = Critical \<longleftrightarrow> ls_pc s j = Critical"
    using unlock.hyps by auto
  with unlock.prems show ?case by (auto simp: lock_inv_def simp del: fun_upd_apply)
next
  case (enter s i)
  then have "\<And>j. owner (((ls_pc s)(i := Spinning)) j) = owner (ls_pc s j)"
    and "\<And>j. ((ls_pc s)(i := Spinning)) j = Critical \<longleftrightarrow> ls_pc s j = Critical"
    by auto
  with enter show ?case by (simp add: lock_inv_def del: fun_upd_apply)
qed (simp add: lock_inv_def)

lemma lock_reachable_inv: "lock_reachable s \<Longrightarrow> lock_inv s"
proof (induction rule: lock_reachable.induct)
  case init
  show ?case by (simp add: lock_init_def lock_inv_def)
next
  case (step s t)
  then show ?case by (blast intro: lock_inv_step)
qed

section \<open>Properties\<close>

text \<open>from any state in which the lock is free, \<^verbatim>\<open>acquire()\<close> returns with
  the lock held and interrupts off, taking the lock again panics, and the matching \<^verbatim>\<open>release()\<close> returns to the
  machine state of before: the same interrupt flag, the same nesting depth, the same locks.\<close>

theorem acquire_release:
  assumes "ready (mach k)" and "lock_free l (mach k)"
  shows "\<exists>k1 k2. acquire l k = Ok () k1 \<and> holds l (mach k1) \<and> \<not> eflags_IF (mach k1) \<and>
     acquire l k1 = Fault (Panic ''acquire'') \<and>
     release l k1 = Ok () k2 \<and> ready (mach k2) \<and>
     eflags_IF (mach k2) = eflags_IF (mach k) \<and> locks (mach k2) = locks (mach k) \<and>
     c_ncli (this_cpu (mach k2)) = c_ncli (this_cpu (mach k)) \<and> k2\<lparr>mach := mach k\<rparr> = k"
proof (intro exI conjI)
  let ?k1 = "k\<lparr>mach := acq_m l (mach k)\<rparr>" and ?k2 = "k\<lparr>mach := sync_m (mach k)\<rparr>"
  show "acquire l k = Ok () ?k1" using assms by (simp add: lock_simps)
  show "holds l (mach ?k1)" using assms by (simp add: lock_simps)
  show "\<not> eflags_IF (mach ?k1)" by (simp add: acq_m_def)
  show "acquire l ?k1 = Fault (Panic ''acquire'')" using assms by (simp add: acquire_held lock_simps)
  show "release l ?k1 = Ok () ?k2" using assms by (simp add: lock_simps)
qed (use assms in simp_all)

theorem acquire_release_witness:
  "ready (mach kernel0) \<and> lock_free L_ptable (mach kernel0) \<and>
   (\<exists>k1 k2. acquire L_ptable kernel0 = Ok () k1 \<and> release L_ptable k1 = Ok () k2)"
proof -
  have r: "ready (mach kernel0)" "lock_free L_ptable (mach kernel0)"
    by (simp_all add: ready_def here_def lock_free_def cold_defs)
  from acquire_release [OF r] r show ?thesis by blast
qed

lemma push_pop_block:
  "ready (mach k) \<Longrightarrow>
   block (replicate n pushcli @ replicate n popcli) k
     = Ok () (if n = 0 then k else k\<lparr>mach := sync_m (mach k)\<rparr>)"
proof (induction n arbitrary: k)
  case 0
  then show ?case by simp
next
  case (Suc n)
  from Suc.prems obtain c where c: "here (mach k) = Some c" by (auto simp: ready_def)
  define xs where "xs = replicate n pushcli @ replicate n popcli"
  have "block xs (k\<lparr>mach := push_m (mach k)\<rparr>) = Ok () (k\<lparr>mach := push_m (mach k)\<rparr>)"
    using Suc by (simp add: xs_def ready_push_m sync_push_m)
  moreover have "replicate (Suc n) pushcli @ replicate (Suc n) popcli = pushcli # xs @ [popcli]"
    by (simp add: xs_def replicate_append_same)
  ultimately show ?case
    using Suc.prems c
    by (simp only: block.simps) (simp add: block_append pushcli_ok popcli_after_push [of k])
qed

text \<open>\<^verbatim>\<open>pushcli()\<close> and \<^verbatim>\<open>popcli()\<close> are matched: after \<open>n\<close> nested pushes
  interrupts are off, and after \<open>n\<close> pops the interrupt flag and the nesting depth are what they
  were; a \<^verbatim>\<open>popcli()\<close> without a \<^verbatim>\<open>pushcli()\<close> panics.\<close>

theorem pushcli_popcli_nest:
  assumes "ready (mach k)" and "0 < n"
  shows "(\<exists>k1. block (replicate n pushcli) k = Ok () k1 \<and> \<not> eflags_IF (mach k1)) \<and>
    (\<exists>k2. block (replicate n pushcli @ replicate n popcli) k = Ok () k2 \<and>
       eflags_IF (mach k2) = eflags_IF (mach k) \<and>
       c_ncli (this_cpu (mach k2)) = c_ncli (this_cpu (mach k))) \<and>
    (c_ncli (this_cpu (mach k)) = 0 \<longrightarrow> \<not> eflags_IF (mach k) \<longrightarrow> popcli k = Fault (Panic ''popcli''))"
proof (intro conjI impI)
  have "\<exists>k1. block (replicate n pushcli) k = Ok () k1 \<and> ready (mach k1) \<and> (n = 0 \<or> \<not> eflags_IF (mach k1))"
    using assms(1)
  proof (induction n arbitrary: k)
    case 0
    then show ?case by simp
  next
    case (Suc n)
    then obtain c where c: "here (mach k) = Some c" by (auto simp: ready_def)
    have r: "ready (mach (k\<lparr>mach := push_m (mach k)\<rparr>))" using Suc.prems by (simp add: ready_push_m)
    from Suc.IH [OF r] c show ?case
      by (cases n) (auto simp: pushcli_ok)
  qed
  with assms(2) show "\<exists>k1. block (replicate n pushcli) k = Ok () k1 \<and> \<not> eflags_IF (mach k1)"
    by auto
  show "\<exists>k2. block (replicate n pushcli @ replicate n popcli) k = Ok () k2 \<and>
       eflags_IF (mach k2) = eflags_IF (mach k) \<and>
       c_ncli (this_cpu (mach k2)) = c_ncli (this_cpu (mach k))"
    using assms by (simp add: push_pop_block)
  assume "c_ncli (this_cpu (mach k)) = 0" and "\<not> eflags_IF (mach k)"
  moreover from assms(1) obtain c where "here (mach k) = Some c" "c < length (cpus (mach k))"
    by (auto dest: ready_here)
  ultimately show "popcli k = Fault (Panic ''popcli'')"
    by (simp add: popcli_def mycpu_ok set_cpu_def)
qed

theorem pushcli_popcli_nest_witness:
  "ready (mach kernel0) \<and> (0::nat) < 3 \<and>
   (\<exists>k2. block (replicate 3 pushcli @ replicate 3 popcli) kernel0 = Ok () k2 \<and> \<not> eflags_IF (mach k2))"
proof -
  have r: "ready (mach kernel0)" "(0::nat) < 3" "\<not> eflags_IF (mach kernel0)"
    by (simp_all add: ready_def here_def cold_defs)
  from pushcli_popcli_nest [OF r(1,2)] r show ?thesis by auto
qed

text \<open>C3: mutual exclusion of the spin-lock protocol.  In every state reachable by interleaving the
  instructions of \<^verbatim>\<open>acquire()\<close> and \<^verbatim>\<open>release()\<close> on any number of CPUs, at most one CPU is past the
  \<^verbatim>\<open>xchg\<close> loop and not yet done with \<^verbatim>\<open>release()\<close>; and the test \<^verbatim>\<open>holding()\<close> is true
  exactly for the CPU in its critical section, so neither routine panics on a correct caller.\<close>

theorem spinlock_mutual_exclusion:
  assumes "lock_reachable s"
  shows "(owner (ls_pc s i) \<longrightarrow> owner (ls_pc s j) \<longrightarrow> i = j) \<and>
    (ls_holding i s \<longleftrightarrow> ls_pc s i = Critical)"
proof -
  have inv: "lock_inv s" using assms by (rule lock_reachable_inv)
  then have "ls_holding i s \<longleftrightarrow> ls_pc s i = Critical"
    unfolding lock_inv_def ls_holding_def by (metis owner_simps(2))
  with inv show ?thesis by (simp add: lock_inv_def)
qed

theorem spinlock_mutual_exclusion_witness:
  "\<exists>s. lock_reachable s \<and> ls_pc s 0 = Got \<and> ls_pc s 1 = Spinning \<and>
     (owner (ls_pc s 0) \<longrightarrow> owner (ls_pc s 1) \<longrightarrow> (0::nat) = 1)"
proof -
  let ?a = "lock_init\<lparr>ls_pc := (ls_pc lock_init)(0 := Spinning)\<rparr>"
  let ?b = "?a\<lparr>ls_pc := (ls_pc ?a)(1 := Spinning)\<rparr>"
  let ?c = "?b\<lparr>ls_locked := True, ls_pc := (ls_pc ?b)(0 := Got)\<rparr>"
  have "lock_step lock_init ?a" by (rule lock_step.enter) (simp_all add: lock_init_def ls_holding_def)
  moreover have "lock_step ?a ?b" by (rule lock_step.enter) (simp_all add: lock_init_def ls_holding_def)
  moreover have "lock_step ?b ?c" by (rule lock_step.xchg_free) (simp_all add: lock_init_def)
  ultimately have r: "lock_reachable ?c" by (blast intro: lock_reachable.intros)
  have pc: "ls_pc ?c 0 = Got" "ls_pc ?c 1 = Spinning" by simp_all
  from r pc spinlock_mutual_exclusion [OF r, of 0 1] show ?thesis by blast
qed

end
