(* ===== verification/Proc.thy ===== *)
theory Proc
  imports Spinlock
begin

text \<open>
  The process core of \<^verbatim>\<open>proc.c\<close>: \<^verbatim>\<open>sched()\<close>, \<^verbatim>\<open>yield()\<close>,
  \<^verbatim>\<open>sleep()\<close>, \<^verbatim>\<open>wakeup()\<close>, \<^verbatim>\<open>kill()\<close> and
  \<^verbatim>\<open>find_with_pid()\<close>, with \<^verbatim>\<open>switchuvm()\<close> and \<^verbatim>\<open>switchkvm()\<close> of
  \<^verbatim>\<open>vm.c\<close>.

  A routine that calls \<^verbatim>\<open>swtch()\<close> is cut there: the part up to the switch ends in
  \<open>Swtch\<close>, and the part that runs when the process is scheduled again is the routine with the
  suffix \<open>_resume\<close>.
\<close>

definition deref :: "nat option \<Rightarrow> (nat \<Rightarrow> 'a kop) \<Rightarrow> 'a kop" where
  "deref p f = (case p of None \<Rightarrow> undef ''null pointer'' | Some i \<Rightarrow> f i)"

lemma deref_simps [simp]: "deref None f = undef ''null pointer''" "deref (Some i) f = f i"
  by (simp_all add: deref_def)

section \<open>Address-space switch\<close>

definition V2P :: "uint \<Rightarrow> uint" where
  "V2P a = a - KERNBASE"

definition P2V :: "uint \<Rightarrow> uint" where
  "P2V a = a + KERNBASE"

definition switchkvm :: "unit kop" where
  "switchkvm = bind (gets kpgdir) (\<lambda>pg.
     set_mach (\<lambda>m. case here m of Some c \<Rightarrow> m\<lparr>cpus := upd_at c (\<lambda>x. x\<lparr>c_cr3 := V2P pg\<rparr>) (cpus m)\<rparr> | None \<Rightarrow> m))"

definition switchuvm :: "nat option \<Rightarrow> unit kop" where
  "switchuvm p = (case p of None \<Rightarrow> panic ''switchuvm: no process''
   | Some i \<Rightarrow>
     bind (gets (\<lambda>k. proc_at k i)) (\<lambda>pr.
     if p_kstack pr = 0 then panic ''switchuvm: no kstack''
     else if p_pgdir pr = 0 then panic ''switchuvm: no pgdir''
     else seq pushcli (bind mycpu (\<lambda>c.
       seq (set_cpu c (\<lambda>x. x\<lparr>c_esp0 := p_kstack pr + KSTACKSIZE, c_cr3 := V2P (p_pgdir pr)\<rparr>))
           popcli))))"

section \<open>Giving up the CPU\<close>

definition sched :: "retpc \<Rightarrow> unit kop" where
  "sched from =
     bind myproc (\<lambda>p.
     bind (holding L_ptable) (\<lambda>h.
     if \<not> h then panic ''sched ptable.lock''
     else bind mycpu (\<lambda>c.
     bind (gets (\<lambda>k. cpus (mach k) ! c)) (\<lambda>x.
     if c_ncli x \<noteq> 1 then panic ''sched locks''
     else deref p (\<lambda>i.
     bind (gets (\<lambda>k. proc_at k i)) (\<lambda>pr.
     if p_state pr = RUNNING then panic ''sched running''
     else bind (gets (\<lambda>k. eflags_IF (mach k))) (\<lambda>fl.
     if fl then panic ''sched interruptible''
     else seq (set_proc i (\<lambda>q. q\<lparr>p_context := Ctx_sched (c_intena x) from\<rparr>)) swtch_out)))))))"

text \<open>\<^verbatim>\<open>mycpu()->intena = intena\<close>, with the saved local of the process that resumes.\<close>

definition sched_resume :: "unit kop" where
  "sched_resume =
     bind mycpu (\<lambda>c.
     bind (gets (\<lambda>k. c_proc (cpus (mach k) ! c))) (\<lambda>p.
     deref p (\<lambda>i.
     bind (gets (\<lambda>k. p_context (proc_at k i))) (\<lambda>ctx.
     case ctx of Ctx_sched intena from \<Rightarrow> set_cpu c (\<lambda>x. x\<lparr>c_intena := intena\<rparr>)
     | _ \<Rightarrow> undef ''not in sched''))))"

definition yield :: "unit kop" where
  "yield =
     seq (acquire L_ptable)
     (bind myproc (\<lambda>p. deref p (\<lambda>i.
      block [set_proc i (\<lambda>q. q\<lparr>p_state := RUNNABLE\<rparr>), sched R_yield])))"

definition yield_resume :: "unit kop" where
  "yield_resume = block [sched_resume, release L_ptable]"

section \<open>Sleep and wakeup\<close>

definition sleep :: "chan \<Rightarrow> lockid \<Rightarrow> unit kop" where
  "sleep chan lk =
     bind myproc (\<lambda>p.
     case p of None \<Rightarrow> panic ''sleep''
     | Some i \<Rightarrow> block
        [do_if (lk \<noteq> L_ptable) (seq (acquire L_ptable) (release lk)),
         set_proc i (\<lambda>q. q\<lparr>p_chan := Some chan\<rparr>),
         set_proc i (\<lambda>q. q\<lparr>p_state := SLEEPING\<rparr>),
         sched (R_sleep lk)])"

definition sleep_resume :: "lockid \<Rightarrow> unit kop" where
  "sleep_resume lk =
     seq sched_resume
     (bind myproc (\<lambda>p. deref p (\<lambda>i. block
        [set_proc i (\<lambda>q. q\<lparr>p_chan := None\<rparr>),
         do_if (lk \<noteq> L_ptable) (seq (release L_ptable) (acquire lk))])))"

definition wakeup1 :: "chan option \<Rightarrow> unit kop" where
  "wakeup1 chan = modify (\<lambda>k. k\<lparr>pt := pt k\<lparr>procs := map (\<lambda>p.
     if p_state p = SLEEPING \<and> p_chan p = chan then p\<lparr>p_state := RUNNABLE\<rparr> else p) (procs (pt k))\<rparr>\<rparr>)"

definition wakeup :: "chan option \<Rightarrow> unit kop" where
  "wakeup chan = block [acquire L_ptable, wakeup1 chan, release L_ptable]"

section \<open>Kill and lookup by pid\<close>

definition kill_body :: "int \<Rightarrow> int kop" where
  "kill_body pid =
     bind (gets (\<lambda>k. procs (pt k))) (\<lambda>ps.
     case find_idx (\<lambda>p. p_pid p = pid) ps of
       None \<Rightarrow> ret (-1)
     | Some i \<Rightarrow> seq (block
         [set_proc i (\<lambda>q. q\<lparr>p_killed := True\<rparr>),
          set_proc i (\<lambda>q. if p_state q = SLEEPING then q\<lparr>p_state := RUNNABLE\<rparr> else q)])
         (ret 0))"

definition kill :: "int \<Rightarrow> int kop" where
  "kill pid = with_lock L_ptable (kill_body pid)"

definition find_with_pid :: "int \<Rightarrow> nat option kop" where
  "find_with_pid pid =
     with_lock L_ptable (gets (\<lambda>k. find_idx (\<lambda>p. p_pid p = pid) (procs (pt k))))"

section \<open>The current process\<close>

text \<open>\<^verbatim>\<open>myproc()->field\<close>, an assignment to it, and a chain of tests joined by \<^verbatim>\<open>&&\<close>.\<close>

definition my :: "(proc \<Rightarrow> 'a) \<Rightarrow> 'a kop" where
  "my f = bind myproc (\<lambda>p. deref p (\<lambda>i. gets (\<lambda>k. f (proc_at k i))))"

definition set_my :: "(proc \<Rightarrow> proc) \<Rightarrow> unit kop" where
  "set_my f = bind myproc (\<lambda>p. deref p (\<lambda>i. set_proc i f))"

definition have_proc :: "bool kop" where
  "have_proc = bind myproc (\<lambda>p. ret (p \<noteq> None))"

primrec all_of :: "bool kop list \<Rightarrow> bool kop" where
  "all_of [] = ret True"
| "all_of (c # cs) = bind c (\<lambda>b. if b then all_of cs else ret False)"

section \<open>Effect on the process table\<close>

definition wake_proc :: "chan option \<Rightarrow> proc \<Rightarrow> proc" where
  "wake_proc chan p = (if p_state p = SLEEPING \<and> p_chan p = chan then p\<lparr>p_state := RUNNABLE\<rparr> else p)"

interpretation wakeup1: mach_frame "wakeup1 chan" for chan
  by unfold_locales (simp add: wakeup1_def)

interpretation kill_body: mach_frame "kill_body pid" for pid
  by unfold_locales (simp add: kill_body_def split: option.split)

interpretation find_pid: mach_frame "gets (\<lambda>k. find_idx P (procs (pt k)))" for P
  by unfold_locales simp

lemma wakeup1_apply:
  "wakeup1 chan k = Ok () (k\<lparr>pt := pt k\<lparr>procs := map (wake_proc chan) (procs (pt k))\<rparr>\<rparr>)"
  by (simp add: wakeup1_def wake_proc_def [abs_def])

lemma wakeup_ok:
  assumes "ready (mach k)" and "lock_free L_ptable (mach k)"
  shows "wakeup chan k = Ok () (k\<lparr>pt := pt k\<lparr>procs := map (wake_proc chan) (procs (pt k))\<rparr>,
     mach := sync_m (mach k)\<rparr>)"
  using assms by (simp add: wakeup_def lock_simps wakeup1_apply)

lemma find_with_pid_ok:
  assumes "ready (mach k)" and "lock_free L_ptable (mach k)"
  shows "find_with_pid pid k = Ok (find_idx (\<lambda>p. p_pid p = pid) (procs (pt k))) (k\<lparr>mach := sync_m (mach k)\<rparr>)"
  unfolding find_with_pid_def by (rule find_pid.run [OF assms]) simp

lemma my_ok:
  "ready (mach k) \<Longrightarrow> cur k = Some i \<Longrightarrow> my f k = Ok (f (proc_at k i)) (k\<lparr>mach := sync_m (mach k)\<rparr>)"
  by (simp add: my_def myproc_ok)

lemma set_my_ok:
  "ready (mach k) \<Longrightarrow> cur k = Some i \<Longrightarrow> set_my f k = Ok ()
     (k\<lparr>mach := sync_m (mach k), pt := pt k\<lparr>procs := upd_at i f (procs (pt k))\<rparr>\<rparr>)"
  by (simp add: set_my_def myproc_ok)

lemma have_proc_ok:
  "ready (mach k) \<Longrightarrow> have_proc k = Ok (cur k \<noteq> None) (k\<lparr>mach := sync_m (mach k)\<rparr>)"
  by (simp add: have_proc_def myproc_ok)

text \<open>The same inside a critical section, where the executing CPU's nesting does not change.\<close>

lemma my_held: "ready (mach k) \<Longrightarrow> nested (mach k) \<Longrightarrow> cur k = Some i \<Longrightarrow> my f k = Ok (f (proc_at k i)) k"
  by (simp add: my_ok sync_nested)

lemma wakeup_held:
  "ready (mach k) \<Longrightarrow> nested (mach k) \<Longrightarrow> lock_free L_ptable (mach k) \<Longrightarrow>
   wakeup chan k = Ok () (k\<lparr>pt := pt k\<lparr>procs := map (wake_proc chan) (procs (pt k))\<rparr>\<rparr>)"
  by (simp add: wakeup_ok sync_nested)

lemmas my_simps = my_ok set_my_ok have_proc_ok myproc_ok

section \<open>Switching out\<close>

text \<open>
  \<open>may_sched\<close>: the conditions that \<^verbatim>\<open>sched()\<close> checks, apart from the state of the
  process.
\<close>

definition may_sched :: "kernel \<Rightarrow> bool" where
  "may_sched k \<longleftrightarrow> ready (mach k) \<and> holds L_ptable (mach k) \<and> c_ncli (this_cpu (mach k)) = 1 \<and>
     (\<exists>i. cur k = Some i \<and> i < length (procs (pt k)))"

lemma sched_ok:
  assumes "may_sched k" and "cur k = Some i" and "p_state (proc_at k i) \<noteq> RUNNING"
  shows "sched from k = Swtch (k\<lparr>pt := pt k\<lparr>procs := upd_at i (\<lambda>q. q\<lparr>p_context :=
     Ctx_sched (c_intena (this_cpu (mach k))) from\<rparr>) (procs (pt k))\<rparr>\<rparr>)"
proof -
  from assms(1) obtain c where c: "here (mach k) = Some c" by (auto simp: may_sched_def ready_def)
  have n: "nested (mach k)" "\<not> eflags_IF (mach k)"
    using assms(1) by (auto simp: may_sched_def nested_def ready_def)
  with assms c show ?thesis
    by (simp add: sched_def may_sched_def myproc_ok holding_ok sync_nested mycpu_ok)
qed

lemma sched_panics:
  assumes "ready (mach k)"
  shows "\<not> holds L_ptable (mach k) \<Longrightarrow> sched from k = Fault (Panic ''sched ptable.lock'')"
    and "holds L_ptable (mach k) \<Longrightarrow> \<not> eflags_IF (mach k) \<Longrightarrow> c_ncli (this_cpu (mach k)) \<noteq> 1 \<Longrightarrow>
      sched from k = Fault (Panic ''sched locks'')"
    and "may_sched k \<Longrightarrow> cur k = Some i \<Longrightarrow> p_state (proc_at k i) = RUNNING \<Longrightarrow>
      sched from k = Fault (Panic ''sched running'')"
proof -
  from assms obtain c where c: "here (mach k) = Some c" by (auto simp: ready_def)
  show "\<not> holds L_ptable (mach k) \<Longrightarrow> sched from k = Fault (Panic ''sched ptable.lock'')"
    using assms by (simp add: sched_def myproc_ok holding_ok)
  show "holds L_ptable (mach k) \<Longrightarrow> \<not> eflags_IF (mach k) \<Longrightarrow> c_ncli (this_cpu (mach k)) \<noteq> 1 \<Longrightarrow>
      sched from k = Fault (Panic ''sched locks'')"
    using assms c ncli_sync_m [of "mach k" c] by (simp add: sched_def myproc_ok holding_ok mycpu_ok)
  show "may_sched k \<Longrightarrow> cur k = Some i \<Longrightarrow> p_state (proc_at k i) = RUNNING \<Longrightarrow>
      sched from k = Fault (Panic ''sched running'')"
    using assms c
    by (simp add: sched_def myproc_ok holding_ok mycpu_ok sync_nested may_sched_def nested_def ready_def)
qed

lemma yield_ok:
  assumes "ready (mach k)" and "lock_free L_ptable (mach k)" and "c_ncli (this_cpu (mach k)) = 0"
    and "cur k = Some i" and "i < length (procs (pt k))"
  shows "yield k = Swtch (k\<lparr>mach := acq_m L_ptable (mach k), pt := pt k\<lparr>procs :=
     upd_at i (\<lambda>q. q\<lparr>p_state := RUNNABLE, p_context := Ctx_sched (eflags_IF (mach k)) R_yield\<rparr>) (procs (pt k))\<rparr>\<rparr>)"
proof -
  from assms obtain c where c: "here (mach k) = Some c" by (auto simp: ready_def)
  have cur: "cur (k\<lparr>mach := acq_m L_ptable (mach k)\<rparr>) = Some i" using assms by simp
  have "may_sched (k\<lparr>mach := acq_m L_ptable (mach k), pt := pt k\<lparr>procs := upd_at i f (procs (pt k))\<rparr>\<rparr>)" for f
    using assms c by (simp add: may_sched_def lock_simps ncli_acq_m)
  then show ?thesis
    using assms cur c by (simp add: yield_def lock_simps sched_ok [where i = i] intena_acq_m)
qed

text \<open>
  \<^verbatim>\<open>sleep()\<close> as its callers meet it: they hold \<open>lk\<close> and nothing else.
\<close>

definition may_sleep :: "lockid \<Rightarrow> kernel \<Rightarrow> bool" where
  "may_sleep lk k \<longleftrightarrow> ready (mach k) \<and> holds lk (mach k) \<and> c_ncli (this_cpu (mach k)) = 1 \<and>
     (lk \<noteq> L_ptable \<longrightarrow> lock_free L_ptable (mach k)) \<and> (\<exists>i. cur k = Some i \<and> i < length (procs (pt k)))"

definition sleep_m :: "lockid \<Rightarrow> machine \<Rightarrow> machine" where
  "sleep_m lk m = (if lk = L_ptable then m else rel_m lk (acq_m L_ptable m))"

definition sleep_proc :: "chan \<Rightarrow> lockid \<Rightarrow> bool \<Rightarrow> proc \<Rightarrow> proc" where
  "sleep_proc chan lk intena p =
     p\<lparr>p_chan := Some chan, p_state := SLEEPING, p_context := Ctx_sched intena (R_sleep lk)\<rparr>"

lemma sleep_m_facts:
  assumes "may_sleep lk k"
  shows "ready (sleep_m lk (mach k))" and "holds L_ptable (sleep_m lk (mach k))"
    and "c_ncli (this_cpu (sleep_m lk (mach k))) = 1" and "nested (sleep_m lk (mach k))"
    and "c_proc (this_cpu (sleep_m lk (mach k))) = cur k"
    and "here (sleep_m lk (mach k)) = here (mach k)"
    and "c_intena (this_cpu (sleep_m lk (mach k))) = c_intena (this_cpu (mach k))"
    and "lk \<noteq> L_ptable \<Longrightarrow> lock_free lk (sleep_m lk (mach k))"
proof -
  from assms obtain c where "here (mach k) = Some c" by (auto simp: may_sleep_def ready_def)
  note facts = this assms
  note simps = may_sleep_def sleep_m_def lock_simps holds_rel_m lock_free_rel_m ready_rel_m ncli_rel_m
    ncli_acq_m intena_rel_m intena_acq_m nested_def
  show "ready (sleep_m lk (mach k))" using facts by (simp add: simps)
  show "holds L_ptable (sleep_m lk (mach k))" using facts by (auto simp: simps)
  show "c_ncli (this_cpu (sleep_m lk (mach k))) = 1" using facts by (simp add: simps)
  show "nested (sleep_m lk (mach k))" using facts by (simp add: simps)
  show "c_proc (this_cpu (sleep_m lk (mach k))) = cur k" using facts by (simp add: simps)
  show "here (sleep_m lk (mach k)) = here (mach k)" using facts by (simp add: simps)
  show "c_intena (this_cpu (sleep_m lk (mach k))) = c_intena (this_cpu (mach k))"
    using facts by (simp add: simps)
  show "lk \<noteq> L_ptable \<Longrightarrow> lock_free lk (sleep_m lk (mach k))" using facts by (simp add: simps)
qed

lemma sleep_ok:
  assumes "may_sleep lk k" and "cur k = Some i"
  shows "sleep chan lk k = Swtch (k\<lparr>mach := sleep_m lk (mach k), pt := pt k\<lparr>procs :=
     upd_at i (sleep_proc chan lk (c_intena (this_cpu (mach k)))) (procs (pt k))\<rparr>\<rparr>)"
proof -
  let ?m = "sleep_m lk (mach k)"
  let ?k1 = "k\<lparr>mach := ?m, pt := pt k\<lparr>procs :=
     upd_at i (\<lambda>q. q\<lparr>p_chan := Some chan, p_state := SLEEPING\<rparr>) (procs (pt k))\<rparr>\<rparr>"
  have i: "i < length (procs (pt k))" using assms by (auto simp: may_sleep_def)
  note facts = sleep_m_facts [OF assms(1)]
  have n: "nested (mach k)" using assms by (simp add: may_sleep_def nested_def)
  have pre: "do_if (lk \<noteq> L_ptable) (seq (acquire L_ptable) (release lk)) k = Ok () (k\<lparr>mach := ?m\<rparr>)"
    using assms by (auto simp: may_sleep_def sleep_m_def lock_simps)
  have cur1: "cur ?k1 = Some i" using facts(5,6) assms(2) by simp
  have "may_sched ?k1" using facts cur1 i by (simp add: may_sched_def)
  then have "sched (R_sleep lk) ?k1 = Swtch (k\<lparr>mach := ?m, pt := pt k\<lparr>procs :=
     upd_at i (sleep_proc chan lk (c_intena (this_cpu (mach k)))) (procs (pt k))\<rparr>\<rparr>)"
    using cur1 facts i by (subst sched_ok [of _ i]) (simp_all add: sleep_proc_def)
  then show ?thesis
    using assms n pre i by (simp add: sleep_def may_sleep_def myproc_ok sync_nested)
qed

lemma sched_resume_ok:
  assumes "here (mach k) = Some c" and "\<not> eflags_IF (mach k)" and "cur k = Some i"
    and "p_context (proc_at k i) = Ctx_sched intena from"
  shows "sched_resume k = Ok () (k\<lparr>mach := upd_this (\<lambda>x. x\<lparr>c_intena := intena\<rparr>) (mach k)\<rparr>)"
  using assms by (simp add: sched_resume_def mycpu_ok set_cpu_def)

section \<open>Properties\<close>

text \<open>The kernel as another CPU sees it: that CPU's APIC id and interrupt flag.\<close>

definition on_cpu :: "uchar \<Rightarrow> bool \<Rightarrow> kernel \<Rightarrow> kernel" where
  "on_cpu a fl k = k\<lparr>mach := (mach k)\<lparr>lapicid := a, eflags_IF := fl\<rparr>\<rparr>"


text \<open>A kernel in which process 0 is about to sleep while holding \<^verbatim>\<open>tickslock\<close>.\<close>

definition sleeping_example :: kernel where
  "sleeping_example = (let k = kernel0\<lparr>mach := machine0\<lparr>cpus := [cpu0\<lparr>c_proc := Some 0\<rparr>]\<rparr>\<rparr>
     in k\<lparr>mach := acq_m L_ticks (mach k)\<rparr>)"


text \<open>\<^verbatim>\<open>wakeup(chan)\<close> makes every process asleep on \<open>chan\<close> runnable, changes the
  state of no other process, changes no other field of any process, and leaves all locks as they
  were.\<close>

theorem wakeup_exact:
  assumes "ready (mach k)" and "lock_free L_ptable (mach k)"
  shows "\<exists>k'. wakeup chan k = Ok () k' \<and> length (procs (pt k')) = length (procs (pt k)) \<and>
     locks (mach k') = locks (mach k) \<and>
     (\<forall>i < length (procs (pt k)).
        p_state (proc_at k' i) =
          (if p_state (proc_at k i) = SLEEPING \<and> p_chan (proc_at k i) = chan then RUNNABLE
           else p_state (proc_at k i)) \<and>
        (proc_at k' i)\<lparr>p_state := p_state (proc_at k i)\<rparr> = proc_at k i)"
proof -
  have "(wake_proc chan p)\<lparr>p_state := p_state p\<rparr> = p" for p
    by (simp add: wake_proc_def)
  with wakeup_ok [OF assms, of chan] show ?thesis
    by (auto simp: wake_proc_def)
qed

theorem wakeup_exact_witness:
  "ready (mach kernel0) \<and> lock_free L_ptable (mach kernel0) \<and>
   (\<exists>k'. wakeup (Some Ch_ticks) kernel0 = Ok () k' \<and> p_state (proc_at k' 3) = UNUSED)"
proof -
  have r: "ready (mach kernel0)" "lock_free L_ptable (mach kernel0)" "length (procs (pt kernel0)) = 64"
    "p_state (proc_at kernel0 3) = UNUSED"
    by (simp_all add: ready_def here_def lock_free_def cold_defs)
  from wakeup_exact [OF r(1,2), of "Some Ch_ticks"] obtain k' where
    k': "wakeup (Some Ch_ticks) kernel0 = Ok () k'"
    "\<forall>i < length (procs (pt kernel0)). p_state (proc_at k' i) =
          (if p_state (proc_at kernel0 i) = SLEEPING \<and> p_chan (proc_at kernel0 i) = Some Ch_ticks then RUNNABLE
           else p_state (proc_at kernel0 i))"
    by blast
  from k'(2) [rule_format, of 3] r have "p_state (proc_at k' 3) = UNUSED" by simp
  with k' r show ?thesis by blast
qed

text \<open>C27: \<^verbatim>\<open>kill(pid)\<close> returns -1 and changes no process when no slot has that pid; otherwise it
  returns 0, marks the first such slot as killed and, if it was asleep, makes it runnable, and touches
  no other slot.\<close>

theorem kill_effect:
  assumes "ready (mach k)" and "lock_free L_ptable (mach k)"
  shows "\<exists>r k'. kill pid k = Ok r k' \<and>
     (case find_idx (\<lambda>p. p_pid p = pid) (procs (pt k)) of
        None \<Rightarrow> r = -1 \<and> pt k' = pt k
      | Some i \<Rightarrow> r = 0 \<and> p_killed (proc_at k' i) \<and>
          p_state (proc_at k' i) = (if p_state (proc_at k i) = SLEEPING then RUNNABLE else p_state (proc_at k i)) \<and>
          (\<forall>j < length (procs (pt k)). j \<noteq> i \<longrightarrow> proc_at k' j = proc_at k j))"
proof (cases "find_idx (\<lambda>p. p_pid p = pid) (procs (pt k))")
  case None
  then have "kill_body pid k = Ok (-1) k" by (simp add: kill_body_def)
  from kill_body.run [OF assms this] None show ?thesis by (simp add: kill_def)
next
  case (Some i)
  then have i: "i < length (procs (pt k))" by (rule find_idx_SomeD(1))
  define f where "f q = (if p_state q = SLEEPING then q\<lparr>p_killed := True, p_state := RUNNABLE\<rparr> else q\<lparr>p_killed := True\<rparr>)" for q :: proc
  have "kill_body pid k = Ok 0 (k\<lparr>pt := pt k\<lparr>procs := upd_at i f (procs (pt k))\<rparr>\<rparr>)"
    using Some i by (simp add: kill_body_def f_def)
  from kill_body.run [OF assms this] Some i show ?thesis by (simp add: kill_def f_def)
qed

theorem kill_effect_witness:
  "ready (mach kernel0) \<and> lock_free L_ptable (mach kernel0) \<and>
   (\<exists>k'. kill 5 kernel0 = Ok (-1) k' \<and> pt k' = pt kernel0)"
proof -
  have r: "ready (mach kernel0)" "lock_free L_ptable (mach kernel0)"
    by (simp_all add: ready_def here_def lock_free_def cold_defs)
  have n: "find_idx (\<lambda>p. p_pid p = 5) (procs (pt kernel0)) = None"
    by (simp add: find_idx_None_iff cold_defs)
  from kill_effect [OF r, of 5] n r show ?thesis by auto
qed

end
