(* ===== verification/Sleeplock.thy ===== *)
theory Sleeplock
  imports Proc
begin

text \<open>
  \<^verbatim>\<open>sleeplock.c\<close>: long-term locks for processes.  The loop of \<^verbatim>\<open>acquiresleep()\<close> ends
  each round either with the lock taken or in \<^verbatim>\<open>sleep()\<close>; \<open>acquiresleep_resume\<close> is what the
  process does when it is scheduled again.
\<close>

definition set_sl :: "sleepid \<Rightarrow> (sleeplock \<Rightarrow> sleeplock) \<Rightarrow> unit kop" where
  "set_sl l f = modify (\<lambda>k. k\<lparr>sleeplocks := (sleeplocks k)(l := f (sleeplocks k l))\<rparr>)"

lemma set_sl_apply [simp, op_simps]:
  "set_sl l f k = Ok () (k\<lparr>sleeplocks := (sleeplocks k)(l := f (sleeplocks k l))\<rparr>)"
  by (simp add: set_sl_def)

definition initsleeplock :: "sleepid \<Rightarrow> string \<Rightarrow> unit kop" where
  "initsleeplock l name = block
     [initlock (L_sleep l) ''sleep lock'',
      set_sl l (\<lambda>x. x\<lparr>sl_name := name\<rparr>),
      set_sl l (\<lambda>x. x\<lparr>sl_locked := False\<rparr>),
      set_sl l (\<lambda>x. x\<lparr>sl_pid := 0\<rparr>)]"

definition acquiresleep_loop :: "sleepid \<Rightarrow> unit kop" where
  "acquiresleep_loop l =
     bind (gets (\<lambda>k. sl_locked (sleeplocks k l))) (\<lambda>b.
     if b then sleep (Ch_sleeplock l) (L_sleep l)
     else block
       [set_sl l (\<lambda>x. x\<lparr>sl_locked := True\<rparr>),
        bind (my p_pid) (\<lambda>pid. set_sl l (\<lambda>x. x\<lparr>sl_pid := pid\<rparr>)),
        release (L_sleep l)])"

definition acquiresleep :: "sleepid \<Rightarrow> unit kop" where
  "acquiresleep l = seq (acquire (L_sleep l)) (acquiresleep_loop l)"

definition acquiresleep_resume :: "sleepid \<Rightarrow> unit kop" where
  "acquiresleep_resume l = seq (sleep_resume (L_sleep l)) (acquiresleep_loop l)"

definition releasesleep :: "sleepid \<Rightarrow> unit kop" where
  "releasesleep l = block
     [acquire (L_sleep l),
      set_sl l (\<lambda>x. x\<lparr>sl_locked := False\<rparr>),
      set_sl l (\<lambda>x. x\<lparr>sl_pid := 0\<rparr>),
      wakeup (Some (Ch_sleeplock l)),
      release (L_sleep l)]"

definition holdingsleep :: "sleepid \<Rightarrow> bool kop" where
  "holdingsleep l =
     seq (acquire (L_sleep l))
     (bind (gets (\<lambda>k. sleeplocks k l)) (\<lambda>x.
      bind (if sl_locked x then bind (my p_pid) (\<lambda>pid. ret (sl_pid x = pid)) else ret False) (\<lambda>r.
      seq (release (L_sleep l)) (ret r))))"

section \<open>Closed forms\<close>

text \<open>
  What a process finds when it enters a sleep-lock routine: no spinlock held, and neither the lock's
  own spinlock nor \<^verbatim>\<open>ptable.lock\<close> held by another CPU.
\<close>

definition can_sleep :: "sleepid \<Rightarrow> kernel \<Rightarrow> bool" where
  "can_sleep l k \<longleftrightarrow> ready (mach k) \<and> c_ncli (this_cpu (mach k)) = 0 \<and>
     lock_free (L_sleep l) (mach k) \<and> lock_free L_ptable (mach k) \<and>
     (\<exists>i. cur k = Some i \<and> i < length (procs (pt k)))"

definition take_sl :: "sleepid \<Rightarrow> int \<Rightarrow> kernel \<Rightarrow> kernel" where
  "take_sl l pid k = k\<lparr>mach := sync_m (mach k),
     sleeplocks := (sleeplocks k)(l := (sleeplocks k l)\<lparr>sl_locked := True, sl_pid := pid\<rparr>)\<rparr>"

definition drop_sl :: "sleepid \<Rightarrow> kernel \<Rightarrow> kernel" where
  "drop_sl l k = k\<lparr>sleeplocks := (sleeplocks k)(l := (sleeplocks k l)\<lparr>sl_locked := False, sl_pid := 0\<rparr>),
     pt := pt k\<lparr>procs := map (wake_proc (Some (Ch_sleeplock l))) (procs (pt k))\<rparr>, mach := sync_m (mach k)\<rparr>"

lemma acquiresleep_ok:
  assumes "can_sleep l k" and "cur k = Some i" and "\<not> sl_locked (sleeplocks k l)"
  shows "acquiresleep l k = Ok () (take_sl l (p_pid (proc_at k i)) k)"
  using assms
  by (simp add: acquiresleep_def acquiresleep_loop_def can_sleep_def lock_simps my_ok take_sl_def)

lemma acquiresleep_blocks:
  assumes "can_sleep l k" and "cur k = Some i" and "sl_locked (sleeplocks k l)"
  shows "acquiresleep l k = Swtch (k\<lparr>mach := sleep_m (L_sleep l) (acq_m (L_sleep l) (mach k)),
     pt := pt k\<lparr>procs := upd_at i (sleep_proc (Ch_sleeplock l) (L_sleep l) (eflags_IF (mach k))) (procs (pt k))\<rparr>\<rparr>)"
proof -
  from assms obtain c where c: "here (mach k) = Some c" by (auto simp: can_sleep_def ready_def)
  have "may_sleep (L_sleep l) (k\<lparr>mach := acq_m (L_sleep l) (mach k)\<rparr>)"
    using assms c by (simp add: may_sleep_def can_sleep_def lock_simps ncli_acq_m)
  from sleep_ok [OF this, of i] show ?thesis
    using assms c by (simp add: acquiresleep_def acquiresleep_loop_def can_sleep_def lock_simps intena_acq_m)
qed

lemma releasesleep_ok:
  assumes "ready (mach k)" and "lock_free (L_sleep l) (mach k)" and "lock_free L_ptable (mach k)"
  shows "releasesleep l k = Ok () (drop_sl l k)"
  using assms by (simp add: releasesleep_def lock_simps wakeup_ok drop_sl_def)

lemma holdingsleep_ok:
  assumes "can_sleep l k" and "cur k = Some i"
  shows "holdingsleep l k = Ok (sl_locked (sleeplocks k l) \<and> sl_pid (sleeplocks k l) = p_pid (proc_at k i))
     (k\<lparr>mach := sync_m (mach k)\<rparr>)"
  using assms by (simp add: holdingsleep_def can_sleep_def lock_simps my_ok)

section \<open>Properties\<close>

lemma can_sleep_take: "can_sleep l (take_sl l' pid k) \<longleftrightarrow> can_sleep l k"
  by (auto simp: can_sleep_def take_sl_def)

text \<open>C25: A sleep lock is exclusive: \<^verbatim>\<open>acquiresleep()\<close> returns at once if the lock is free, and then
  the lock is held in the name of the caller, its spinlock is free again and every further
  \<^verbatim>\<open>acquiresleep()\<close> switches away; if the lock is held, the caller switches away asleep
  on it and the lock is unchanged.\<close>

theorem sleeplock_exclusive:
  assumes "can_sleep l k" and "cur k = Some i"
  shows "if sl_locked (sleeplocks k l)
     then \<exists>k'. acquiresleep l k = Swtch k' \<and> sleeplocks k' = sleeplocks k \<and>
       p_state (proc_at k' i) = SLEEPING \<and> p_chan (proc_at k' i) = Some (Ch_sleeplock l)
     else \<exists>k' k'' k3. acquiresleep l k = Ok () k' \<and> holdingsleep l k' = Ok True k'' \<and>
       locks (mach k') = locks (mach k) \<and> acquiresleep l k' = Swtch k3"
proof (cases "sl_locked (sleeplocks k l)")
  case True
  then show ?thesis
    using acquiresleep_blocks [OF assms True] assms by (auto simp: sleep_proc_def can_sleep_def)
next
  case False
  let ?k = "take_sl l (p_pid (proc_at k i)) k"
  have c: "can_sleep l ?k" "cur ?k = Some i" using assms can_sleep_take by (simp_all add: take_sl_def)
  have "sl_locked (sleeplocks ?k l)" by (simp add: take_sl_def)
  note acquiresleep_blocks [OF c this]
  moreover have "holdingsleep l ?k = Ok True (?k\<lparr>mach := sync_m (mach ?k)\<rparr>)"
    using holdingsleep_ok [OF c] by (simp add: take_sl_def)
  moreover have "locks (mach ?k) = locks (mach k)" by (simp add: take_sl_def)
  ultimately show ?thesis using False acquiresleep_ok [OF assms False] by auto
qed

text \<open>A process about to take a buffer's lock that another process holds, or that nobody holds.\<close>

definition sleeplock_example :: "bool \<Rightarrow> kernel" where
  "sleeplock_example b = kernel0\<lparr>mach := machine0\<lparr>cpus := [cpu0\<lparr>c_proc := Some 0\<rparr>]\<rparr>,
     sleeplocks := (\<lambda>_. sleeplock0\<lparr>sl_locked := b\<rparr>)\<rparr>"

lemma sleeplock_example_ok:
  "can_sleep l (sleeplock_example b)" "cur (sleeplock_example b) = Some 0"
  "sl_locked (sleeplocks (sleeplock_example b) l) = b"
  by (simp_all add: sleeplock_example_def can_sleep_def cold_defs ready_def here_def lock_free_def)

theorem sleeplock_exclusive_witness:
  "\<exists>k' k'' k3. acquiresleep (SL_buf 0) (sleeplock_example False) = Ok () k' \<and> holdingsleep (SL_buf 0) k' = Ok True k'' \<and>
     acquiresleep (SL_buf 0) k' = Swtch k3"
  using sleeplock_exclusive [OF sleeplock_example_ok(1,2), of False "SL_buf 0"] by (auto simp: sleeplock_example_ok)

text \<open>C26: A process that waits for a sleep lock is not forgotten: after it has switched away and
  \<^verbatim>\<open>ptable.lock\<close> has been released, \<^verbatim>\<open>releasesleep()\<close> frees the lock and makes the waiting
  process runnable.\<close>

theorem sleeplock_handoff:
  assumes "can_sleep l k" and "cur k = Some i" and "sl_locked (sleeplocks k l)"
  shows "\<exists>k1 k2 k3. acquiresleep l k = Swtch k1 \<and> release L_ptable k1 = Ok () k2 \<and>
     releasesleep l k2 = Ok () k3 \<and> p_state (proc_at k3 i) = RUNNABLE \<and> \<not> sl_locked (sleeplocks k3 l)"
proof -
  define m where "m = sleep_m (L_sleep l) (acq_m (L_sleep l) (mach k))"
  define k1 where "k1 = k\<lparr>mach := m, pt := pt k\<lparr>procs :=
    upd_at i (sleep_proc (Ch_sleeplock l) (L_sleep l) (eflags_IF (mach k))) (procs (pt k))\<rparr>\<rparr>"
  from assms obtain c where c: "here (mach k) = Some c" by (auto simp: can_sleep_def ready_def)
  have ms: "may_sleep (L_sleep l) (k\<lparr>mach := acq_m (L_sleep l) (mach k)\<rparr>)"
    using assms c by (simp add: may_sleep_def can_sleep_def lock_simps ncli_acq_m)
  note f = sleep_m_facts [OF ms, simplified, folded m_def]
  have 1: "acquiresleep l k = Swtch k1" using acquiresleep_blocks [OF assms] by (simp add: k1_def m_def)
  have 2: "release L_ptable k1 = Ok () (k1\<lparr>mach := rel_m L_ptable m\<rparr>)"
    using f by (subst release_ok) (simp_all add: k1_def)
  have "ready (rel_m L_ptable m)" "lock_free (L_sleep l) (rel_m L_ptable m)" "lock_free L_ptable (rel_m L_ptable m)"
    using f by (simp_all add: ready_rel_m lock_free_rel_m)
  then have 3: "releasesleep l (k1\<lparr>mach := rel_m L_ptable m\<rparr>) = Ok () (drop_sl l (k1\<lparr>mach := rel_m L_ptable m\<rparr>))"
    by (intro releasesleep_ok) simp_all
  have "i < length (procs (pt k))" using assms by (auto simp: can_sleep_def)
  then have "p_state (proc_at (drop_sl l (k1\<lparr>mach := rel_m L_ptable m\<rparr>)) i) = RUNNABLE"
    by (simp add: drop_sl_def k1_def wake_proc_def sleep_proc_def)
  moreover have "\<not> sl_locked (sleeplocks (drop_sl l (k1\<lparr>mach := rel_m L_ptable m\<rparr>)) l)" by (simp add: drop_sl_def)
  ultimately show ?thesis using 1 2 3 by blast
qed

theorem sleeplock_handoff_witness:
  "\<exists>k1 k2 k3. acquiresleep (SL_inode 7) (sleeplock_example True) = Swtch k1 \<and> release L_ptable k1 = Ok () k2 \<and>
     releasesleep (SL_inode 7) k2 = Ok () k3 \<and> p_state (proc_at k3 0) = RUNNABLE"
  using sleeplock_handoff [OF sleeplock_example_ok(1,2), of True "SL_inode 7"] by (auto simp: sleeplock_example_ok)

end
