(* ===== verification/Strings.thy ===== *)
theory Strings
  imports Xv6_Prelude
begin

unbundle bit_operations_syntax

text \<open>
  \<^verbatim>\<open>string.c\<close>: the byte and string routines of the kernel, on a memory that maps every 32-bit
  address to a byte.  A routine takes the memory and returns the memory it leaves; a count of type
  \<^verbatim>\<open>uint\<close> is given as the number of iterations of its \<^verbatim>\<open>while(n-- > 0)\<close> loop, a
  count of type \<^verbatim>\<open>int\<close> as an integer.
\<close>

type_synonym memory = "uint \<Rightarrow> uchar"

section \<open>Little-endian words\<close>

definition byte_of :: "uint \<Rightarrow> nat \<Rightarrow> uchar" where
  "byte_of w i = ucast (drop_bit (8 * i) w)"

definition put32 :: "memory \<Rightarrow> uint \<Rightarrow> uint \<Rightarrow> memory" where
  "put32 m a w = m(a := byte_of w 0, a + 1 := byte_of w 1, a + 2 := byte_of w 2, a + 3 := byte_of w 3)"

definition get32 :: "memory \<Rightarrow> uint \<Rightarrow> uint" where
  "get32 m a = ucast (m a) OR push_bit 8 (ucast (m (a + 1))) OR push_bit 16 (ucast (m (a + 2)))
     OR push_bit 24 (ucast (m (a + 3)))"

section \<open>The routines\<close>

fun stosb :: "memory \<Rightarrow> uint \<Rightarrow> uchar \<Rightarrow> nat \<Rightarrow> memory" where
  "stosb m a c 0 = m"
| "stosb m a c (Suc n) = stosb (m(a := c)) (a + 1) c n"

fun stosl :: "memory \<Rightarrow> uint \<Rightarrow> uint \<Rightarrow> nat \<Rightarrow> memory" where
  "stosl m a w 0 = m"
| "stosl m a w (Suc n) = stosl (put32 m a w) (a + 4) w n"

definition memset :: "memory \<Rightarrow> uint \<Rightarrow> uint \<Rightarrow> nat \<Rightarrow> memory" where
  "memset m dst c n =
     (if dst mod 4 = 0 \<and> n mod 4 = 0 then
        let c = c AND 0xFF in
        stosl m dst (push_bit 24 c OR push_bit 16 c OR push_bit 8 c OR c) (n div 4)
      else stosb m dst (ucast c) n)"

fun memcmp :: "memory \<Rightarrow> uint \<Rightarrow> uint \<Rightarrow> nat \<Rightarrow> int" where
  "memcmp m s1 s2 0 = 0"
| "memcmp m s1 s2 (Suc n) =
     (if m s1 \<noteq> m s2 then uint (m s1) - uint (m s2) else memcmp m (s1 + 1) (s2 + 1) n)"

fun copy_up :: "memory \<Rightarrow> uint \<Rightarrow> uint \<Rightarrow> nat \<Rightarrow> memory" where
  "copy_up m d s 0 = m"
| "copy_up m d s (Suc n) = copy_up (m(d := m s)) (d + 1) (s + 1) n"

fun copy_down :: "memory \<Rightarrow> uint \<Rightarrow> uint \<Rightarrow> nat \<Rightarrow> memory" where
  "copy_down m d s 0 = m"
| "copy_down m d s (Suc n) = copy_down (m(d - 1 := m (s - 1))) (d - 1) (s - 1) n"

definition memmove :: "memory \<Rightarrow> uint \<Rightarrow> uint \<Rightarrow> nat \<Rightarrow> memory" where
  "memmove m dst src n =
     (if src < dst \<and> src + of_nat n > dst then copy_down m (dst + of_nat n) (src + of_nat n) n
      else copy_up m dst src n)"

definition memcpy :: "memory \<Rightarrow> uint \<Rightarrow> uint \<Rightarrow> nat \<Rightarrow> memory" where
  "memcpy m dst src n = memmove m dst src n"

fun strncmp :: "memory \<Rightarrow> uint \<Rightarrow> uint \<Rightarrow> nat \<Rightarrow> int" where
  "strncmp m p q 0 = 0"
| "strncmp m p q (Suc n) =
     (if m p \<noteq> 0 \<and> m p = m q then strncmp m (p + 1) (q + 1) n
      else uint (m p) - uint (m q))"

text \<open>The two loops of \<^verbatim>\<open>strncpy()\<close>; the first returns the memory, \<open>s\<close> and \<open>n\<close>.\<close>

function strncpy_copy :: "memory \<Rightarrow> uint \<Rightarrow> uint \<Rightarrow> int \<Rightarrow> memory \<times> uint \<times> int" where
  "strncpy_copy m s t n =
     (if 0 < n then
        if m t \<noteq> 0 then strncpy_copy (m(s := m t)) (s + 1) (t + 1) (n - 1)
        else (m(s := m t), s + 1, n - 1)
      else (m, s, n - 1))"
  by pat_completeness auto
termination by (relation "measure (\<lambda>(m, s, t, n). nat n)") auto

function zero_fill :: "memory \<Rightarrow> uint \<Rightarrow> int \<Rightarrow> memory" where
  "zero_fill m s n = (if 0 < n then zero_fill (m(s := 0)) (s + 1) (n - 1) else m)"
  by pat_completeness auto
termination by (relation "measure (\<lambda>(m, s, n). nat n)") auto

definition strncpy :: "memory \<Rightarrow> uint \<Rightarrow> uint \<Rightarrow> int \<Rightarrow> memory" where
  "strncpy m s t n = (case strncpy_copy m s t n of (m', s', n') \<Rightarrow> zero_fill m' s' n')"

text \<open>The loop of \<^verbatim>\<open>safestrcpy()\<close>; it returns the memory and \<open>s\<close>.\<close>

function safestrcpy_copy :: "memory \<Rightarrow> uint \<Rightarrow> uint \<Rightarrow> int \<Rightarrow> memory \<times> uint" where
  "safestrcpy_copy m s t n =
     (if 0 < n - 1 then
        if m t \<noteq> 0 then safestrcpy_copy (m(s := m t)) (s + 1) (t + 1) (n - 1)
        else (m(s := m t), s + 1)
      else (m, s))"
  by pat_completeness auto
termination by (relation "measure (\<lambda>(m, s, t, n). nat n)") auto

definition safestrcpy :: "memory \<Rightarrow> uint \<Rightarrow> uint \<Rightarrow> int \<Rightarrow> memory" where
  "safestrcpy m s t n =
     (if n \<le> 0 then m
      else case safestrcpy_copy m s t n of (m', s') \<Rightarrow> m'(s' := 0))"

partial_function (option) strlen_loop :: "memory \<Rightarrow> uint \<Rightarrow> nat \<Rightarrow> nat option" where
  "strlen_loop m s n = (if m (s + of_nat n) = 0 then Some n else strlen_loop m s (Suc n))"

definition strlen :: "memory \<Rightarrow> uint \<Rightarrow> nat option" where
  "strlen m s = strlen_loop m s 0"

declare strncpy_copy.simps [simp del] zero_fill.simps [simp del] safestrcpy_copy.simps [simp del]

lemma off_inj: "i < 2 ^ 32 \<Longrightarrow> j < 2 ^ 32 \<Longrightarrow> (a :: uint) + of_nat i = a + of_nat j \<longleftrightarrow> i = j"
  by (auto simp: word_unat_eq_iff [of "of_nat i :: uint"] unat_of_nat)

lemma unat_plus_nat: "unat (a :: uint) + n < 2 ^ 32 \<Longrightarrow> unat (a + of_nat n) = unat a + n"
  by (simp add: unat_word_ariths unat_of_nat)

lemma unat_minus: "d \<le> a \<Longrightarrow> unat (a - d :: uint) = unat a - unat d"
  by (simp add: unat_sub)

lemma unat_shift:
  assumes "(d :: uint) \<le> a" and "unat s + (unat a - unat d) < 2 ^ 32"
  shows "unat (s + (a - d) :: uint) = unat s + (unat a - unat d)"
  using assms unat_minus [OF assms(1)] by (simp add: unat_word_ariths)

lemma copy_up_spec:
  assumes "unat d + n < 2 ^ 32" and "unat s + n < 2 ^ 32" and "d \<le> s \<or> unat s + n \<le> unat d"
  shows "copy_up m d s n a = (if d \<le> a \<and> unat a < unat d + n then m (s + (a - d)) else m a)"
  using assms
proof (induction n arbitrary: m d s)
  case 0
  then show ?case by (auto simp: word_le_nat_alt)
next
  case (Suc n)
  have u: "unat (d + 1) = unat d + 1" "unat (s + 1) = unat s + 1"
    using unat_plus_nat [of d 1] unat_plus_nat [of s 1] Suc.prems by simp_all
  have IH: "copy_up (m(d := m s)) (d + 1) (s + 1) n a =
    (if d + 1 \<le> a \<and> unat a < unat (d + 1) + n then (m(d := m s)) (s + 1 + (a - (d + 1))) else (m(d := m s)) a)"
    using Suc.prems by (intro Suc.IH) (auto simp: u word_le_nat_alt)
  have e: "s + 1 + (a - (d + 1)) = s + (a - d)" by simp
  show ?case
  proof (cases "a = d")
    case True
    then have "\<not> d + 1 \<le> a" using u by (simp add: word_le_nat_alt)
    with True IH show ?thesis by simp
  next
    case False
    then have le: "d + 1 \<le> a \<longleftrightarrow> d \<le> a"
      using u by (auto simp: word_le_nat_alt) (metis le_antisym not_less_eq_eq word_unat_eq_iff)
    show ?thesis
    proof (cases "d \<le> a \<and> unat a < unat d + Suc n")
      case True
      then have "unat s + (unat a - unat d) < 2 ^ 32" using Suc.prems(2) by (auto simp: word_le_nat_alt)
      then have "unat (s + (a - d)) = unat s + (unat a - unat d)" using True by (intro unat_shift) simp_all
      moreover have "unat a \<noteq> unat d" using False by (simp add: word_unat_eq_iff)
      moreover have "unat d \<le> unat s \<or> unat s + Suc n \<le> unat d" "unat d \<le> unat a" "unat a < unat d + Suc n"
        using Suc.prems(3) True by (simp_all add: word_le_nat_alt)
      ultimately have "unat (s + (a - d)) \<noteq> unat d" by linarith
      then have "s + (a - d) \<noteq> d" by metis
      with True le IH e u show ?thesis by simp
    next
      case out: False
      then show ?thesis using IH le u False by (auto simp: word_le_nat_alt)
    qed
  qed
qed

lemma copy_down_spec:
  assumes "n \<le> unat s" and "s \<le> d"
  shows "copy_down m d s n a = (if unat d - n \<le> unat a \<and> a < d then m (s - (d - a)) else m a)"
  using assms
proof (induction n arbitrary: m d s)
  case 0
  then show ?case by (auto simp: word_less_nat_alt)
next
  case (Suc n)
  have ne: "1 \<le> s" "1 \<le> d" using Suc.prems by (auto simp: word_le_nat_alt)
  have u: "unat (d - 1) = unat d - 1" "unat (s - 1) = unat s - 1"
    using unat_minus [OF ne(2)] unat_minus [OF ne(1)] by simp_all
  have IH: "copy_down (m(d - 1 := m (s - 1))) (d - 1) (s - 1) n a =
    (if unat (d - 1) - n \<le> unat a \<and> a < d - 1 then (m(d - 1 := m (s - 1))) (s - 1 - (d - 1 - a)) else (m(d - 1 := m (s - 1))) a)"
    using Suc.prems by (intro Suc.IH) (auto simp: u word_le_nat_alt)
  have e: "s - 1 - (d - 1 - a) = s - (d - a)" by simp
  show ?case
  proof (cases "a = d - 1")
    case True
    have "a < d" "\<not> a < d - 1" "unat d - Suc n \<le> unat a"
      using True u ne(2) by (auto simp: word_less_nat_alt word_le_nat_alt)
    moreover have "s - 1 = s - (d - a)" using True by simp
    ultimately show ?thesis using True IH by simp
  next
    case False
    then have "unat a \<noteq> unat d - 1" using u by (metis word_unat_eq_iff)
    then have lt: "a < d - 1 \<longleftrightarrow> a < d" using u ne(2) by (auto simp: word_less_nat_alt word_le_nat_alt)
    show ?thesis
    proof (cases "unat d - Suc n \<le> unat a \<and> a < d")
      case True
      have "unat (d - a) = unat d - unat a" using True by (intro unat_minus) (simp add: order.strict_implies_order)
      moreover have "unat d - unat a \<le> Suc n" "unat a < unat d" using True by (auto simp: word_less_nat_alt)
      ultimately have "unat (s - (d - a)) = unat s - (unat d - unat a)"
        using Suc.prems(1) by (subst unat_minus) (auto simp: word_le_nat_alt)
      moreover have "unat s \<le> unat d" using Suc.prems(2) by (simp add: word_le_nat_alt)
      ultimately have "unat (s - (d - a)) \<noteq> unat (d - 1)"
        using u \<open>unat a \<noteq> unat d - 1\<close> \<open>unat a < unat d\<close> \<open>unat d - unat a \<le> Suc n\<close> Suc.prems(1) by linarith
      then have "s - (d - a) \<noteq> d - 1" by metis
      with True lt IH e u show ?thesis by auto
    next
      case out: False
      then show ?thesis using IH lt u False by auto
    qed
  qed
qed

lemma memmove_spec:
  assumes "unat dst + n < 2 ^ 32" and "unat src + n < 2 ^ 32"
  shows "memmove m dst src n a = (if dst \<le> a \<and> unat a < unat dst + n then m (src + (a - dst)) else m a)"
proof -
  note u = unat_plus_nat [OF assms(1)] unat_plus_nat [OF assms(2)]
  show ?thesis
  proof (cases "src < dst \<and> src + of_nat n > dst")
    case True
    have "copy_down m (dst + of_nat n) (src + of_nat n) n a =
      (if unat (dst + of_nat n) - n \<le> unat a \<and> a < dst + of_nat n
       then m (src + of_nat n - (dst + of_nat n - a)) else m a)"
      using u True by (intro copy_down_spec) (auto simp: word_le_nat_alt word_less_nat_alt)
    moreover have "src + of_nat n - (dst + of_nat n - a) = src + (a - dst)" by simp
    ultimately show ?thesis using True u by (simp add: memmove_def word_le_nat_alt word_less_nat_alt)
  next
    case False
    then have "dst \<le> src \<or> unat src + n \<le> unat dst"
      using u by (auto simp: word_le_nat_alt word_less_nat_alt)
    with assms show ?thesis unfolding memmove_def if_not_P [OF False] by (intro copy_up_spec)
  qed
qed

section \<open>Words in memory\<close>

lemma byte_of_bit: "bit (byte_of w i) n \<longleftrightarrow> n < 8 \<and> bit w (8 * i + n)"
  by (auto simp: byte_of_def bit_simps)

lemma off_neq: "a + 1 \<noteq> (a :: uint)" "a + 2 \<noteq> (a :: uint)" "a + 3 \<noteq> (a :: uint)" "a + 2 \<noteq> a + (1 :: uint)"
  "a + 3 \<noteq> a + (1 :: uint)" "a + 3 \<noteq> a + (2 :: uint)"
  using off_inj [of 0 1 a] off_inj [of 0 2 a] off_inj [of 0 3 a] off_inj [of 1 2 a] off_inj [of 1 3 a]
    off_inj [of 2 3 a] by simp_all

lemma bytes_word:
  "ucast (byte_of w 0) OR push_bit 8 (ucast (byte_of w 1)) OR push_bit 16 (ucast (byte_of w 2)) OR
   push_bit 24 (ucast (byte_of w 3)) = (w :: uint)"
proof (rule bit_word_eqI)
  fix n assume "n < LENGTH(32)"
  then have n: "n < 32" by simp
  then consider "n < 8" | "8 \<le> n" "n < 16" | "16 \<le> n" "n < 24" | "24 \<le> n" by linarith
  then show "bit (ucast (byte_of w 0) OR push_bit 8 (ucast (byte_of w 1)) OR push_bit 16 (ucast (byte_of w 2)) OR
   push_bit 24 (ucast (byte_of w 3)) :: uint) n = bit w n"
    using n by cases (auto simp: bit_simps byte_of_bit)
qed

lemma get32_put32 [simp]: "get32 (put32 m a w) a = w"
  using off_neq [of a] bytes_word [of w] by (simp add: get32_def put32_def)

lemma put32_frame: "b \<notin> {a, a + 1, a + 2, a + 3} \<Longrightarrow> put32 m a w b = m b"
  by (simp add: put32_def)

lemma get32_cong:
  "m a = m' a \<Longrightarrow> m (a + 1) = m' (a + 1) \<Longrightarrow> m (a + 2) = m' (a + 2) \<Longrightarrow> m (a + 3) = m' (a + 3) \<Longrightarrow>
   get32 m a = get32 m' a"
  by (simp add: get32_def)

section \<open>Filling memory\<close>

lemma stosb_spec:
  assumes "unat d + n < 2 ^ 32"
  shows "stosb m d c n a = (if d \<le> a \<and> unat a < unat d + n then c else m a)"
  using assms
proof (induction n arbitrary: m d)
  case 0
  then show ?case by (auto simp: word_le_nat_alt)
next
  case (Suc n)
  have u: "unat (d + 1) = unat d + 1" using unat_plus_nat [of d 1] Suc.prems by simp
  then have IH: "stosb (m(d := c)) (d + 1) c n a = (if d + 1 \<le> a \<and> unat a < unat (d + 1) + n then c else (m(d := c)) a)"
    using Suc.prems by (intro Suc.IH) simp
  show ?case
  proof (cases "a = d")
    case False
    then have "unat a \<noteq> unat d" by (simp add: word_unat_eq_iff)
    with False IH u show ?thesis by (auto simp: word_le_nat_alt)
  qed (use IH in simp)
qed

lemma put32_fill:
  assumes "\<And>i. i < 4 \<Longrightarrow> byte_of w i = c"
  shows "put32 m a w = m(a := c, a + 1 := c, a + 2 := c, a + 3 := c)"
  using assms [of 0] assms [of 1] assms [of 2] assms [of 3] by (simp add: put32_def)

lemma stosl_stosb:
  assumes "\<And>i. i < 4 \<Longrightarrow> byte_of w i = c"
  shows "stosl m d w n = stosb m d c (4 * n)"
proof (induction n arbitrary: m d)
  case (Suc n)
  have "stosb m d c (4 * Suc n) = stosb (m(d := c, d + 1 := c, d + 2 := c, d + 3 := c)) (d + 4) c (4 * n)"
    by (simp add: eval_nat_numeral add.assoc)
  then show ?case by (simp only: stosl.simps put32_fill [OF assms] Suc.IH)
qed simp

lemma bit_0xFF: "bit (0xFF :: uint) k \<longleftrightarrow> k < 8"
  using bit_mask_iff [of 8 k, where ?'a = "32 word"] by (auto simp: mask_eq_exp_minus_1)

lemma spread_byte:
  assumes "i < 4" and high: "\<And>k. bit (c :: uint) k \<Longrightarrow> k < 8"
  shows "byte_of (push_bit 24 c OR push_bit 16 c OR push_bit 8 c OR c) i = ucast c"
proof (rule bit_word_eqI)
  fix n assume "n < LENGTH(8)"
  then have n: "n < 8" by simp
  have h: "\<not> bit c (8 + n)" "\<not> bit c (16 + n)" "\<not> bit c (24 + n)" using high by fastforce+
  from assms(1) consider "i = 0" | "i = 1" | "i = 2" | "i = 3" by linarith
  then show "bit (byte_of (push_bit 24 c OR push_bit 16 c OR push_bit 8 c OR c) i) n = bit (ucast c :: uchar) n"
    using n h by cases (simp_all add: byte_of_bit bit_simps)
qed

text \<open>The two branches of \<^verbatim>\<open>memset()\<close> do the same.\<close>

lemma memset_stosb: "memset m dst c n = stosb m dst (ucast c) n"
proof (cases "dst mod 4 = 0 \<and> n mod 4 = 0")
  case True
  have "ucast (c AND 0xFF) = (ucast c :: uchar)"
    by (rule bit_word_eqI) (simp only: bit_unsigned_iff bit_and_iff bit_0xFF, simp)
  moreover have "k < 8" if "bit (c AND 0xFF) k" for k
    using that by (simp only: bit_and_iff bit_0xFF)
  moreover have "4 * (n div 4) = n" using True by auto
  ultimately show ?thesis
    using True stosl_stosb [OF spread_byte [of _ "c AND 0xFF"], of m dst "n div 4"]
    by (simp add: memset_def Let_def)
next
  case False
  then show ?thesis unfolding memset_def if_not_P [OF False] by simp
qed

section \<open>Comparing and copying strings\<close>

lemma memcmp_zero_iff: "memcmp m s1 s2 n = 0 \<longleftrightarrow> (\<forall>i < n. m (s1 + of_nat i) = m (s2 + of_nat i))"
proof (induction n arbitrary: s1 s2)
  case (Suc n)
  then show ?case by (simp add: All_less_Suc2 add.assoc) (auto simp: word_uint_eq_iff)
qed simp

lemma strncmp_zero_iff:
  "strncmp m p q n = 0 \<longleftrightarrow>
   (\<forall>i < n. (\<forall>j < i. m (p + of_nat j) \<noteq> 0) \<longrightarrow> m (p + of_nat i) = m (q + of_nat i))"
proof (induction n arbitrary: p q)
  case (Suc n)
  have *: "(\<forall>j < Suc i. m (p + of_nat j) \<noteq> 0) \<longleftrightarrow> m p \<noteq> 0 \<and> (\<forall>j < i. m (p + 1 + of_nat j) \<noteq> 0)" for i
    by (simp add: All_less_Suc2 add.assoc)
  have **: "(\<forall>i < Suc n. (\<forall>j < i. m (p + of_nat j) \<noteq> 0) \<longrightarrow> m (p + of_nat i) = m (q + of_nat i)) \<longleftrightarrow>
      m p = m q \<and> (m p \<noteq> 0 \<longrightarrow> strncmp m (p + 1) (q + 1) n = 0)"
    by (simp only: All_less_Suc2 * Suc.IH) (auto simp: add.assoc)
  show ?case unfolding ** by (auto simp: word_uint_eq_iff)
qed simp

lemma strlen_loop_Some:
  assumes "n \<le> l" and "m (s + of_nat l) = 0" and "\<forall>i. n \<le> i \<and> i < l \<longrightarrow> m (s + of_nat i) \<noteq> 0"
  shows "strlen_loop m s n = Some l"
  using assms
proof (induction "l - n" arbitrary: n)
  case 0
  then show ?case by (subst strlen_loop.simps) simp
next
  case (Suc d)
  then have "m (s + of_nat n) \<noteq> 0" "strlen_loop m s (Suc n) = Some l" by simp_all
  then show ?case by (subst strlen_loop.simps) simp
qed

text \<open>
  The loop of \<^verbatim>\<open>safestrcpy()\<close> copies as long as the source goes on and there is room.
\<close>

lemma safestrcpy_copy_run:
  assumes "\<And>i. i < l \<Longrightarrow> m (t + of_nat i) \<noteq> 0" and "int l < n"
  shows "safestrcpy_copy m s t n = safestrcpy_copy (copy_up m s t l) (s + of_nat l) (t + of_nat l) (n - int l)"
  using assms
proof (induction l arbitrary: m s t n)
  case (Suc l)
  have "m t \<noteq> 0" "0 < n - 1" using Suc.prems(1) [of 0] Suc.prems(2) by simp_all
  then have "safestrcpy_copy m s t n = safestrcpy_copy (m(s := m t)) (s + 1) (t + 1) (n - 1)"
    by (subst safestrcpy_copy.simps) simp
  also have "\<dots> = safestrcpy_copy (copy_up (m(s := m t)) (s + 1) (t + 1) l) (s + 1 + of_nat l) (t + 1 + of_nat l) (n - 1 - int l)"
  proof (rule Suc.IH)
    fix i assume "i < l"
    then show "(m(s := m t)) (t + 1 + of_nat i) \<noteq> 0"
      using Suc.prems(1) [of "Suc i"] \<open>m t \<noteq> 0\<close> by (auto simp: algebra_simps)
  qed (use Suc.prems(2) in simp)
  finally show ?case by (simp add: algebra_simps)
qed simp

lemma stop_exists:
  assumes "0 < n"
  shows "\<exists>l < n. (\<forall>i < l. m (t + of_nat i) \<noteq> (0 :: uchar)) \<and> (l = n - 1 \<or> m (t + of_nat l :: uint) = 0)"
proof (cases "\<exists>l < n. m (t + of_nat l) = 0")
  case True
  let ?l = "LEAST l. m (t + of_nat l) = 0"
  from True obtain l0 where "l0 < n" "m (t + of_nat l0) = 0" by blast
  then have "?l < n" "m (t + of_nat ?l) = 0" "\<forall>i < ?l. m (t + of_nat i) \<noteq> 0"
    by (meson LeastI Least_le le_less_trans not_less_Least)+
  then show ?thesis by blast
next
  case False
  then show ?thesis using assms by (intro exI [of _ "n - 1"]) auto
qed

lemma off_le: "unat (s :: uint) + i < 2 ^ 32 \<Longrightarrow> s \<le> s + of_nat i"
  by (simp add: word_le_nat_alt unat_plus_nat)



text \<open>C39: \<^verbatim>\<open>memmove(dst, src, n)\<close> copies the \<open>n\<close> bytes that were at \<open>src\<close> before the
  call to \<open>dst\<close> and changes no other byte, also when the two ranges overlap either way round.\<close>

theorem memmove_overlap:
  assumes "unat dst + n < 2 ^ 32" and "unat src + n < 2 ^ 32"
  shows "(\<forall>i < n. memmove m dst src n (dst + of_nat i) = m (src + of_nat i)) \<and>
     (\<forall>a. a < dst \<or> unat dst + n \<le> unat a \<longrightarrow> memmove m dst src n a = m a)"
proof (intro conjI allI impI)
  fix i assume "i < n"
  then show "memmove m dst src n (dst + of_nat i) = m (src + of_nat i)"
    using assms off_le [of dst i] by (simp add: memmove_spec unat_plus_nat)
next
  fix a assume "a < dst \<or> unat dst + n \<le> unat a"
  then show "memmove m dst src n a = m a"
    using assms by (auto simp: memmove_spec word_less_nat_alt word_le_nat_alt)
qed

theorem memmove_overlap_witness:
  "memmove (\<lambda>a. ucast a) 12 10 5 (12 + of_nat 4) = ucast (10 + of_nat 4 :: uint)"
  using memmove_overlap [of 12 5 10 "\<lambda>a. ucast a", THEN conjunct1, rule_format, of 4] by simp

text \<open>\<^verbatim>\<open>memset(dst, c, n)\<close> fills exactly the \<open>n\<close> bytes at \<open>dst\<close> with the low byte
  of \<open>c\<close>, whether it runs word by word (aligned destination and size) or byte by byte.\<close>

theorem memset_fills:
  assumes "unat dst + n < 2 ^ 32"
  shows "memset m dst c n a = (if dst \<le> a \<and> unat a < unat dst + n then ucast c else m a)"
  using assms by (simp add: memset_stosb stosb_spec)

theorem memset_fills_witness: "memset (\<lambda>_. 0) 4096 1 4096 5000 = 1"
  using memset_fills [of 4096 4096 "\<lambda>_. 0" 1 5000] by (simp add: word_le_nat_alt)

end
