(* ===== verification/Kalloc.thy ===== *)
theory Kalloc
  imports Proc Strings
begin

text \<open>
  \<^verbatim>\<open>kalloc.c\<close>: the allocator of physical pages.  The free list lives in the free pages
  themselves: the first word of a free page (\<^verbatim>\<open>struct run\<close>) is the address of the next one, so
  the model keeps it in the memory as the code does.  The end of the kernel image, a symbol of the
  linker script, is the parameter \<open>kend\<close>.
\<close>

section \<open>The routines\<close>

definition set_km :: "(kmem \<Rightarrow> kmem) \<Rightarrow> unit kop" where
  "set_km f = modify (\<lambda>k. k\<lparr>km := f (km k)\<rparr>)"

definition set_mem :: "(memory \<Rightarrow> memory) \<Rightarrow> unit kop" where
  "set_mem f = modify (\<lambda>k. k\<lparr>mem := f (mem k)\<rparr>)"

definition if_use_lock :: "unit kop \<Rightarrow> unit kop" where
  "if_use_lock f = bind (gets (\<lambda>k. use_lock (km k))) (\<lambda>b. do_if b f)"

definition kfree :: "uint \<Rightarrow> uint \<Rightarrow> unit kop" where
  "kfree kend v =
     (if v mod PGSIZE \<noteq> 0 \<or> v < kend \<or> V2P v \<ge> PHYSTOP then panic ''kfree''
      else block
        [set_mem (\<lambda>m. memset m v 1 4096),
         if_use_lock (acquire L_kmem),
         modify (\<lambda>k. k\<lparr>mem := put32 (mem k) v (freelist (km k))\<rparr>),
         set_km (\<lambda>x. x\<lparr>freelist := v\<rparr>),
         if_use_lock (release L_kmem)])"

definition kalloc :: "uint kop" where
  "kalloc =
     seq (if_use_lock (acquire L_kmem))
     (bind (gets (\<lambda>k. freelist (km k))) (\<lambda>r.
      seq (do_if (r \<noteq> 0) (modify (\<lambda>k. k\<lparr>km := km k\<lparr>freelist := get32 (mem k) r\<rparr>\<rparr>)))
      (seq (if_use_lock (release L_kmem)) (ret r))))"

definition PGROUNDUP :: "uint \<Rightarrow> uint" where
  "PGROUNDUP sz = (sz + PGSIZE - 1) AND NOT (PGSIZE - 1)"

definition PGROUNDDOWN :: "uint \<Rightarrow> uint" where
  "PGROUNDDOWN a = a AND NOT (PGSIZE - 1)"

text \<open>A pointer past the end of the address space has no meaning in C.\<close>

function freerange_loop :: "uint \<Rightarrow> uint \<Rightarrow> uint \<Rightarrow> unit kop" where
  "freerange_loop kend p vend =
     (if p + PGSIZE < p then undef ''pointer overflow''
      else if p + PGSIZE \<le> vend then seq (kfree kend p) (freerange_loop kend (p + PGSIZE) vend)
      else ret ())"
  by pat_completeness auto
termination
proof (relation "measure (\<lambda>(kend, p, vend). unat vend - unat p)")
  fix kend p vend :: uint
  assume "\<not> p + PGSIZE < p" and *: "p + PGSIZE \<le> vend"
  moreover have "p + PGSIZE \<noteq> p" by simp
  ultimately have "p < p + PGSIZE" by (metis not_less_iff_gr_or_eq)
  with * show "((kend, p + PGSIZE, vend), kend, p, vend) \<in> measure (\<lambda>(kend, p, vend). unat vend - unat p)"
    by (simp add: word_less_nat_alt word_le_nat_alt)
qed simp

declare freerange_loop.simps [simp del]

definition freerange :: "uint \<Rightarrow> uint \<Rightarrow> uint \<Rightarrow> unit kop" where
  "freerange kend vstart vend = freerange_loop kend (PGROUNDUP vstart) vend"

definition kinit1 :: "uint \<Rightarrow> uint \<Rightarrow> uint \<Rightarrow> unit kop" where
  "kinit1 kend vstart vend = block
     [initlock L_kmem ''kmem'', set_km (\<lambda>x. x\<lparr>use_lock := False\<rparr>), freerange kend vstart vend]"

definition kinit2 :: "uint \<Rightarrow> uint \<Rightarrow> uint \<Rightarrow> unit kop" where
  "kinit2 kend vstart vend = block [freerange kend vstart vend, set_km (\<lambda>x. x\<lparr>use_lock := True\<rparr>)]"

lemma set_km_apply [simp, op_simps]: "set_km f k = Ok () (k\<lparr>km := f (km k)\<rparr>)"
  by (simp add: set_km_def)

lemma set_mem_apply [simp, op_simps]: "set_mem f k = Ok () (k\<lparr>mem := f (mem k)\<rparr>)"
  by (simp add: set_mem_def)

section \<open>The free list\<close>

fun chain :: "memory \<Rightarrow> uint \<Rightarrow> uint list \<Rightarrow> bool" where
  "chain m r [] \<longleftrightarrow> r = 0"
| "chain m r (p # ps) \<longleftrightarrow> r = p \<and> p \<noteq> 0 \<and> chain m (get32 m p) ps"

definition page_ok :: "uint \<Rightarrow> uint \<Rightarrow> bool" where
  "page_ok kend p \<longleftrightarrow> p mod PGSIZE = 0 \<and> kend \<le> p \<and> V2P p < PHYSTOP"

definition kmem_ok :: "uint \<Rightarrow> uint list \<Rightarrow> kernel \<Rightarrow> bool" where
  "kmem_ok kend ps k \<longleftrightarrow> ready (mach k) \<and> lock_free L_kmem (mach k) \<and>
     chain (mem k) (freelist (km k)) ps \<and> distinct ps \<and> (\<forall>p \<in> set ps. page_ok kend p)"

lemma chain_unique: "chain m r ps \<Longrightarrow> chain m r qs \<Longrightarrow> ps = qs"
proof (induction ps arbitrary: r qs)
  case Nil
  then show ?case by (cases qs) auto
next
  case (Cons p ps)
  then show ?case by (cases qs) auto
qed

definition page :: "uint \<Rightarrow> uint set" where
  "page p = {a. p \<le> a \<and> unat a < unat p + 4096}"

lemma page_ok_bound:
  assumes "page_ok kend p"
  shows "unat p + 4096 < 2 ^ 32" and "unat p mod 4096 = 0" and "0 < unat p" and "p \<noteq> 0"
proof -
  have v: "V2P p < PHYSTOP" and al: "p mod PGSIZE = 0" using assms by (simp_all add: page_ok_def)
  have "unat (V2P p) = (if 0x80000000 \<le> unat p then unat p - 0x80000000 else unat p + 2 ^ 32 - 0x80000000)"
    unfolding V2P_def by (simp add: unat_sub_if_size word_size)
  moreover have "unat (V2P p) < 0xE000000" using v by (simp add: word_less_nat_alt)
  ultimately show "unat p + 4096 < 2 ^ 32" "0 < unat p" by (simp_all split: if_splits)
  then show "p \<noteq> 0" by auto
  show "unat p mod 4096 = 0" using arg_cong [OF al, of unat] by (simp add: unat_mod)
qed

lemma page_disjoint:
  assumes "page_ok kend p" and "page_ok kend q" and "p \<noteq> q"
  shows "page p \<inter> page q = {}"
proof -
  obtain a b where ab: "unat p = 4096 * a" "unat q = 4096 * b"
    using page_ok_bound(2) [OF assms(1)] page_ok_bound(2) [OF assms(2)] by (auto elim!: dvdE simp: mod_eq_0_iff_dvd)
  then have "a \<noteq> b" using assms(3) by (auto simp: word_unat_eq_iff)
  then consider "a + 1 \<le> b" | "b + 1 \<le> a" by linarith
  then show ?thesis by cases (auto simp: page_def word_le_nat_alt ab)
qed

lemma page_word:
  assumes "page_ok kend p"
  shows "{p, p + 1, p + 2, p + 3} \<subseteq> page p"
proof -
  have "p + of_nat i \<in> page p" if "i < 4" for i
    using that page_ok_bound(1) [OF assms] off_le [of p i] by (simp add: page_def unat_plus_nat)
  from this [of 0] this [of 1] this [of 2] this [of 3] show ?thesis by simp
qed

lemma chain_frame:
  assumes "\<forall>p \<in> set ps. page_ok kend p" and "\<And>p a. p \<in> set ps \<Longrightarrow> a \<in> page p \<Longrightarrow> m' a = m a"
  shows "chain m' r ps = chain m r ps"
  using assms
proof (induction ps arbitrary: r)
  case (Cons p ps)
  have "get32 m' p = get32 m p"
    using page_word [of kend p] Cons.prems(2) [of p] Cons.prems(1) by (intro get32_cong) auto
  moreover have "chain m' x ps = chain m x ps" for x
    using Cons.prems by (intro Cons.IH) auto
  ultimately show ?case by simp
qed simp

section \<open>The routines on a well-formed list\<close>

definition kl_m :: "kernel \<Rightarrow> machine" where
  "kl_m k = (if use_lock (km k) then sync_m (mach k) else mach k)"

lemma ready_kl_m [simp]: "ready (kl_m k) = ready (mach k)" "lock_free l (kl_m k) = lock_free l (mach k)"
  "locks (kl_m k) = locks (mach k)"
  by (simp_all add: kl_m_def)

lemma kfree_ok:
  assumes "ready (mach k)" and "lock_free L_kmem (mach k)" and "page_ok kend v"
  shows "kfree kend v k = Ok () (k\<lparr>mem := put32 (memset (mem k) v 1 4096) v (freelist (km k)),
     km := km k\<lparr>freelist := v\<rparr>, mach := kl_m k\<rparr>)"
  using assms by (auto simp: kfree_def page_ok_def if_use_lock_def lock_simps kl_m_def not_le not_less)

lemma kfree_panics: "\<not> page_ok kend v \<Longrightarrow> kfree kend v k = Fault (Panic ''kfree'')"
  by (auto simp: kfree_def page_ok_def not_le not_less)

lemma kalloc_ok:
  assumes "ready (mach k)" and "lock_free L_kmem (mach k)"
  shows "kalloc k = Ok (freelist (km k)) (k\<lparr>mach := kl_m k,
     km := (if freelist (km k) = 0 then km k else km k\<lparr>freelist := get32 (mem k) (freelist (km k))\<rparr>)\<rparr>)"
  using assms by (auto simp: kalloc_def if_use_lock_def lock_simps kl_m_def)

lemma kmem_ok_kfree:
  assumes "kmem_ok kend ps k" and "page_ok kend v" and "v \<notin> set ps"
  shows "\<exists>k'. kfree kend v k = Ok () k' \<and> kmem_ok kend (v # ps) k' \<and> (\<forall>a. a \<notin> page v \<longrightarrow> mem k' a = mem k a)"
proof -
  let ?m = "put32 (memset (mem k) v 1 4096) v (freelist (km k))"
  have frame: "?m a = mem k a" if "a \<notin> page v" for a
    using that page_word [OF assms(2)] page_ok_bound(1) [OF assms(2)]
    by (subst put32_frame) (auto simp: page_def memset_stosb stosb_spec)
  have "\<forall>p \<in> set ps. page_ok kend p" using assms(1) by (simp add: kmem_ok_def)
  then have "chain ?m (freelist (km k)) ps = chain (mem k) (freelist (km k)) ps"
    using page_disjoint [OF _ assms(2)] assms(3) by (intro chain_frame [of _ kend]) (auto intro!: frame)
  with kfree_ok [OF _ _ assms(2), of k] frame assms page_ok_bound(4) [OF assms(2)] show ?thesis
    by (auto simp: kmem_ok_def)
qed

lemma kmem_ok_kalloc:
  assumes "kmem_ok kend ps k"
  shows "\<exists>k'. kalloc k = Ok (case ps of [] \<Rightarrow> 0 | p # _ \<Rightarrow> p) k' \<and> kmem_ok kend (tl ps) k' \<and> mem k' = mem k"
proof (cases ps)
  case Nil
  with assms kalloc_ok [of k] show ?thesis by (auto simp: kmem_ok_def)
next
  case (Cons p qs)
  with assms kalloc_ok [of k] show ?thesis by (auto simp: kmem_ok_def)
qed

section \<open>The contract of the allocator\<close>

text \<open>
  What the rest of the kernel relies on: an allocated page is one of the available ones and is not
  available afterwards, allocation fails (with a null pointer) only when none is available, and a
  freed page is available again.
\<close>

locale page_pool =
  fixes ok :: "kernel \<Rightarrow> bool" and avail :: "kernel \<Rightarrow> uint set"
    and alloc :: "uint kop" and free :: "uint \<Rightarrow> unit kop" and valid :: "uint \<Rightarrow> bool"
  assumes avail: "ok k \<Longrightarrow> finite (avail k) \<and> 0 \<notin> avail k"
    and alloc: "ok k \<Longrightarrow> \<exists>p k'. alloc k = Ok p k' \<and> ok k' \<and> avail k' = avail k - {p} \<and>
      (if avail k = {} then p = 0 else p \<in> avail k)"
    and free: "ok k \<Longrightarrow> valid p \<Longrightarrow> p \<notin> avail k \<Longrightarrow>
      \<exists>k'. free p k = Ok () k' \<and> ok k' \<and> avail k' = insert p (avail k)"
begin

lemma alloc_many:
  assumes "ok k" and "n \<le> card (avail k)"
  shows "\<exists>ps k'. collect n alloc k = Ok ps k' \<and> ok k' \<and> length ps = n \<and> distinct ps \<and>
    set ps \<subseteq> avail k \<and> avail k' = avail k - set ps"
  using assms
proof (induction n arbitrary: k)
  case (Suc n)
  from Suc.prems have ne: "avail k \<noteq> {}" by auto
  from alloc [OF Suc.prems(1)] ne obtain p k1 where
    p: "alloc k = Ok p k1" "ok k1" "avail k1 = avail k - {p}" "p \<in> avail k" by auto
  then have "n \<le> card (avail k1)" using Suc.prems avail [OF Suc.prems(1)] by simp
  from Suc.IH [OF p(2) this] obtain ps k2 where "collect n alloc k1 = Ok ps k2" "ok k2" "length ps = n"
    "distinct ps" "set ps \<subseteq> avail k1" "avail k2 = avail k1 - set ps" by blast
  with p show ?case by auto
qed simp

lemma alloc_exhausts:
  assumes "ok k"
  shows "\<exists>ps k1 k2. collect (card (avail k)) alloc k = Ok ps k1 \<and> alloc k1 = Ok 0 k2"
proof -
  from alloc_many [OF assms order.refl] obtain ps k1 where
    p: "collect (card (avail k)) alloc k = Ok ps k1" "ok k1" "length ps = card (avail k)" "distinct ps"
    "set ps \<subseteq> avail k" "avail k1 = avail k - set ps" by blast
  then have "set ps = avail k" using avail [OF assms] by (intro card_subset_eq) (simp_all add: distinct_card)
  with p alloc [OF p(2)] show ?thesis by auto
qed

end

definition free_pages :: "kernel \<Rightarrow> uint set" where
  "free_pages k = {p. \<exists>ps. chain (mem k) (freelist (km k)) ps \<and> p \<in> set ps}"

lemma free_pages_eq: "kmem_ok kend ps k \<Longrightarrow> free_pages k = set ps"
  by (auto simp: free_pages_def kmem_ok_def dest: chain_unique)

interpretation pool: page_pool "\<lambda>k. \<exists>ps. kmem_ok kend ps k" free_pages kalloc "kfree kend" "page_ok kend" for kend
proof (unfold_locales, goal_cases)
  case (1 k)
  then obtain ps where ps: "kmem_ok kend ps k" by blast
  then have "0 \<notin> set ps" using page_ok_bound(4) by (auto simp: kmem_ok_def)
  with ps show ?case by (simp add: free_pages_eq [OF ps])
next
  case (2 k)
  then obtain ps where ps: "kmem_ok kend ps k" by blast
  from kmem_ok_kalloc [OF ps] obtain k' where
    k': "kalloc k = Ok (case ps of [] \<Rightarrow> 0 | p # _ \<Rightarrow> p) k'" "kmem_ok kend (tl ps) k'" by blast
  let ?p = "case ps of [] \<Rightarrow> 0 | p # _ \<Rightarrow> p"
  have "free_pages k' = free_pages k - {?p} \<and> (if free_pages k = {} then ?p = 0 else ?p \<in> free_pages k)"
    unfolding free_pages_eq [OF ps] free_pages_eq [OF k'(2)] using ps by (cases ps) (auto simp: kmem_ok_def)
  with k' show ?case by blast
next
  case (3 k p)
  then obtain ps where ps: "kmem_ok kend ps k" by blast
  with 3 have "p \<notin> set ps" by (simp add: free_pages_eq)
  from kmem_ok_kfree [OF ps 3(2) this] obtain k' where
    k': "kfree kend p k = Ok () k'" "kmem_ok kend (p # ps) k'" by blast
  then show ?case unfolding free_pages_eq [OF ps] using free_pages_eq [OF k'(2)] by auto
qed

section \<open>Properties\<close>



text \<open>The list after \<^verbatim>\<open>freerange()\<close>: the pages from \<open>p\<close> up to \<open>vend\<close>.\<close>

lemma freerange_loop_ok:
  assumes "kmem_ok kend ps k" and "p mod PGSIZE = 0" and "kend \<le> p" and "KERNBASE \<le> p"
    and "unat vend \<le> 0x8E000000" and "unat p \<le> 0x8E000000" and "\<And>q. q \<in> set ps \<Longrightarrow> q < p"
  shows "\<exists>qs k'. freerange_loop kend p vend k = Ok () k' \<and> kmem_ok kend qs k' \<and>
    set qs = set ps \<union> {q. q mod PGSIZE = 0 \<and> p \<le> q \<and> unat q + 4096 \<le> unat vend}"
  using assms
proof (induction kend p vend arbitrary: k ps rule: freerange_loop.induct)
  case (1 kend p vend)
  have unat_p: "unat p mod 4096 = 0" using arg_cong [OF 1(3), of unat] by (simp add: unat_mod)
  show ?case
  proof (cases "unat p + 4096 \<le> unat vend")
    case True
    then have up: "unat (p + PGSIZE) = unat p + 4096" using unat_plus_nat [of p 4096] 1(6) by simp
    then have c: "\<not> p + PGSIZE < p" "p + PGSIZE \<le> vend" using True by (simp_all add: word_less_nat_alt word_le_nat_alt)
    have "unat (V2P p) = unat p - 0x80000000" using 1(5) by (simp add: V2P_def unat_sub)
    then have "page_ok kend p" using 1(3,4,6) True by (simp add: page_ok_def word_less_nat_alt)
    moreover have "p \<notin> set ps" using 1(8) by auto
    ultimately obtain k1 where k1: "kfree kend p k = Ok () k1" "kmem_ok kend (p # ps) k1"
      using kmem_ok_kfree [OF 1(2)] by blast
    have al: "(p + PGSIZE) mod PGSIZE = 0" using unat_p by (simp add: word_unat_eq_iff unat_mod up)
    have "\<exists>qs k'. freerange_loop kend (p + PGSIZE) vend k1 = Ok () k' \<and> kmem_ok kend qs k' \<and>
        set qs = set (p # ps) \<union> {q. q mod PGSIZE = 0 \<and> p + PGSIZE \<le> q \<and> unat q + 4096 \<le> unat vend}"
      using 1(4,5,6) True k1(2) al up by (intro 1(1) [OF c]) (auto simp: word_less_nat_alt word_le_nat_alt dest!: 1(8))
    moreover have *: "q = p \<or> p + PGSIZE \<le> q \<longleftrightarrow> p \<le> q" if "q mod PGSIZE = 0" for q
    proof -
      have "unat q mod 4096 = 0" using arg_cong [OF that, of unat] by (simp add: unat_mod)
      then obtain a b where "unat q = 4096 * a" "unat p = 4096 * b" using unat_p by (auto elim!: dvdE simp: mod_eq_0_iff_dvd)
      then show ?thesis using up by (auto simp: word_le_nat_alt word_unat_eq_iff)
    qed
    have "{q. q mod PGSIZE = 0 \<and> p \<le> q \<and> unat q + 4096 \<le> unat vend} =
        insert p {q. q mod PGSIZE = 0 \<and> p + PGSIZE \<le> q \<and> unat q + 4096 \<le> unat vend}"
    proof (rule set_eqI)
      fix q
      show "q \<in> {q. q mod PGSIZE = 0 \<and> p \<le> q \<and> unat q + 4096 \<le> unat vend} \<longleftrightarrow>
        q \<in> insert p {q. q mod PGSIZE = 0 \<and> p + PGSIZE \<le> q \<and> unat q + 4096 \<le> unat vend}"
        using True 1(3) * [of q] by (cases "q = p"; cases "q mod PGSIZE = 0") simp_all
    qed
    ultimately show ?thesis using k1(1) c by (subst freerange_loop.simps) auto
  next
    case False
    moreover have up: "unat (p + PGSIZE) = unat p + 4096" using unat_plus_nat [of p 4096] 1(7) by simp
    ultimately have "freerange_loop kend p vend k = Ok () k"
      by (subst freerange_loop.simps) (simp add: word_less_nat_alt word_le_nat_alt)
    moreover have "{q. q mod PGSIZE = 0 \<and> p \<le> q \<and> unat q + 4096 \<le> unat vend} = {}"
      using False by (auto simp: word_le_nat_alt)
    ultimately show ?thesis using 1(2) by (simp only: Un_empty_right) blast
  qed
qed

lemma PGROUNDUP_aligned: "PGROUNDUP a mod PGSIZE = 0"
proof -
  have "take_bit 12 (x AND NOT (mask 12) :: uint) = 0" for x
    by (rule bit_word_eqI) (auto simp: bit_simps)
  from this [of "a + PGSIZE - 1"] show ?thesis
    by (simp add: PGROUNDUP_def take_bit_eq_mod mask_eq_exp_minus_1)
qed

text \<open>\<^verbatim>\<open>freerange(vstart, vend)\<close> adds to the free list exactly the page-aligned pages that lie
  wholly between \<open>vstart\<close>, rounded up, and \<open>vend\<close>, for a range above the kernel image and
  below the end of physical memory.\<close>

theorem freerange_pages:
  assumes "kmem_ok kend ps k" and "kend \<le> PGROUNDUP vstart" and "KERNBASE \<le> PGROUNDUP vstart"
    and "unat vend \<le> 0x8E000000" and "unat (PGROUNDUP vstart) \<le> 0x8E000000"
    and "\<And>q. q \<in> set ps \<Longrightarrow> q < PGROUNDUP vstart"
  shows "\<exists>qs k'. freerange kend vstart vend k = Ok () k' \<and> kmem_ok kend qs k' \<and>
     set qs = set ps \<union> {q. q mod PGSIZE = 0 \<and> PGROUNDUP vstart \<le> q \<and> unat q + 4096 \<le> unat vend}"
  unfolding freerange_def
  by (rule freerange_loop_ok [OF assms(1) PGROUNDUP_aligned assms(2-5)]) (rule assms(6))

lemma kernel0_kmem_ok: "kmem_ok kend [] kernel0"
  by (simp add: kmem_ok_def cold_defs ready_def here_def lock_free_def)

theorem freerange_pages_witness:
  "\<exists>qs k'. freerange 0x80100000 0x80100000 0x80101000 kernel0 = Ok () k' \<and> 0x80100000 \<in> set qs \<and> kmem_ok 0x80100000 qs k'"
proof -
  have e: "PGROUNDUP 0x80100000 = 0x80100000" by (simp add: PGROUNDUP_def)
  from freerange_pages [OF kernel0_kmem_ok [where kend = "0x80100000"], where vstart = "0x80100000" and vend = "0x80101000"] obtain qs k' where
    "freerange 0x80100000 0x80100000 0x80101000 kernel0 = Ok () k'" "kmem_ok 0x80100000 qs k'"
    "set qs = {q. q mod PGSIZE = 0 \<and> PGROUNDUP 0x80100000 \<le> q \<and> unat q + 4096 \<le> unat (0x80101000 :: uint)}"
    unfolding e by auto
  moreover from this(3) have "0x80100000 \<in> set qs" unfolding e by simp
  ultimately show ?thesis by blast
qed



end
