(* ===== verification/Fsrun.thy ===== *)
theory Fsrun
  imports Sleeplock Kalloc
begin

text \<open>
  How a file-system routine runs in a process that is alone in the file system: no spinlock is held,
  interrupts and the process table are in the state every system call finds, and only the
  file-system part of the kernel matters.  \<open>fs_run pid f s x s'\<close> says that \<open>f\<close>, run by the
  process \<open>pid\<close> in such a kernel with file-system part \<open>s\<close>, returns \<open>x\<close> with
  file-system part \<open>s'\<close>.  It neither panics, nor switches away, nor spins.
\<close>

section \<open>The file-system part of a kernel\<close>

definition fsv :: "kernel \<Rightarrow> kernel" where
  "fsv k = k\<lparr>mach := machine0, pt := ptable0\<rparr>"

definition quiet :: "kernel \<Rightarrow> bool" where
  "quiet k \<longleftrightarrow> ready (mach k) \<and> c_ncli (this_cpu (mach k)) = 0 \<and> (\<forall>l. lock_free l (mach k)) \<and>
     (\<exists>i. cur k = Some i \<and> i < length (procs (pt k)))"

definition mypid :: "kernel \<Rightarrow> int" where
  "mypid k = p_pid (proc_at k (the (cur k)))"

definition fs_run :: "int \<Rightarrow> 'a kop \<Rightarrow> kernel \<Rightarrow> 'a \<Rightarrow> kernel \<Rightarrow> bool" where
  "fs_run pid f s x s' \<longleftrightarrow>
     (\<forall>k. quiet k \<longrightarrow> mypid k = pid \<longrightarrow> fsv k = s \<longrightarrow>
        (\<exists>k'. f k = Ok x k' \<and> quiet k' \<and> mypid k' = pid \<and> fsv k' = s'))"

lemma fsv_simps [simp]:
  "sleeplocks (fsv k) = sleeplocks k" "ticks (fsv k) = ticks k" "mem (fsv k) = mem k" "km (fsv k) = km k"
  "kpgdir (fsv k) = kpgdir k" "disk (fsv k) = disk k" "bufs (fsv k) = bufs k" "log (fsv k) = log k"
  "sb (fsv k) = sb k" "icache (fsv k) = icache k" "ftable (fsv k) = ftable k" "pipes (fsv k) = pipes k"
  "fsv (k\<lparr>mach := m\<rparr>) = fsv k" "fsv (k\<lparr>pt := t\<rparr>) = fsv k" "fsv (fsv k) = fsv k"
  by (simp_all add: fsv_def)

lemma fsv_updates [simp]:
  "fsv (k\<lparr>sleeplocks := a\<rparr>) = (fsv k)\<lparr>sleeplocks := a\<rparr>" "fsv (k\<lparr>disk := b\<rparr>) = (fsv k)\<lparr>disk := b\<rparr>"
  "fsv (k\<lparr>bufs := c\<rparr>) = (fsv k)\<lparr>bufs := c\<rparr>" "fsv (k\<lparr>log := d\<rparr>) = (fsv k)\<lparr>log := d\<rparr>"
  "fsv (k\<lparr>sb := e\<rparr>) = (fsv k)\<lparr>sb := e\<rparr>" "fsv (k\<lparr>icache := f\<rparr>) = (fsv k)\<lparr>icache := f\<rparr>"
  "fsv (k\<lparr>ftable := g\<rparr>) = (fsv k)\<lparr>ftable := g\<rparr>" "fsv (k\<lparr>mem := h\<rparr>) = (fsv k)\<lparr>mem := h\<rparr>"
  by (simp_all add: fsv_def)

lemma fs_runI:
  assumes "\<And>k. quiet k \<Longrightarrow> mypid k = pid \<Longrightarrow> fsv k = s \<Longrightarrow>
    \<exists>k'. f k = Ok x k' \<and> quiet k' \<and> mypid k' = pid \<and> fsv k' = s'"
  shows "fs_run pid f s x s'"
  using assms by (simp add: fs_run_def)

lemma fs_runD:
  assumes "fs_run pid f s x s'" and "quiet k" and "mypid k = pid" and "fsv k = s"
  obtains k' where "f k = Ok x k'" and "quiet k'" and "mypid k' = pid" and "fsv k' = s'"
  using assms unfolding fs_run_def by blast

lemma fs_run_ret [intro]: "fs_run pid (ret x) s x s"
  by (simp add: fs_run_def)

lemma fs_run_bind:
  assumes "fs_run pid f s x s1" and "fs_run pid (g x) s1 y s2"
  shows "fs_run pid (bind f g) s y s2"
proof (rule fs_runI)
  fix k assume "quiet k" "mypid k = pid" "fsv k = s"
  with assms(1) obtain k1 where "f k = Ok x k1" "quiet k1" "mypid k1 = pid" "fsv k1 = s1" by (rule fs_runD)
  moreover from this(2-) assms(2) obtain k2 where "g x k1 = Ok y k2" "quiet k2" "mypid k2 = pid" "fsv k2 = s2"
    by (elim fs_runD)
  ultimately show "\<exists>k'. bind f g k = Ok y k' \<and> quiet k' \<and> mypid k' = pid \<and> fsv k' = s2" by simp
qed

lemma fs_run_seq:
  assumes "fs_run pid f s x s1" and "fs_run pid g s1 y s2"
  shows "fs_run pid (seq f g) s y s2"
  using fs_run_bind [OF assms(1), of "\<lambda>_. g"] assms(2) by (simp add: fs_run_def seq_def)

lemma fs_run_block_Nil: "fs_run pid (block []) s () s"
  by (simp add: fs_run_def)

lemma fs_run_block_Cons:
  assumes "fs_run pid f s () s1" and "fs_run pid (block fs) s1 () s2"
  shows "fs_run pid (block (f # fs)) s () s2"
  using fs_run_seq [OF assms] by simp

lemma fs_run_gets: "(\<And>k. h (fsv k) = h k) \<Longrightarrow> fs_run pid (gets h) s (h s) s"
  by (auto simp: fs_run_def)

lemma fs_run_modify:
  assumes "\<And>k. fsv (g k) = g (fsv k) \<and> mach (g k) = mach k \<and> pt (g k) = pt k"
  shows "fs_run pid (modify g) s () (g s)"
  using assms by (auto simp: fs_run_def quiet_def mypid_def)

lemma fs_run_det:
  assumes "fs_run pid f s x s1" and "fs_run pid f s y s2" and "\<exists>k. quiet k \<and> mypid k = pid \<and> fsv k = s"
  shows "x = y \<and> s1 = s2"
  using assms unfolding fs_run_def by fastforce

section \<open>Critical sections of the file system\<close>

text \<open>A body that depends on and changes only the file-system part.\<close>

locale fs_frame =
  fixes body :: "'a kop"
  assumes fs_frame: "body (k\<lparr>mach := m, pt := t\<rparr>) = on_state (\<lambda>k. k\<lparr>mach := m, pt := t\<rparr>) (body k)"
begin

lemma fs_body: "body (fsv k) = on_state fsv (body k)"
  by (simp add: fsv_def [abs_def] fs_frame)

lemma mach_pt:
  assumes "body k = Ok x k'"
  shows "mach k' = mach k \<and> pt k' = pt k"
proof -
  have "body k = on_state (\<lambda>k'. k'\<lparr>mach := mach k, pt := pt k\<rparr>) (body k)"
    using fs_frame [where k = k and m = "mach k" and t = "pt k"] by simp
  with assms have "k' = k'\<lparr>mach := mach k, pt := pt k\<rparr>" by simp
  then show ?thesis by (metis kernel.select_convs(1) kernel.select_convs(3) kernel.surjective kernel.update_convs(1,3))
qed

lemma on_fsv:
  assumes "fsv k = s" and "body s = Ok x s'"
  shows "\<exists>k'. body k = Ok x k' \<and> fsv k' = s'"
  using fs_body [of k] assms by (cases "body k") auto

lemma fs_run_plain:
  assumes "body s = Ok x s'"
  shows "fs_run pid body s x s'"
proof (rule fs_runI)
  fix k assume k: "quiet k" "mypid k = pid" "fsv k = s"
  from on_fsv [OF k(3) assms] obtain k' where "body k = Ok x k'" "fsv k' = s'" by blast
  with mach_pt k show "\<exists>k'. body k = Ok x k' \<and> quiet k' \<and> mypid k' = pid \<and> fsv k' = s'"
    by (auto simp: quiet_def mypid_def)
qed

end

sublocale fs_frame \<subseteq> mach_frame body
proof
  fix k :: kernel and m
  have "body (k\<lparr>mach := m\<rparr>) = on_state (\<lambda>k'. k'\<lparr>mach := m, pt := pt k\<rparr>) (body k)"
    using fs_frame [where k = k and m = m and t = "pt k"] by simp
  also have "\<dots> = on_state (\<lambda>k'. k'\<lparr>mach := m\<rparr>) (body k)"
  proof (cases "body k")
    case (Ok x k')
    from mach_pt [OF Ok] show ?thesis using Ok by simp
  next
    case (Swtch k')
    have "body k = on_state (\<lambda>k'. k'\<lparr>mach := mach k, pt := pt k\<rparr>) (body k)"
      using fs_frame [where k = k and m = "mach k" and t = "pt k"] by simp
    with Swtch have "pt k' = pt k" by (metis kernel.select_convs(3) kernel.surjective kernel.update_convs(1,3) on_state.simps(3) res.inject(3))
    with Swtch show ?thesis by simp
  qed simp
  finally show "body (k\<lparr>mach := m\<rparr>) = on_state (\<lambda>k'. k'\<lparr>mach := m\<rparr>) (body k)" .
qed

context fs_frame
begin

lemma fs_run_locked:
  assumes "body s = Ok x s'"
  shows "fs_run pid (with_lock l body) s x s'"
proof (rule fs_runI)
  fix k assume k: "quiet k" "mypid k = pid" "fsv k = s"
  from on_fsv [OF k(3) assms] obtain k' where k': "body k = Ok x k'" "fsv k' = s'" by blast
  have "with_lock l body k = Ok x (k'\<lparr>mach := sync_m (mach k)\<rparr>)"
    using k(1) k'(1) by (intro run) (simp_all add: quiet_def)
  with mach_pt [OF k'(1)] k k' show "\<exists>k'. with_lock l body k = Ok x k' \<and> quiet k' \<and> mypid k' = pid \<and> fsv k' = s'"
    by (auto simp: quiet_def mypid_def)
qed

end

text \<open>Routines built from such bodies are such bodies.\<close>

lemma fs_frame_bind: "fs_frame f \<Longrightarrow> (\<And>x. fs_frame (g x)) \<Longrightarrow> fs_frame (bind f g)"
  by (auto simp: fs_frame_def split: res.split)

lemma fs_frame_seq: "fs_frame f \<Longrightarrow> fs_frame g \<Longrightarrow> fs_frame (seq f g)"
  by (auto simp: fs_frame_def split: res.split)

lemma fs_frame_ret: "fs_frame (ret x)"
  by (simp add: fs_frame_def)

lemma fs_frame_block: "(\<And>f. f \<in> set fs \<Longrightarrow> fs_frame f) \<Longrightarrow> fs_frame (block fs)"
  by (induction fs) (auto intro: fs_frame_ret fs_frame_seq)

lemma fs_frame_do_if: "fs_frame f \<Longrightarrow> fs_frame (do_if b f)"
  by (auto simp: fs_frame_def)

lemma fs_frame_gets: "(\<And>k m t. h (k\<lparr>mach := m, pt := t\<rparr>) = h k) \<Longrightarrow> fs_frame (gets h)"
  by (simp add: fs_frame_def)

lemma fs_frame_modify: "(\<And>k m t. h (k\<lparr>mach := m, pt := t\<rparr>) = (h k)\<lparr>mach := m, pt := t\<rparr>) \<Longrightarrow> fs_frame (modify h)"
  by (simp add: fs_frame_def)

lemmas fs_frame_intros = fs_frame_bind fs_frame_seq fs_frame_ret fs_frame_do_if fs_frame_gets fs_frame_modify

section \<open>Sleep locks\<close>

lemma quiet_can_sleep: "quiet k \<Longrightarrow> can_sleep l k"
  by (simp add: quiet_def can_sleep_def)

lemma fs_run_acquiresleep:
  assumes "\<not> sl_locked (sleeplocks s l)"
  shows "fs_run pid (acquiresleep l) s ()
     (s\<lparr>sleeplocks := (sleeplocks s)(l := (sleeplocks s l)\<lparr>sl_locked := True, sl_pid := pid\<rparr>)\<rparr>)"
proof (rule fs_runI)
  fix k assume k: "quiet k" "mypid k = pid" "fsv k = s"
  then obtain i where i: "cur k = Some i" by (auto simp: quiet_def)
  have "\<not> sl_locked (sleeplocks k l)" using assms k(3) by auto
  from acquiresleep_ok [OF quiet_can_sleep [OF k(1)] i this]
  show "\<exists>k'. acquiresleep l k = Ok () k' \<and> quiet k' \<and> mypid k' = pid \<and>
     fsv k' = s\<lparr>sleeplocks := (sleeplocks s)(l := (sleeplocks s l)\<lparr>sl_locked := True, sl_pid := pid\<rparr>)\<rparr>"
    using k i by (auto simp: take_sl_def quiet_def mypid_def)
qed

lemma wake_proc_pid [simp]: "p_pid (wake_proc c p) = p_pid p"
  by (simp add: wake_proc_def)

lemma fs_run_releasesleep:
  "fs_run pid (releasesleep l) s ()
     (s\<lparr>sleeplocks := (sleeplocks s)(l := (sleeplocks s l)\<lparr>sl_locked := False, sl_pid := 0\<rparr>)\<rparr>)"
proof (rule fs_runI)
  fix k assume k: "quiet k" "mypid k = pid" "fsv k = s"
  then have "releasesleep l k = Ok () (drop_sl l k)" by (intro releasesleep_ok) (simp_all add: quiet_def)
  then show "\<exists>k'. releasesleep l k = Ok () k' \<and> quiet k' \<and> mypid k' = pid \<and>
     fsv k' = s\<lparr>sleeplocks := (sleeplocks s)(l := (sleeplocks s l)\<lparr>sl_locked := False, sl_pid := 0\<rparr>)\<rparr>"
    using k by (auto simp: drop_sl_def quiet_def mypid_def)
qed

lemma fs_run_holdingsleep:
  "fs_run pid (holdingsleep l) s (sl_locked (sleeplocks s l) \<and> sl_pid (sleeplocks s l) = pid) s"
proof (rule fs_runI)
  fix k assume k: "quiet k" "mypid k = pid" "fsv k = s"
  then obtain i where i: "cur k = Some i" by (auto simp: quiet_def)
  from holdingsleep_ok [OF quiet_can_sleep [OF k(1)] i]
  show "\<exists>k'. holdingsleep l k = Ok (sl_locked (sleeplocks s l) \<and> sl_pid (sleeplocks s l) = pid) k' \<and>
     quiet k' \<and> mypid k' = pid \<and> fsv k' = s"
    using k i by (auto simp: quiet_def mypid_def)
qed

end
