(* ===== verification/Bio.thy ===== *)
theory Bio
  imports Fsrun
begin

text \<open>
  \<^verbatim>\<open>bio.c\<close>, the buffer cache, on the disk driver of \<^verbatim>\<open>memide.c\<close>, whose disk is a list of
  blocks.  The buffers form a doubly linked list through \<^verbatim>\<open>prev\<close> and \<^verbatim>\<open>next\<close>, most
  recently used first; the model keeps the links as buffer numbers, with number \<open>NBUF\<close> for
  \<^verbatim>\<open>bcache.head\<close>.  A walk along the links that does not come back to the head would never end;
  it is given as many steps as there are list elements, and the list invariant shows that they are
  enough.
\<close>

section \<open>The driver\<close>

definition set_buf :: "nat \<Rightarrow> (buf \<Rightarrow> buf) \<Rightarrow> unit kop" where
  "set_buf b f = modify (\<lambda>k. k\<lparr>bufs := upd_at b f (bufs k)\<rparr>)"

lemma set_buf_apply [simp, op_simps]: "set_buf b f k = Ok () (k\<lparr>bufs := upd_at b f (bufs k)\<rparr>)"
  by (simp add: set_buf_def)

abbreviation buf_at :: "kernel \<Rightarrow> nat \<Rightarrow> buf" where
  "buf_at k b \<equiv> bufs k ! b"

text \<open>\<^verbatim>\<open>iderw()\<close> after its check of the lock.\<close>

definition iderw_body :: "nat \<Rightarrow> unit kop" where
  "iderw_body b =
     bind (gets (\<lambda>k. buf_at k b)) (\<lambda>x.
     if b_valid x \<and> \<not> b_dirty x then panic ''iderw: nothing to do''
     else if b_dev x \<noteq> 1 then panic ''iderw: request not for disk 1''
     else bind (gets (\<lambda>k. length (disk k))) (\<lambda>disksize.
       if disksize \<le> unat (b_blockno x) then panic ''iderw: block out of range''
       else seq
         (if b_dirty x then block
            [set_buf b (\<lambda>y. y\<lparr>b_dirty := False\<rparr>),
             modify (\<lambda>k. k\<lparr>disk := (disk k)[unat (b_blockno x) := b_data (buf_at k b)]\<rparr>)]
          else modify (\<lambda>k. k\<lparr>bufs := upd_at b (\<lambda>y. y\<lparr>b_data := disk k ! unat (b_blockno x)\<rparr>) (bufs k)\<rparr>))
         (set_buf b (\<lambda>y. y\<lparr>b_valid := True\<rparr>))))"

definition iderw :: "nat \<Rightarrow> unit kop" where
  "iderw b =
     bind (holdingsleep (SL_buf b)) (\<lambda>h.
     if \<not> h then panic ''iderw: buf not locked'' else iderw_body b)"

section \<open>The buffer cache\<close>

definition binit_link :: "nat \<Rightarrow> unit kop" where
  "binit_link b = block
     [bind (gets (\<lambda>k. b_next (buf_at k NBUF))) (\<lambda>n. set_buf b (\<lambda>y. y\<lparr>b_next := n\<rparr>)),
      set_buf b (\<lambda>y. y\<lparr>b_prev := NBUF\<rparr>),
      initsleeplock (SL_buf b) ''buffer'',
      bind (gets (\<lambda>k. b_next (buf_at k NBUF))) (\<lambda>n. set_buf n (\<lambda>y. y\<lparr>b_prev := b\<rparr>)),
      set_buf NBUF (\<lambda>y. y\<lparr>b_next := b\<rparr>)]"

definition binit :: "unit kop" where
  "binit = seq (block
     [initlock L_bcache ''bcache'',
      set_buf NBUF (\<lambda>y. y\<lparr>b_prev := NBUF\<rparr>),
      set_buf NBUF (\<lambda>y. y\<lparr>b_next := NBUF\<rparr>)])
     (for_each [0..<NBUF] binit_link)"

text \<open>
  A walk along the links from buffer \<open>b\<close> to the head: \<open>Some (Some b)\<close> for the first buffer
  that satisfies \<open>P\<close>, \<open>Some None\<close> at the head, \<open>None\<close> when the steps run out.
\<close>

fun walk :: "(buf \<Rightarrow> nat) \<Rightarrow> buf list \<Rightarrow> (buf \<Rightarrow> bool) \<Rightarrow> nat \<Rightarrow> nat \<Rightarrow> nat option option" where
  "walk nxt bs P 0 b = None"
| "walk nxt bs P (Suc n) b =
     (if b = NBUF then Some None else if P (bs ! b) then Some (Some b)
      else walk nxt bs P n (nxt (bs ! b)))"

definition bget_body :: "uint \<Rightarrow> uint \<Rightarrow> nat kop" where
  "bget_body dev blockno =
     bind (gets bufs) (\<lambda>bs.
     case walk b_next bs (\<lambda>x. b_dev x = dev \<and> b_blockno x = blockno) (NBUF + 1) (b_next (bs ! NBUF)) of
       None \<Rightarrow> spin
     | Some (Some b) \<Rightarrow> seq (set_buf b (\<lambda>y. y\<lparr>b_refcnt := b_refcnt y + 1\<rparr>)) (ret b)
     | Some None \<Rightarrow>
         (case walk b_prev bs (\<lambda>x. b_refcnt x = 0 \<and> \<not> b_dirty x) (NBUF + 1) (b_prev (bs ! NBUF)) of
            None \<Rightarrow> spin
          | Some (Some b) \<Rightarrow> seq (block
              [set_buf b (\<lambda>y. y\<lparr>b_dev := dev\<rparr>),
               set_buf b (\<lambda>y. y\<lparr>b_blockno := blockno\<rparr>),
               set_buf b (\<lambda>y. y\<lparr>b_valid := False, b_dirty := False\<rparr>),
               set_buf b (\<lambda>y. y\<lparr>b_refcnt := 1\<rparr>)]) (ret b)
          | Some None \<Rightarrow> panic ''bget: no buffers''))"

definition bget :: "uint \<Rightarrow> uint \<Rightarrow> nat kop" where
  "bget dev blockno =
     bind (with_lock L_bcache (bget_body dev blockno)) (\<lambda>b.
     seq (acquiresleep (SL_buf b)) (ret b))"

definition bread :: "uint \<Rightarrow> uint \<Rightarrow> nat kop" where
  "bread dev blockno =
     bind (bget dev blockno) (\<lambda>b.
     bind (gets (\<lambda>k. b_valid (buf_at k b))) (\<lambda>v.
     seq (do_if (\<not> v) (iderw b)) (ret b)))"

definition bwrite :: "nat \<Rightarrow> unit kop" where
  "bwrite b =
     bind (holdingsleep (SL_buf b)) (\<lambda>h.
     if \<not> h then panic ''bwrite''
     else block [set_buf b (\<lambda>y. y\<lparr>b_dirty := True\<rparr>), iderw b])"

text \<open>\<^verbatim>\<open>brelse()\<close> inside \<^verbatim>\<open>bcache.lock\<close>: drop the reference, and move the buffer to the front.\<close>

definition move_front :: "nat \<Rightarrow> unit kop" where
  "move_front b = block
     [modify (\<lambda>k. k\<lparr>bufs := upd_at (b_next (buf_at k b)) (\<lambda>y. y\<lparr>b_prev := b_prev (buf_at k b)\<rparr>) (bufs k)\<rparr>),
      modify (\<lambda>k. k\<lparr>bufs := upd_at (b_prev (buf_at k b)) (\<lambda>y. y\<lparr>b_next := b_next (buf_at k b)\<rparr>) (bufs k)\<rparr>),
      modify (\<lambda>k. k\<lparr>bufs := upd_at b (\<lambda>y. y\<lparr>b_next := b_next (buf_at k NBUF)\<rparr>) (bufs k)\<rparr>),
      set_buf b (\<lambda>y. y\<lparr>b_prev := NBUF\<rparr>),
      modify (\<lambda>k. k\<lparr>bufs := upd_at (b_next (buf_at k NBUF)) (\<lambda>y. y\<lparr>b_prev := b\<rparr>) (bufs k)\<rparr>),
      set_buf NBUF (\<lambda>y. y\<lparr>b_next := b\<rparr>)]"

definition brelse_body :: "nat \<Rightarrow> unit kop" where
  "brelse_body b =
     seq (set_buf b (\<lambda>y. y\<lparr>b_refcnt := b_refcnt y - 1\<rparr>))
     (bind (gets (\<lambda>k. b_refcnt (buf_at k b))) (\<lambda>r. do_if (r = 0) (move_front b)))"

definition brelse :: "nat \<Rightarrow> unit kop" where
  "brelse b =
     bind (holdingsleep (SL_buf b)) (\<lambda>h.
     if \<not> h then panic ''brelse''
     else block [releasesleep (SL_buf b), with_lock L_bcache (brelse_body b)])"

section \<open>The list\<close>

fun linked :: "buf list \<Rightarrow> nat list \<Rightarrow> bool" where
  "linked bs (a # b # zs) \<longleftrightarrow> b_next (bs ! a) = b \<and> b_prev (bs ! b) = a \<and> linked bs (b # zs)"
| "linked bs _ \<longleftrightarrow> True"

text \<open>\<open>dll bs xs\<close>: the links of \<open>bs\<close> form the list \<open>xs\<close> of all buffers.\<close>

definition dll :: "buf list \<Rightarrow> nat list \<Rightarrow> bool" where
  "dll bs xs \<longleftrightarrow> length bs = NBUF + 1 \<and> distinct xs \<and> set xs = {..<NBUF} \<and> linked bs (NBUF # xs @ [NBUF])"

lemma linked_append:
  "linked bs (xs @ a # ys) \<longleftrightarrow> linked bs (xs @ [a]) \<and> linked bs (a # ys)"
  by (induction bs xs rule: linked.induct) auto

lemma linked_snoc:
  "zs \<noteq> [] \<Longrightarrow> linked bs (zs @ [y]) \<longleftrightarrow> linked bs zs \<and> b_next (bs ! last zs) = y \<and> b_prev (bs ! y) = last zs"
  by (induction bs zs rule: linked.induct) auto

lemma linked_frame:
  assumes "linked bs zs" and "\<And>a. a \<in> set (butlast zs) \<Longrightarrow> b_next (bs' ! a) = b_next (bs ! a)"
    and "\<And>a. a \<in> set (tl zs) \<Longrightarrow> b_prev (bs' ! a) = b_prev (bs ! a)"
  shows "linked bs' zs"
  using assms by (induction bs zs rule: linked.induct) auto

lemma linked_join:
  "linked bs (xs @ [a]) \<Longrightarrow> linked bs (b # ys) \<Longrightarrow> b_next (bs ! a) = b \<Longrightarrow> b_prev (bs ! b) = a \<Longrightarrow>
   linked bs (xs @ a # b # ys)"
  by (subst linked_append) simp

text \<open>A walk from the head visits the list in order, in either direction.\<close>

lemma walk_next:
  assumes "linked bs (ys @ [NBUF])" and "NBUF \<notin> set ys" and "length ys < n"
  shows "walk b_next bs P n (hd (ys @ [NBUF])) = Some (find (\<lambda>b. P (bs ! b)) ys)"
  using assms
proof (induction ys arbitrary: n)
  case Nil
  then show ?case by (cases n) auto
next
  case (Cons y ys)
  then obtain m where n: "n = Suc m" by (cases n) auto
  have "b_next (bs ! y) = hd (ys @ [NBUF])" "linked bs (ys @ [NBUF])"
    using Cons.prems(1) by (cases ys; simp)+
  with Cons n show ?case by simp
qed

lemma walk_prev:
  assumes "linked bs (NBUF # ys)" and "NBUF \<notin> set ys" and "length ys < n"
  shows "walk b_prev bs P n (last (NBUF # ys)) = Some (find (\<lambda>b. P (bs ! b)) (rev ys))"
  using assms
proof (induction ys arbitrary: n rule: rev_induct)
  case Nil
  then show ?case by (cases n) auto
next
  case (snoc y ys)
  then obtain m where n: "n = Suc m" by (cases n) auto
  have "linked bs ((NBUF # ys) @ [y])" using snoc.prems(1) by simp
  then have "b_prev (bs ! y) = last (NBUF # ys)" "linked bs (NBUF # ys)"
    using linked_snoc [OF list.distinct(2), of bs NBUF ys y] by blast+
  with snoc.IH [of m] snoc.prems n show ?case by simp
qed

lemma dll_length: "dll bs xs \<Longrightarrow> length xs = NBUF"
proof -
  assume "dll bs xs"
  then have "distinct xs" "set xs = {..<NBUF}" unfolding dll_def by blast+
  then have "length xs = card {..<NBUF}" using distinct_card by metis
  then show ?thesis by (simp only: card_lessThan)
qed

lemma dll_bound: "dll bs xs \<Longrightarrow> b \<in> set xs \<Longrightarrow> b < NBUF \<and> b < length bs"
proof -
  assume "dll bs xs" "b \<in> set xs"
  then have "b \<in> {..<NBUF}" "length bs = NBUF + 1" unfolding dll_def by blast+
  then show ?thesis by (simp only: lessThan_iff) simp
qed

lemma dll_walks:
  assumes "dll bs xs"
  shows "walk b_next bs P (NBUF + 1) (b_next (bs ! NBUF)) = Some (find (\<lambda>b. P (bs ! b)) xs)"
    and "walk b_prev bs P (NBUF + 1) (b_prev (bs ! NBUF)) = Some (find (\<lambda>b. P (bs ! b)) (rev xs))"
proof -
  have l: "linked bs (NBUF # xs @ [NBUF])" "NBUF \<notin> set xs" "length xs < NBUF + 1"
    using assms dll_length [OF assms] unfolding dll_def by (simp_all only: lessThan_iff)
  have "b_next (bs ! NBUF) = hd (xs @ [NBUF])" "linked bs (xs @ [NBUF])" using l(1) by (cases xs; simp)+
  with walk_next [OF _ l(2,3)] show "walk b_next bs P (NBUF + 1) (b_next (bs ! NBUF)) = Some (find (\<lambda>b. P (bs ! b)) xs)"
    by simp
  have "linked bs ((NBUF # xs) @ [NBUF])" using l(1) by simp
  then have "b_prev (bs ! NBUF) = last (NBUF # xs)" "linked bs (NBUF # xs)"
    using linked_snoc [OF list.distinct(2), of bs NBUF xs NBUF] by blast+
  with walk_prev [OF _ l(2,3)] show "walk b_prev bs P (NBUF + 1) (b_prev (bs ! NBUF)) = Some (find (\<lambda>b. P (bs ! b)) (rev xs))"
    by simp
qed

lemma dll_frame:
  assumes "dll bs xs" and "length bs' = length bs"
    and "\<And>b. b_next (bs' ! b) = b_next (bs ! b) \<and> b_prev (bs' ! b) = b_prev (bs ! b)"
  shows "dll bs' xs"
  using assms linked_frame [of bs _ bs'] unfolding dll_def by metis

lemma dll_upd:
  assumes "dll bs xs" and "\<And>y. b_next (f y) = b_next y \<and> b_prev (f y) = b_prev y"
  shows "dll (upd_at b f bs) xs"
proof (rule dll_frame [OF assms(1)])
  fix c
  show "b_next (upd_at b f bs ! c) = b_next (bs ! c) \<and> b_prev (upd_at b f bs ! c) = b_prev (bs ! c)"
    using assms(2) by (cases "c = b"; cases "b < length bs") (simp_all add: list_update_beyond)
qed simp

section \<open>Moving a buffer to the front\<close>

definition unlink :: "nat \<Rightarrow> buf list \<Rightarrow> buf list" where
  "unlink b bs = (let bs1 = upd_at (b_next (bs ! b)) (\<lambda>y. y\<lparr>b_prev := b_prev (bs ! b)\<rparr>) bs
     in upd_at (b_prev (bs1 ! b)) (\<lambda>y. y\<lparr>b_next := b_next (bs1 ! b)\<rparr>) bs1)"

definition push_front :: "nat \<Rightarrow> buf list \<Rightarrow> buf list" where
  "push_front b bs = (let bs1 = upd_at b (\<lambda>y. y\<lparr>b_next := b_next (bs ! NBUF), b_prev := NBUF\<rparr>) bs;
       bs2 = upd_at (b_next (bs1 ! NBUF)) (\<lambda>y. y\<lparr>b_prev := b\<rparr>) bs1
     in upd_at NBUF (\<lambda>y. y\<lparr>b_next := b\<rparr>) bs2)"

lemma bufs_upd: "bufs (k\<lparr>bufs := x\<rparr>) = x" "k\<lparr>bufs := x, bufs := y\<rparr> = k\<lparr>bufs := y\<rparr>"
  by simp_all

lemma push_front_steps:
  assumes "b < length bs"
  shows "push_front b bs =
    (let bs0 = upd_at b (\<lambda>y. y\<lparr>b_next := b_next (bs ! NBUF)\<rparr>) bs;
       bs1 = upd_at b (\<lambda>y. y\<lparr>b_prev := NBUF\<rparr>) bs0;
       bs2 = upd_at (b_next (bs1 ! NBUF)) (\<lambda>y. y\<lparr>b_prev := b\<rparr>) bs1
     in upd_at NBUF (\<lambda>y. y\<lparr>b_next := b\<rparr>) bs2)"
  using assms by (simp only: push_front_def Let_def list_update_overwrite nth_list_update_eq)

lemma move_front_eq:
  assumes "b < length (bufs k)"
  shows "move_front b k = Ok () (k\<lparr>bufs := push_front b (unlink b (bufs k))\<rparr>)"
proof -
  define bs where "bs = unlink b (bufs k)"
  have len: "b < length bs" using assms unfolding bs_def by (simp add: unlink_def Let_def)
  have "move_front b k = block
     [modify (\<lambda>k. k\<lparr>bufs := upd_at b (\<lambda>y. y\<lparr>b_next := b_next (buf_at k NBUF)\<rparr>) (bufs k)\<rparr>),
      set_buf b (\<lambda>y. y\<lparr>b_prev := NBUF\<rparr>),
      modify (\<lambda>k. k\<lparr>bufs := upd_at (b_next (buf_at k NBUF)) (\<lambda>y. y\<lparr>b_prev := b\<rparr>) (bufs k)\<rparr>),
      set_buf NBUF (\<lambda>y. y\<lparr>b_next := b\<rparr>)] (k\<lparr>bufs := bs\<rparr>)"
    unfolding move_front_def bs_def unlink_def Let_def block.simps seq_apply modify_apply res.case by simp
  also have "\<dots> = Ok () (k\<lparr>bufs := push_front b bs\<rparr>)"
    unfolding push_front_steps [OF len] Let_def block.simps seq_apply modify_apply set_buf_apply res.case ret_apply
    by (simp only: bufs_upd)
  finally show ?thesis unfolding bs_def .
qed

lemma unlink_linked:
  assumes l: "linked bs (A @ p # b # n # C)"
    and d: "p \<notin> set A" "p \<notin> set (butlast (n # C))" "n \<notin> set C" "n \<notin> set (tl (A @ [p]))" "p \<noteq> b" "n \<noteq> b"
    and len: "\<And>a. a \<in> set (A @ p # b # n # C) \<Longrightarrow> a < length bs"
  shows "linked (unlink b bs) (A @ p # n # C)"
proof -
  have L: "linked bs (A @ [p])" "b_prev (bs ! b) = p" "b_next (bs ! b) = n" "linked bs (n # C)"
    using l linked_append [of bs A p "b # n # C"] by simp_all
  have u: "unlink b bs = (bs[n := (bs ! n)\<lparr>b_prev := p\<rparr>])[p := (bs[n := (bs ! n)\<lparr>b_prev := p\<rparr>] ! p)\<lparr>b_next := n\<rparr>]"
    using d by (simp add: unlink_def Let_def L)
  have pn: "p < length bs" "n < length bs" using len by auto
  have nxt: "b_next (unlink b bs ! a) = (if a = p then n else b_next (bs ! a))" if "a < length bs" for a
    using that pn by (simp add: u nth_list_update)
  have prv: "b_prev (unlink b bs ! a) = (if a = n then p else b_prev (bs ! a))" if "a < length bs" for a
    using that pn by (simp add: u nth_list_update)
  have "linked (unlink b bs) (A @ [p])"
  proof (rule linked_frame [OF L(1)])
    fix a assume "a \<in> set (butlast (A @ [p]))"
    then have "a \<in> set A" by simp
    then show "b_next (unlink b bs ! a) = b_next (bs ! a)" using d(1) len by (subst nxt) auto
  next
    fix a assume a: "a \<in> set (tl (A @ [p]))"
    then have "a \<in> set (A @ [p])" using list.set_sel(2) [of "A @ [p]" a] by blast
    then show "b_prev (unlink b bs ! a) = b_prev (bs ! a)" using d(4) a len by (subst prv) auto
  qed
  moreover have "linked (unlink b bs) (n # C)"
  proof (rule linked_frame [OF L(4)])
    fix a assume a: "a \<in> set (butlast (n # C))"
    then have "a \<in> set (n # C)" "a \<noteq> p" using d(2) in_set_butlastD [of a "n # C"] by blast+
    then show "b_next (unlink b bs ! a) = b_next (bs ! a)" using len by (subst nxt) auto
  next
    fix a assume "a \<in> set (tl (n # C))"
    then have "a \<in> set C" by simp
    then show "b_prev (unlink b bs ! a) = b_prev (bs ! a)" using d(3) len by (subst prv) auto
  qed
  ultimately show ?thesis using pn by (intro linked_join) (simp_all add: nxt prv)
qed

lemma push_front_linked:
  assumes l: "linked bs (NBUF # n # C)" and d: "b \<noteq> NBUF" "b \<notin> set (n # C)" "n \<notin> set C" "NBUF \<notin> set (butlast (n # C))"
    and len: "\<And>a. a \<in> set (NBUF # b # n # C) \<Longrightarrow> a < length bs"
  shows "linked (push_front b bs) (NBUF # b # n # C)"
proof -
  have n: "b_next (bs ! NBUF) = n" "linked bs (n # C)" "n \<noteq> b" using l d(2) by auto
  have lt: "b < length bs" "n < length bs" "NBUF < length bs" using len by auto
  have nxt: "b_next (push_front b bs ! a) = (if a = NBUF then b else if a = b then n else b_next (bs ! a))" if "a < length bs" for a
    using that lt d(1) n by (simp add: push_front_def Let_def nth_list_update)
  have prv: "b_prev (push_front b bs ! a) = (if a = n then b else if a = b then NBUF else b_prev (bs ! a))" if "a < length bs" for a
    using that lt d(1) n by (simp add: push_front_def Let_def nth_list_update)
  have "linked (push_front b bs) (n # C)"
  proof (rule linked_frame [OF n(2)])
    fix a assume a: "a \<in> set (butlast (n # C))"
    then have "a \<in> set (n # C)" by (rule in_set_butlastD)
    moreover have "a \<noteq> NBUF" "a \<noteq> b" using a d calculation by blast+
    ultimately show "b_next (push_front b bs ! a) = b_next (bs ! a)" using len by (subst nxt) auto
  next
    fix a assume "a \<in> set (tl (n # C))"
    then have "a \<in> set C" by simp
    then show "b_prev (push_front b bs ! a) = b_prev (bs ! a)" using d(2,3) len by (subst prv) auto
  qed
  then show ?thesis using lt n d(1) by (simp add: nxt prv)
qed

lemma length_move [simp]: "length (unlink b bs) = length bs" "length (push_front b bs) = length bs"
  by (simp_all add: unlink_def push_front_def Let_def)

text \<open>The links after \<^verbatim>\<open>brelse()\<close> of the last reference.\<close>

lemma dll_move_front:
  assumes "dll bs (us @ b # vs)"
  shows "dll (push_front b (unlink b bs)) (b # us @ vs)"
proof -
  obtain A p where A: "NBUF # us = A @ [p]" by (metis append_butlast_last_id list.distinct(1))
  obtain n C where C: "vs @ [NBUF] = n # C" by (cases "vs @ [NBUF]") auto
  have len: "length bs = NBUF + 1" and dist: "distinct (us @ b # vs)" and s: "set (us @ b # vs) = {..<NBUF}"
    and l: "linked bs (NBUF # (us @ b # vs) @ [NBUF])"
    using assms unfolding dll_def by blast+
  have lt: "a < NBUF" if "a \<in> set (us @ b # vs)" for a using that unfolding s by (simp only: lessThan_iff)
  have nb: "NBUF \<notin> set us" "NBUF \<notin> set vs" "b \<noteq> NBUF" using lt [of NBUF] by auto
  have dA: "distinct (A @ [p])" and dC: "distinct (n # C)"
    unfolding A [symmetric] C [symmetric] using nb dist by auto
  have sA: "set A \<union> {p} = insert NBUF (set us)" and sC: "insert n (set C) = insert NBUF (set vs)"
    using arg_cong [OF A, of set] arg_cong [OF C, of set] by auto
  have bC: "butlast (n # C) = vs" and tA: "tl (A @ [p]) = us" using arg_cong [OF C, of butlast] arg_cong [OF A, of tl] by simp_all
  have pn: "p = NBUF \<or> p \<in> set us" "n = NBUF \<or> n \<in> set vs" using sA sC by blast+
  have "NBUF # (us @ b # vs) @ [NBUF] = (NBUF # us) @ b # (vs @ [NBUF])" by simp
  also have "\<dots> = A @ p # b # n # C" by (simp only: A C append_assoc append_Cons append_Nil)
  finally have l1: "linked bs (A @ p # b # n # C)" using l by (simp only:)
  have all: "a < length bs" if "a \<in> insert NBUF (set (us @ b # vs))" for a using that lt [of a] len by auto
  have f: "p \<notin> set A" "p \<notin> set (butlast (n # C))" "n \<notin> set C" "n \<notin> set (tl (A @ [p]))" "p \<noteq> b" "n \<noteq> b"
    unfolding bC tA using dA dC pn nb dist by auto
  have "set (A @ p # b # n # C) = insert NBUF (set (us @ b # vs))" using sA sC by auto
  then have "linked (unlink b bs) (A @ p # n # C)" using all by (intro unlink_linked [OF l1 f]) blast
  moreover have "A @ p # n # C = (A @ [p]) @ (n # C)" by simp
  ultimately have l2: "linked (unlink b bs) (NBUF # us @ vs @ [NBUF])" by (simp only: A [symmetric] C [symmetric] append_Cons)
  obtain m D where D: "us @ vs @ [NBUF] = m # D" by (cases "us @ vs @ [NBUF]") auto
  have dD: "distinct (m # D)" and sD: "set (m # D) = insert NBUF (set us \<union> set vs)" and bD: "butlast (m # D) = us @ vs"
    unfolding D [symmetric] using nb dist by (auto simp: butlast_append)
  have g: "b \<noteq> NBUF" "b \<notin> set (m # D)" "m \<notin> set D" "NBUF \<notin> set (butlast (m # D))"
    unfolding bD sD using dD nb dist by auto
  have "set (NBUF # b # m # D) = insert NBUF (set (us @ b # vs))" using sD by auto
  then have "linked (push_front b (unlink b bs)) (NBUF # b # m # D)"
    using l2 all unfolding D by (intro push_front_linked [OF _ g]) (auto simp only: length_move)
  then have "linked (push_front b (unlink b bs)) (NBUF # (b # us @ vs) @ [NBUF])" using D by simp
  moreover have "distinct (b # us @ vs)" using dist by auto
  moreover have "set (b # us @ vs) = set (us @ b # vs)" by auto
  ultimately show ?thesis unfolding dll_def using len s by (simp only: length_move)
qed

text \<open>Moving a buffer to the front of the list changes nothing but links.\<close>

definition core :: "buf \<Rightarrow> buf" where
  "core x = x\<lparr>b_next := 0, b_prev := 0\<rparr>"

lemma core_upd: "(\<And>y. core (f y) = core y) \<Longrightarrow> core (upd_at i f bs ! j) = core (bs ! j)"
  by (cases "j = i"; cases "i < length bs") (simp_all add: list_update_beyond)

lemma core_links [simp]: "core (y\<lparr>b_next := n\<rparr>) = core y" "core (y\<lparr>b_prev := n\<rparr>) = core y"
  by (simp_all add: core_def)

lemma core_push_front: "core (push_front b bs ! j) = core (bs ! j)"
  unfolding push_front_def Let_def by (subst core_upd, simp)+ (rule refl)

lemma core_move: "core (push_front b (unlink b bs) ! j) = core (bs ! j)"
proof -
  have "core (unlink b bs ! j) = core (bs ! j)"
    unfolding unlink_def Let_def by (subst core_upd, simp)+ (rule refl)
  then show ?thesis by (simp add: core_push_front)
qed

lemma core_fields:
  assumes "core x = core y"
  shows "b_valid x = b_valid y" "b_dirty x = b_dirty y" "b_dev x = b_dev y" "b_blockno x = b_blockno y"
    "b_refcnt x = b_refcnt y" "b_data x = b_data y"
proof -
  have *: "f x = f y" if "\<And>z. f (core z) = f z" for f :: "buf \<Rightarrow> 'z" using assms that by metis
  show "b_valid x = b_valid y" "b_dirty x = b_dirty y" "b_dev x = b_dev y" "b_blockno x = b_blockno y"
    "b_refcnt x = b_refcnt y" "b_data x = b_data y" by (rule *, simp add: core_def)+
qed

section \<open>Initialization\<close>

lemma initsleeplock_frame: "\<exists>m sl. initsleeplock l nm k = Ok () (k\<lparr>mach := m, sleeplocks := sl\<rparr>)"
  by (auto simp: initsleeplock_def initlock_def set_lock_def set_sl_def intro!: exI kernel.equality)

lemma binit_link_ok:
  assumes "b < length (bufs k)"
  shows "\<exists>m sl. binit_link b k = Ok () (k\<lparr>mach := m, sleeplocks := sl, bufs := push_front b (bufs k)\<rparr>)"
proof -
  let ?bs = "upd_at b (\<lambda>y. y\<lparr>b_prev := NBUF\<rparr>) (upd_at b (\<lambda>y. y\<lparr>b_next := b_next (bufs k ! NBUF)\<rparr>) (bufs k))"
  have e: "bufs (k\<lparr>bufs := x, mach := m, sleeplocks := sl\<rparr>) = x" "k\<lparr>bufs := x, mach := m, sleeplocks := sl, bufs := y\<rparr> = k\<lparr>bufs := y, mach := m, sleeplocks := sl\<rparr>"
    for x y m sl by simp_all
  obtain m sl where i: "initsleeplock (SL_buf b) ''buffer'' (k\<lparr>bufs := ?bs\<rparr>) = Ok () (k\<lparr>bufs := ?bs, mach := m, sleeplocks := sl\<rparr>)"
    using initsleeplock_frame by blast
  have "binit_link b k = Ok () (k\<lparr>bufs := push_front b (bufs k), mach := m, sleeplocks := sl\<rparr>)"
    unfolding push_front_steps [OF assms] Let_def binit_link_def block.simps seq_apply bind_apply gets_apply set_buf_apply res.case ret_apply
      bufs_upd i e by (rule refl)
  moreover have "k\<lparr>bufs := x, mach := m, sleeplocks := sl\<rparr> = k\<lparr>mach := m, sleeplocks := sl, bufs := x\<rparr>" for x by simp
  ultimately show ?thesis by metis
qed

lemma binit_links:
  assumes "length (bufs k) = NBUF + 1" and "linked (bufs k) [NBUF, NBUF]" and "j \<le> NBUF"
  shows "\<exists>m sl bs. for_each [0..<j] binit_link k = Ok () (k\<lparr>mach := m, sleeplocks := sl, bufs := bs\<rparr>) \<and> length bs = NBUF + 1 \<and>
     linked bs (NBUF # rev [0..<j] @ [NBUF]) \<and> (\<forall>i. core (bs ! i) = core (bufs k ! i))"
  using assms(3)
proof (induction j)
  case 0
  have "for_each [0..<0] binit_link k = Ok () (k\<lparr>mach := mach k, sleeplocks := sleeplocks k, bufs := bufs k\<rparr>)" by simp
  then show ?case using assms(1,2) by (metis append_Nil rev.simps(1) upt_0)
next
  case (Suc j)
  then obtain m sl bs where IH: "for_each [0..<j] binit_link k = Ok () (k\<lparr>mach := m, sleeplocks := sl, bufs := bs\<rparr>)"
    "length bs = NBUF + 1" "linked bs (NBUF # rev [0..<j] @ [NBUF])" "\<And>i. core (bs ! i) = core (bufs k ! i)" by auto
  let ?k = "k\<lparr>mach := m, sleeplocks := sl, bufs := bs\<rparr>"
  have "j < length (bufs ?k)" using IH(2) Suc.prems by simp
  from binit_link_ok [OF this] obtain m' sl' where
    s: "binit_link j ?k = Ok () (?k\<lparr>mach := m', sleeplocks := sl', bufs := push_front j bs\<rparr>)" by auto
  obtain n C where C: "rev [0..<j] @ [NBUF] = n # C" by (cases "rev [0..<j] @ [NBUF]") auto
  have d: "distinct (n # C)" "set (n # C) = insert NBUF {0..<j}" "butlast (n # C) = rev [0..<j]"
    unfolding C [symmetric] using Suc.prems by auto
  have "linked (push_front j bs) (NBUF # j # n # C)"
  proof (rule push_front_linked)
    show "linked bs (NBUF # n # C)" using IH(3) unfolding C .
    show "j \<noteq> NBUF" "n \<notin> set C" using Suc.prems d(1) by simp_all
    show "j \<notin> set (n # C)" unfolding d(2) using Suc.prems by auto
    show "NBUF \<notin> set (butlast (n # C))" unfolding d(3) using Suc.prems by auto
    show "a < length bs" if "a \<in> set (NBUF # j # n # C)" for a
    proof -
      have "a = NBUF \<or> a = j \<or> a \<in> set (n # C)" using that by auto
      then show ?thesis unfolding d(2) IH(2) using Suc.prems by auto
    qed
  qed
  then have "linked (push_front j bs) (NBUF # rev [0..<Suc j] @ [NBUF])" unfolding C [symmetric] by simp
  moreover have "for_each [0..<Suc j] binit_link k = Ok () (k\<lparr>mach := m', sleeplocks := sl', bufs := push_front j bs\<rparr>)"
    using IH(1) s for_each_snoc [of "[0..<j]" j binit_link k] by simp
  ultimately show ?case using IH(2,4) by (metis length_move(2) core_push_front)
qed

text \<open>\<^verbatim>\<open>binit()\<close> links all buffers, the last one first.\<close>

lemma binit_dll:
  assumes "length (bufs k) = NBUF + 1"
  shows "\<exists>m sl bs. binit k = Ok () (k\<lparr>mach := m, sleeplocks := sl, bufs := bs\<rparr>) \<and> dll bs (rev [0..<NBUF]) \<and>
     (\<forall>i. core (bs ! i) = core (bufs k ! i))"
proof -
  obtain m where m: "initlock L_bcache ''bcache'' k = Ok () (k\<lparr>mach := m\<rparr>)"
    by (simp add: initlock_def set_lock_def)
  let ?bs = "upd_at NBUF (\<lambda>y. y\<lparr>b_next := NBUF\<rparr>) (upd_at NBUF (\<lambda>y. y\<lparr>b_prev := NBUF\<rparr>) (bufs k))"
  let ?k = "k\<lparr>mach := m, bufs := ?bs\<rparr>"
  have "length (bufs ?k) = NBUF + 1" "linked (bufs ?k) [NBUF, NBUF]" using assms by simp_all
  from binit_links [OF this order_refl] obtain m' sl bs where
    l: "for_each [0..<NBUF] binit_link ?k = Ok () (?k\<lparr>mach := m', sleeplocks := sl, bufs := bs\<rparr>)" "length bs = NBUF + 1"
      "linked bs (NBUF # rev [0..<NBUF] @ [NBUF])" "\<And>i. core (bs ! i) = core (bufs ?k ! i)" by blast
  have "binit k = for_each [0..<NBUF] binit_link ?k"
    unfolding binit_def block.simps seq_apply set_buf_apply res.case ret_apply m by simp
  then have "binit k = Ok () (k\<lparr>mach := m', sleeplocks := sl, bufs := bs\<rparr>)" unfolding l(1) by simp
  moreover have "dll bs (rev [0..<NBUF])" 
    unfolding dll_def set_rev set_upt distinct_rev atLeast0LessThan using l(2,3) by (intro conjI distinct_upt refl)
  moreover have "core (bs ! i) = core (bufs k ! i)" for i
  proof -
    have "core (?bs ! i) = core (bufs k ! i)" by (subst core_upd, simp)+ (rule refl)
    then show ?thesis using l(4) [of i] by simp
  qed
  ultimately show ?thesis by blast
qed

section \<open>The routines on a well-formed list\<close>

interpretation bget: fs_frame "bget_body dev blockno" for dev blockno
  by unfold_locales (simp add: bget_body_def split: option.split)

lemma fs_frame_set_buf: "fs_frame (set_buf b f)"
  unfolding set_buf_def by (rule fs_frame_modify) simp

lemma fs_frame_move_front: "fs_frame (move_front b)"
  unfolding move_front_def block.simps by (intro fs_frame_intros fs_frame_set_buf) simp_all

interpretation brelse: fs_frame "brelse_body b" for b
  unfolding brelse_body_def by (intro fs_frame_intros fs_frame_set_buf fs_frame_move_front) simp

interpretation iderw: fs_frame "iderw_body b" for b
  by unfold_locales (simp add: iderw_body_def)

definition is_block :: "uint \<Rightarrow> uint \<Rightarrow> buf \<Rightarrow> bool" where
  "is_block dev blockno x \<longleftrightarrow> b_dev x = dev \<and> b_blockno x = blockno"

definition unused_buf :: "buf \<Rightarrow> bool" where
  "unused_buf x \<longleftrightarrow> b_refcnt x = 0 \<and> \<not> b_dirty x"

lemma bget_body_cases:
  assumes "dll (bufs s) xs"
  shows "bget_body dev blockno s =
     (case find (\<lambda>b. is_block dev blockno (buf_at s b)) xs of
        Some b \<Rightarrow> Ok b (s\<lparr>bufs := upd_at b (\<lambda>y. y\<lparr>b_refcnt := b_refcnt y + 1\<rparr>) (bufs s)\<rparr>)
      | None \<Rightarrow>
         (case find (\<lambda>b. unused_buf (buf_at s b)) (rev xs) of
            Some b \<Rightarrow> Ok b (s\<lparr>bufs := upd_at b (\<lambda>y. y\<lparr>b_dev := dev, b_blockno := blockno, b_valid := False,
              b_dirty := False, b_refcnt := 1\<rparr>) (bufs s)\<rparr>)
          | None \<Rightarrow> Fault (Panic ''bget: no buffers'')))"
proof -
  define hit where "hit = find (\<lambda>b. is_block dev blockno (buf_at s b)) xs"
  define old where "old = find (\<lambda>b. unused_buf (buf_at s b)) (rev xs)"
  have w1: "walk b_next (bufs s) (\<lambda>x. b_dev x = dev \<and> b_blockno x = blockno) (NBUF + 1) (b_next (bufs s ! NBUF)) = Some hit"
    unfolding hit_def is_block_def by (rule dll_walks(1) [OF assms])
  have w2: "walk b_prev (bufs s) (\<lambda>x. b_refcnt x = 0 \<and> \<not> b_dirty x) (NBUF + 1) (b_prev (bufs s ! NBUF)) = Some old"
    unfolding old_def unused_buf_def by (rule dll_walks(2) [OF assms])
  have lt: "b < length (bufs s)" if "old = Some b" for b
    using find_Some_in [OF that [unfolded old_def]] dll_bound [OF assms, of b] by simp
  show ?thesis
    unfolding bget_body_def bind_apply gets_apply res.case w1 w2 option.case hit_def [symmetric] old_def [symmetric]
    by (cases hit; cases old) (simp_all only: option.case block.simps seq_apply set_buf_apply ret_apply panic_apply
      res.case bufs_upd list_update_overwrite nth_list_update_eq lt)
qed

lemma remove1_split: "b \<notin> set us \<Longrightarrow> remove1 b (us @ b # vs) = us @ vs"
  by (simp add: remove1_append)

lemma brelse_body_cases:
  assumes d: "dll (bufs k) xs" and b: "b < NBUF"
  shows "\<exists>bs. brelse_body b k = Ok () (k\<lparr>bufs := bs\<rparr>) \<and> (\<forall>i. core (bs ! i) = core (upd_at b (\<lambda>y. y\<lparr>b_refcnt := b_refcnt y - 1\<rparr>) (bufs k) ! i)) \<and>
     dll bs (if b_refcnt (buf_at k b) = 1 then b # remove1 b xs else xs)"
proof -
  let ?bs = "upd_at b (\<lambda>y. y\<lparr>b_refcnt := b_refcnt y - 1\<rparr>) (bufs k)"
  let ?k = "k\<lparr>bufs := ?bs\<rparr>"
  have len: "length (bufs k) = NBUF + 1" using d unfolding dll_def by blast
  have d': "dll ?bs xs" by (rule dll_upd [OF d]) simp
  have r: "b_refcnt (buf_at ?k b) = b_refcnt (buf_at k b) - 1" using b len by simp
  have e: "brelse_body b k = (if b_refcnt (buf_at k b) = 1 then move_front b ?k else Ok () ?k)"
    unfolding brelse_body_def seq_apply set_buf_apply res.case bind_apply gets_apply r do_if_apply by simp
  show ?thesis
  proof (cases "b_refcnt (buf_at k b) = 1")
    case True
    have "b \<in> set xs" using d b unfolding dll_def by (metis lessThan_iff)
    then obtain us vs where xs: "xs = us @ b # vs" by (meson split_list)
    then have "b \<notin> set us" using d unfolding dll_def by auto
    moreover have "move_front b ?k = Ok () (?k\<lparr>bufs := push_front b (unlink b (bufs ?k))\<rparr>)"
      by (rule move_front_eq) (use b len in simp)
    ultimately show ?thesis
      unfolding e if_P [OF True] using dll_move_front [OF d' [unfolded xs]] core_move [of b ?bs]
      by (simp only: bufs_upd remove1_split xs) (intro exI [of _ "push_front b (unlink b ?bs)"], simp add: remove1_split)
  next
    case False
    then show ?thesis unfolding e if_not_P [OF False] using d' by (intro exI [of _ ?bs]) simp
  qed
qed

text \<open>C29: The doubly linked list of buffers implements a list in most-recently-used order.
  \<^verbatim>\<open>bget()\<close> finds a cached block wherever it is; otherwise it takes over the buffer that is last
  in that order among the ones that are neither referenced nor dirty, and panics when there is none.
  The order does not change.  \<^verbatim>\<open>brelse()\<close> of the last reference moves the buffer to the front and
  keeps the order of the others.\<close>

theorem bcache_refines_mru:
  assumes "dll (bufs k) xs"
  shows "bget_body dev blockno k =
     (case find (\<lambda>b. is_block dev blockno (buf_at k b)) xs of
        Some b \<Rightarrow> Ok b (k\<lparr>bufs := upd_at b (\<lambda>y. y\<lparr>b_refcnt := b_refcnt y + 1\<rparr>) (bufs k)\<rparr>)
      | None \<Rightarrow>
         (case find (\<lambda>b. unused_buf (buf_at k b)) (rev xs) of
            Some b \<Rightarrow> Ok b (k\<lparr>bufs := upd_at b (\<lambda>y. y\<lparr>b_dev := dev, b_blockno := blockno, b_valid := False,
              b_dirty := False, b_refcnt := 1\<rparr>) (bufs k)\<rparr>)
          | None \<Rightarrow> Fault (Panic ''bget: no buffers''))) \<and>
     (\<forall>b k'. bget_body dev blockno k = Ok b k' \<longrightarrow> dll (bufs k') xs) \<and>
     (\<forall>b < NBUF. \<exists>bs. brelse_body b k = Ok () (k\<lparr>bufs := bs\<rparr>) \<and>
       dll bs (if b_refcnt (buf_at k b) = 1 then b # remove1 b xs else xs))"
proof (intro conjI allI impI)
  note c = bget_body_cases [OF assms, of dev blockno]
  show "bget_body dev blockno k =
     (case find (\<lambda>b. is_block dev blockno (buf_at k b)) xs of
        Some b \<Rightarrow> Ok b (k\<lparr>bufs := upd_at b (\<lambda>y. y\<lparr>b_refcnt := b_refcnt y + 1\<rparr>) (bufs k)\<rparr>)
      | None \<Rightarrow>
         (case find (\<lambda>b. unused_buf (buf_at k b)) (rev xs) of
            Some b \<Rightarrow> Ok b (k\<lparr>bufs := upd_at b (\<lambda>y. y\<lparr>b_dev := dev, b_blockno := blockno, b_valid := False,
              b_dirty := False, b_refcnt := 1\<rparr>) (bufs k)\<rparr>)
          | None \<Rightarrow> Fault (Panic ''bget: no buffers'')))"
    by (rule c)
  show "dll (bufs k') xs" if r: "bget_body dev blockno k = Ok b k'" for b k'
  proof -
    have "\<exists>f c. bufs k' = upd_at c f (bufs k) \<and> (\<forall>y. b_next (f y) = b_next y \<and> b_prev (f y) = b_prev y)"
      using r unfolding c
      by (cases "find (\<lambda>b. is_block dev blockno (buf_at k b)) xs"; cases "find (\<lambda>b. unused_buf (buf_at k b)) (rev xs)") fastforce+
    then show ?thesis using dll_upd [OF assms] by metis
  qed
  show "\<exists>bs. brelse_body b k = Ok () (k\<lparr>bufs := bs\<rparr>) \<and> dll bs (if b_refcnt (buf_at k b) = 1 then b # remove1 b xs else xs)"
    if "b < NBUF" for b using brelse_body_cases [OF assms that] by blast
qed

theorem bcache_refines_mru_witness:
  "\<exists>k k1 k2. binit kernel0 = Ok () k \<and> bget_body 1 7 k = Ok 0 k1 \<and> brelse_body 0 k1 = Ok () k2 \<and>
     dll (bufs k2) (0 # rev [1..<NBUF])"
proof -
  have len: "length (bufs kernel0) = NBUF + 1" by (simp add: kernel0_def)
  from binit_dll [OF this] obtain m sl bs where b: "binit kernel0 = Ok () (kernel0\<lparr>mach := m, sleeplocks := sl, bufs := bs\<rparr>)"
    "dll bs (rev [0..<NBUF])" "\<And>i. core (bs ! i) = core (bufs kernel0 ! i)" by blast
  let ?k = "kernel0\<lparr>mach := m, sleeplocks := sl, bufs := bs\<rparr>"
  have f: "b_dev (bs ! i) = 0" "b_refcnt (bs ! i) = 0" "\<not> b_dirty (bs ! i)" if "i < NBUF" for i
    using core_fields [OF b(3)] that by (simp_all add: kernel0_def buf0_def nth_Cons')
  have d: "dll (bufs ?k) (rev [0..<NBUF])" using b(2) by simp
  have "find (\<lambda>b. is_block 1 7 (buf_at ?k b)) (rev [0..<NBUF]) = None"
    using f(1) by (auto simp only: find_None_iff set_rev set_upt is_block_def kernel.simps) simp
  moreover have "find (\<lambda>b. unused_buf (buf_at ?k b)) (rev (rev [0..<NBUF])) = Some 0"
    using f [of 0] by (simp add: upt_conv_Cons unused_buf_def)
  ultimately obtain k1 where k1: "bget_body 1 7 ?k = Ok 0 k1" "b_refcnt (buf_at k1 0) = 1"
    using bcache_refines_mru [OF d, of 1 7] b(2) unfolding dll_def by auto
  then have "dll (bufs k1) (rev [0..<NBUF])" using bcache_refines_mru [OF d, of 1 7] by blast
  moreover have "remove1 0 (rev [0..<NBUF]) = rev [1..<NBUF]" by (simp add: upt_conv_Cons remove1_append)
  ultimately show ?thesis using bcache_refines_mru [of k1 "rev [0..<NBUF]"] k1 b(1) by fastforce
qed

end
