(* ===== verification/Cache.thy ===== *)
theory Cache
  imports Bio
begin

text \<open>
  The buffer cache as its clients see it: a function from block numbers to contents, laid over the
  disk.  \<open>cache_inv pid H s\<close> is the invariant of \<^verbatim>\<open>bio.c\<close> while one process \<open>pid\<close>
  is in the file system and holds the buffers that \<open>H\<close> maps to their block numbers.
  \<open>blk s\<close> is the content of each block as a read through the cache finds it, and
  \<open>dirt s\<close> the set of blocks whose cached content has not been written to the disk.  Each
  routine of the cache is then one rule over \<open>blk\<close>, \<open>dirt\<close> and \<open>disk\<close>.
\<close>

section \<open>The invariant\<close>

definition owned :: "int \<Rightarrow> kernel \<Rightarrow> nat \<Rightarrow> uint \<Rightarrow> bool" where
  "owned pid s i b \<longleftrightarrow> b_valid (buf_at s i) \<and> b_blockno (buf_at s i) = b \<and> b_refcnt (buf_at s i) = 1 \<and>
     sl_locked (sleeplocks s (SL_buf i)) \<and> sl_pid (sleeplocks s (SL_buf i)) = pid"

definition idle_buf :: "kernel \<Rightarrow> nat \<Rightarrow> bool" where
  "idle_buf s i \<longleftrightarrow> b_refcnt (buf_at s i) = 0 \<and> \<not> sl_locked (sleeplocks s (SL_buf i)) \<and>
     (b_valid (buf_at s i) \<longrightarrow> \<not> b_dirty (buf_at s i) \<longrightarrow>
       b_data (buf_at s i) = disk s ! unat (b_blockno (buf_at s i)))"

definition buf_ok :: "kernel \<Rightarrow> buf \<Rightarrow> bool" where
  "buf_ok s x \<longleftrightarrow> length (b_data x) = BSIZE \<and> (b_dirty x \<longrightarrow> b_valid x) \<and> (b_valid x \<longleftrightarrow> b_dev x = 1) \<and>
     (b_valid x \<longrightarrow> unat (b_blockno x) < length (disk s))"

definition cache_inv :: "int \<Rightarrow> (nat \<Rightarrow> uint option) \<Rightarrow> kernel \<Rightarrow> bool" where
  "cache_inv pid H s \<longleftrightarrow> (\<exists>xs. dll (bufs s) xs) \<and> (\<forall>d \<in> set (disk s). length d = BSIZE) \<and>
     (\<forall>i < NBUF. buf_ok s (buf_at s i)) \<and>
     (\<forall>i j. i < NBUF \<longrightarrow> j < NBUF \<longrightarrow> b_valid (buf_at s i) \<longrightarrow> b_valid (buf_at s j) \<longrightarrow>
        b_blockno (buf_at s i) = b_blockno (buf_at s j) \<longrightarrow> i = j) \<and>
     (\<forall>i < NBUF. H i = None \<longrightarrow> idle_buf s i) \<and>
     (\<forall>i b. H i = Some b \<longrightarrow> i < NBUF \<and> owned pid s i b)"

definition blk :: "kernel \<Rightarrow> uint \<Rightarrow> uchar list" where
  "blk s b = (case find_idx (\<lambda>x. b_valid x \<and> b_blockno x = b) (take NBUF (bufs s)) of
     Some i \<Rightarrow> b_data (buf_at s i) | None \<Rightarrow> disk s ! unat b)"

definition dirt :: "kernel \<Rightarrow> uint set" where
  "dirt s = {b. \<exists>i < NBUF. b_dirty (buf_at s i) \<and> b_blockno (buf_at s i) = b}"

text \<open>What the cache routines leave alone.\<close>

definition rest :: "kernel \<Rightarrow> kernel" where
  "rest s = s\<lparr>bufs := [], disk := [],
     sleeplocks := (\<lambda>l. case l of SL_buf i \<Rightarrow> sleeplock0 | SL_inode j \<Rightarrow> sleeplocks s l)\<rparr>"

lemma rest_simps [simp]: "rest (s\<lparr>bufs := x\<rparr>) = rest s" "rest (s\<lparr>disk := y\<rparr>) = rest s"
  by (auto simp: rest_def fun_eq_iff split: sleepid.split)

lemma rest_fields:
  assumes "rest s' = rest s"
  shows "log s' = log s" and "sb s' = sb s" and "icache s' = icache s" and "ftable s' = ftable s" and "pipes s' = pipes s"
    and "mem s' = mem s" and "km s' = km s" and "ticks s' = ticks s" and "kpgdir s' = kpgdir s"
    and "mach s' = mach s" and "pt s' = pt s" and "sleeplocks s' (SL_inode j) = sleeplocks s (SL_inode j)"
proof -
  have *: "f s' = f s" if "\<And>t. f (rest t) = f t" for f :: "kernel \<Rightarrow> 'z" using assms that by metis
  show "log s' = log s" "sb s' = sb s" "icache s' = icache s" "ftable s' = ftable s" "pipes s' = pipes s"
    "mem s' = mem s" "km s' = km s" "ticks s' = ticks s" "kpgdir s' = kpgdir s" "mach s' = mach s" "pt s' = pt s"
    by (rule *, simp add: rest_def)+
  show "sleeplocks s' (SL_inode j) = sleeplocks s (SL_inode j)"
    by (rule * [of "\<lambda>s. sleeplocks s (SL_inode j)"]) (simp add: rest_def)
qed

lemma cache_invD:
  assumes "cache_inv pid H s"
  shows "length (bufs s) = NBUF + 1" and "d \<in> set (disk s) \<Longrightarrow> length d = BSIZE"
    and "i < NBUF \<Longrightarrow> buf_ok s (buf_at s i)"
    and "i < NBUF \<Longrightarrow> j < NBUF \<Longrightarrow> b_valid (buf_at s i) \<Longrightarrow> b_valid (buf_at s j) \<Longrightarrow>
        b_blockno (buf_at s i) = b_blockno (buf_at s j) \<Longrightarrow> i = j"
    and "i < NBUF \<Longrightarrow> H i = None \<Longrightarrow> idle_buf s i"
    and "H i = Some b \<Longrightarrow> i < NBUF" and "H i = Some b \<Longrightarrow> owned pid s i b"
proof -
  show "length (bufs s) = NBUF + 1" using assms unfolding cache_inv_def dll_def by metis
  show "d \<in> set (disk s) \<Longrightarrow> length d = BSIZE" using assms unfolding cache_inv_def by metis
  show "i < NBUF \<Longrightarrow> buf_ok s (buf_at s i)" using assms unfolding cache_inv_def by metis
  show "i < NBUF \<Longrightarrow> j < NBUF \<Longrightarrow> b_valid (buf_at s i) \<Longrightarrow> b_valid (buf_at s j) \<Longrightarrow>
        b_blockno (buf_at s i) = b_blockno (buf_at s j) \<Longrightarrow> i = j" using assms unfolding cache_inv_def by metis
  show "i < NBUF \<Longrightarrow> H i = None \<Longrightarrow> idle_buf s i" using assms unfolding cache_inv_def by metis
  show "H i = Some b \<Longrightarrow> i < NBUF" using assms unfolding cache_inv_def by metis
  show "H i = Some b \<Longrightarrow> owned pid s i b" using assms unfolding cache_inv_def by metis
qed

lemma cache_invI:
  assumes "dll (bufs s) xs" and "\<And>d. d \<in> set (disk s) \<Longrightarrow> length d = BSIZE"
    and "\<And>i. i < NBUF \<Longrightarrow> buf_ok s (buf_at s i)"
    and "\<And>i j. i < NBUF \<Longrightarrow> j < NBUF \<Longrightarrow> b_valid (buf_at s i) \<Longrightarrow> b_valid (buf_at s j) \<Longrightarrow>
        b_blockno (buf_at s i) = b_blockno (buf_at s j) \<Longrightarrow> i = j"
    and "\<And>i. i < NBUF \<Longrightarrow> H i = None \<Longrightarrow> idle_buf s i"
    and "\<And>i b. H i = Some b \<Longrightarrow> i < NBUF" and "\<And>i b. H i = Some b \<Longrightarrow> owned pid s i b"
  shows "cache_inv pid H s"
  unfolding cache_inv_def using assms by blast

lemma blk_cached:
  assumes "cache_inv pid H s" and "i < NBUF" and "b_valid (buf_at s i)"
  shows "blk s (b_blockno (buf_at s i)) = b_data (buf_at s i)"
proof -
  let ?P = "\<lambda>x. b_valid x \<and> b_blockno x = b_blockno (buf_at s i)"
  have len: "length (take NBUF (bufs s)) = NBUF" using cache_invD(1) [OF assms(1)] by simp
  have "i < length (take NBUF (bufs s))" "?P (take NBUF (bufs s) ! i)" using assms len by simp_all
  from find_idx_exists [of i _ ?P, OF this] obtain j where j: "find_idx ?P (take NBUF (bufs s)) = Some j" by blast
  from find_idx_SomeD(1,2) [OF j] have "j < NBUF" "?P (buf_at s j)" using len by simp_all
  with cache_invD(4) [OF assms(1), of j i] assms(2,3) have "j = i" by blast
  with j show ?thesis by (simp add: blk_def)
qed

lemma blk_uncached:
  assumes "cache_inv pid H s" and "\<And>i. i < NBUF \<Longrightarrow> b_valid (buf_at s i) \<Longrightarrow> b_blockno (buf_at s i) \<noteq> b"
  shows "blk s b = disk s ! unat b"
proof -
  have "find_idx (\<lambda>x. b_valid x \<and> b_blockno x = b) (take NBUF (bufs s)) = None"
    using assms(2) cache_invD(1) [OF assms(1)] by (fastforce simp: find_idx_None_iff in_set_conv_nth)
  then show ?thesis by (simp add: blk_def)
qed

lemma blk_held: "cache_inv pid H s \<Longrightarrow> H i = Some b \<Longrightarrow> blk s b = b_data (buf_at s i)"
  using blk_cached [of pid H s i] cache_invD(6,7) [of pid H s i b] by (auto simp: owned_def)

lemma dirtI: "i < NBUF \<Longrightarrow> b_dirty (buf_at s i) \<Longrightarrow> b_blockno (buf_at s i) \<in> dirt s"
  unfolding dirt_def by blast

section \<open>Changing one buffer\<close>

text \<open>The state after a change of buffer \<open>i\<close>, its lock, and perhaps the block it holds on the disk.\<close>

definition put_buf :: "nat \<Rightarrow> buf \<Rightarrow> sleeplock \<Rightarrow> kernel \<Rightarrow> kernel" where
  "put_buf i x l s = s\<lparr>bufs := (bufs s)[i := x], sleeplocks := (sleeplocks s)(SL_buf i := l)\<rparr>"

lemma put_buf_simps [simp]:
  "length (bufs (put_buf i x l s)) = length (bufs s)" "disk (put_buf i x l s) = disk s"
  "sleeplocks (put_buf i x l s) (SL_buf j) = (if j = i then l else sleeplocks s (SL_buf j))"
  "i < length (bufs s) \<Longrightarrow> bufs (put_buf i x l s) ! j = (if j = i then x else bufs s ! j)"
  "buf_ok (put_buf i x l s) = buf_ok s"
  by (auto simp: put_buf_def buf_ok_def fun_eq_iff)

lemma rest_put_buf [simp]: "rest (put_buf i x l s) = rest s"
  by (auto simp: rest_def put_buf_def fun_eq_iff split: sleepid.split)

lemma put_buf_inv:
  assumes inv: "cache_inv pid H s" and i: "i < NBUF"
    and links: "b_next x = b_next (buf_at s i)" "b_prev x = b_prev (buf_at s i)"
    and ok: "buf_ok s x"
    and uniq: "\<And>j. j < NBUF \<Longrightarrow> j \<noteq> i \<Longrightarrow> b_valid x \<Longrightarrow> b_valid (buf_at s j) \<Longrightarrow> b_blockno (buf_at s j) \<noteq> b_blockno x"
    and free: "h = None \<Longrightarrow> idle_buf (put_buf i x l s) i"
    and held: "\<And>b. h = Some b \<Longrightarrow> owned pid (put_buf i x l s) i b"
  shows "cache_inv pid (H(i := h)) (put_buf i x l s)"
proof -
  have len: "i < length (bufs s)" using i cache_invD(1) [OF inv] by simp
  obtain xs where "dll (bufs s) xs" using inv unfolding cache_inv_def by metis
  then have "dll (bufs (put_buf i x l s)) xs" by (rule dll_frame) (use links len in auto)
  moreover have "\<forall>d \<in> set (disk s). length d = BSIZE" using cache_invD(2) [OF inv] by blast
  moreover have "\<forall>j < NBUF. buf_ok s (buf_at (put_buf i x l s) j)" using cache_invD(3) [OF inv] ok len by auto
  moreover have "j = k" if "j < NBUF" "k < NBUF" "b_valid (buf_at (put_buf i x l s) j)" "b_valid (buf_at (put_buf i x l s) k)"
    "b_blockno (buf_at (put_buf i x l s) j) = b_blockno (buf_at (put_buf i x l s) k)" for j k
    using that cache_invD(4) [OF inv, of j k] uniq [of j] uniq [of k] len by (auto split: if_splits)
  moreover have "idle_buf (put_buf i x l s) j" if "j < NBUF" "(H(i := h)) j = None" for j
    using that free cache_invD(5) [OF inv, of j] len by (cases "j = i") (auto simp: idle_buf_def)
  moreover have "j < NBUF \<and> owned pid (put_buf i x l s) j b" if "(H(i := h)) j = Some b" for j b
    using that held i cache_invD(6,7) [OF inv, of j b] len by (cases "j = i") (auto simp: owned_def)
  ultimately show ?thesis unfolding cache_inv_def put_buf_simps(2,5) by blast
qed

lemma blk_put_buf:
  assumes inv: "cache_inv pid H s" and inv': "cache_inv pid H' (put_buf i x l s)" and i: "i < NBUF" and v: "b_valid x"
    and old: "b_valid (buf_at s i) \<Longrightarrow> b_blockno (buf_at s i) \<noteq> b_blockno x \<Longrightarrow>
      b_data (buf_at s i) = disk s ! unat (b_blockno (buf_at s i))"
  shows "blk (put_buf i x l s) = (blk s)(b_blockno x := b_data x)"
proof
  fix b
  have len: "i < length (bufs s)" using i cache_invD(1) [OF inv] by simp
  note new = put_buf_simps(4) [OF len, of x l]
  show "blk (put_buf i x l s) b = ((blk s)(b_blockno x := b_data x)) b"
  proof (cases "b = b_blockno x")
    case True
    then show ?thesis using blk_cached [OF inv' i] v new by simp
  next
    case False
    show ?thesis
    proof (cases "\<exists>j < NBUF. j \<noteq> i \<and> b_valid (buf_at s j) \<and> b_blockno (buf_at s j) = b")
      case True
      then obtain j where j: "j < NBUF" "j \<noteq> i" "b_valid (buf_at s j)" "b_blockno (buf_at s j) = b" by blast
      then have "blk (put_buf i x l s) b = b_data (buf_at s j)" using blk_cached [OF inv' j(1)] new by simp
      then show ?thesis using blk_cached [OF inv j(1,3)] j(4) False by simp
    next
      case none: False
      have "b_blockno (buf_at (put_buf i x l s) j) \<noteq> b" if "j < NBUF" "b_valid (buf_at (put_buf i x l s) j)" for j
        using that none False unfolding new by (auto split: if_splits)
      then have n: "blk (put_buf i x l s) b = disk s ! unat b" using blk_uncached [OF inv'] by simp
      show ?thesis
      proof (cases "b_valid (buf_at s i) \<and> b_blockno (buf_at s i) = b")
        case True
        then show ?thesis using old blk_cached [OF inv i] False n by auto
      next
        case no: False
        then have "blk s b = disk s ! unat b" using none blk_uncached [OF inv, of b] by blast
        then show ?thesis using n False by simp
      qed
    qed
  qed
qed

lemma dirt_put_buf:
  assumes "cache_inv pid H s" and "i < NBUF"
  shows "dirt (put_buf i x l s) = {b. \<exists>j < NBUF. j \<noteq> i \<and> b_dirty (buf_at s j) \<and> b_blockno (buf_at s j) = b} \<union>
     (if b_dirty x then {b_blockno x} else {})"
  using assms(2) cache_invD(1) [OF assms(1)] by (auto simp: dirt_def)

section \<open>The rules\<close>

definition same_cache :: "kernel \<Rightarrow> kernel \<Rightarrow> bool" where
  "same_cache s s' \<longleftrightarrow> blk s' = blk s \<and> dirt s' = dirt s \<and> disk s' = disk s \<and> rest s' = rest s"

lemma put_buf_eq:
  "s\<lparr>bufs := (bufs s)[i := x], sleeplocks := (sleeplocks s)(SL_buf i := l)\<rparr> = put_buf i x l s"
  "s\<lparr>bufs := (bufs s)[i := x]\<rparr> = put_buf i x (sleeplocks s (SL_buf i)) s"
  by (simp_all add: put_buf_def)

text \<open>Holding one more buffer: a hit, or a buffer recycled and filled.\<close>

lemma hold_inv:
  assumes inv: "cache_inv pid H s" and i: "i < NBUF" "H i = None"
    and x: "b_next x = b_next (buf_at s i)" "b_prev x = b_prev (buf_at s i)" "b_valid x" "b_refcnt x = 1" "b_dev x = 1"
      "length (b_data x) = BSIZE" "unat (b_blockno x) < length (disk s)" "b_data x = blk s (b_blockno x)"
    and same: "b_valid (buf_at s i) \<and> b_blockno (buf_at s i) = b_blockno x \<and> b_dirty x = b_dirty (buf_at s i) \<or>
      \<not> b_dirty (buf_at s i) \<and> \<not> b_dirty x \<and> (\<forall>j < NBUF. b_valid (buf_at s j) \<longrightarrow> b_blockno (buf_at s j) \<noteq> b_blockno x)"
    and l: "sl_locked l" "sl_pid l = pid"
  shows "cache_inv pid (H(i \<mapsto> b_blockno x)) (put_buf i x l s) \<and> same_cache s (put_buf i x l s)"
proof -
  have len: "i < length (bufs s)" using i cache_invD(1) [OF inv] by simp
  have idle: "idle_buf s i" using cache_invD(5) [OF inv] i by blast
  have ok: "buf_ok s x" using x by (simp add: buf_ok_def)
  have uniq: "b_blockno (buf_at s j) \<noteq> b_blockno x" if "j < NBUF" "j \<noteq> i" "b_valid (buf_at s j)" for j
    using that same cache_invD(4) [OF inv, of j i] i by metis
  have own: "owned pid (put_buf i x l s) i (b_blockno x)" using x l len by (simp add: owned_def)
  have inv': "cache_inv pid (H(i \<mapsto> b_blockno x)) (put_buf i x l s)"
    by (rule put_buf_inv [OF inv i(1) x(1,2) ok]) (use uniq own in auto)
  have "blk (put_buf i x l s) = (blk s)(b_blockno x := b_data x)"
    by (rule blk_put_buf [OF inv inv' i(1) x(3)]) (use same idle in \<open>auto simp: idle_buf_def\<close>)
  then have "blk (put_buf i x l s) = blk s" using x(8) by auto
  moreover have "dirt (put_buf i x l s) = dirt s"
    unfolding dirt_put_buf [OF inv i(1)] using same i(1) by (auto simp: dirt_def)
  ultimately show ?thesis using inv' by (simp add: same_cache_def)
qed

lemma fs_run_iderw:
  assumes "iderw_body i s = Ok () s'" and "sl_locked (sleeplocks s (SL_buf i))" and "sl_pid (sleeplocks s (SL_buf i)) = pid"
  shows "fs_run pid (iderw i) s () s'"
  unfolding iderw_def using assms(2,3)
  by (intro fs_run_bind [OF fs_run_holdingsleep]) (simp add: iderw.fs_run_plain [OF assms(1)])

lemma bread_steps:
  assumes "fs_run pid (with_lock L_bcache (bget_body dev b)) s i s1" and "fs_run pid (acquiresleep (SL_buf i)) s1 () s2"
    and "if b_valid (buf_at s2 i) then s3 = s2 else fs_run pid (iderw i) s2 () s3"
  shows "fs_run pid (bread dev b) s i s3"
proof -
  have "fs_run pid (bget dev b) s i s2"
    unfolding bget_def by (rule fs_run_bind, rule assms(1), rule fs_run_seq, rule assms(2), rule fs_run_ret)
  moreover have "fs_run pid (gets (\<lambda>k. b_valid (buf_at k i))) s2 (b_valid (buf_at s2 i)) s2"
    by (rule fs_run_gets) simp
  moreover have "fs_run pid (seq (do_if (\<not> b_valid (buf_at s2 i)) (iderw i)) (ret i)) s2 i s3"
    by (rule fs_run_seq [where x = "()" and ?s1.0 = s3]) (use assms(3) in \<open>auto simp: do_if_def split: if_splits\<close>)
  ultimately show ?thesis unfolding bread_def by (intro fs_run_bind)
qed

lemma bread_run:
  assumes inv: "cache_inv pid H s" and new: "\<And>i. H i \<noteq> Some b" and b: "unat b < length (disk s)"
    and room: "(\<exists>i < NBUF. b_valid (buf_at s i) \<and> b_blockno (buf_at s i) = b) \<or> (\<exists>i < NBUF. H i = None \<and> \<not> b_dirty (buf_at s i))"
  shows "\<exists>i s'. fs_run pid (bread 1 b) s i s' \<and> H i = None \<and> cache_inv pid (H(i \<mapsto> b)) s' \<and> same_cache s s'"
proof -
  obtain xs where xs: "dll (bufs s) xs" using inv unfolding cache_inv_def by metis
  have in_xs: "i \<in> set xs \<longleftrightarrow> i < NBUF" for i using xs unfolding dll_def by (metis lessThan_iff)
  have blkb: "is_block 1 b (buf_at s i) \<longleftrightarrow> b_valid (buf_at s i) \<and> b_blockno (buf_at s i) = b" if "i < NBUF" for i
    using cache_invD(3) [OF inv that] by (auto simp: is_block_def buf_ok_def)
  note body = bget_body_cases [OF xs, of 1 b]
  show ?thesis
  proof (cases "find (\<lambda>i. is_block 1 b (buf_at s i)) xs")
    case (Some i)
    from find_Some_in [OF Some] have i: "i < NBUF" "b_valid (buf_at s i)" "b_blockno (buf_at s i) = b"
      using in_xs blkb by blast+
    then have Hi: "H i = None" using new [of i] cache_invD(7) [OF inv, of i] by (cases "H i") (auto simp: owned_def)
    have len: "i < length (bufs s)" using i cache_invD(1) [OF inv] by simp
    have idle: "idle_buf s i" and ok: "buf_ok s (buf_at s i)" using cache_invD(5,3) [OF inv i(1)] Hi by blast+
    let ?x = "(buf_at s i)\<lparr>b_refcnt := 1\<rparr>" and ?l = "(sleeplocks s (SL_buf i))\<lparr>sl_locked := True, sl_pid := pid\<rparr>"
    have "bget_body 1 b s = Ok i (s\<lparr>bufs := (bufs s)[i := ?x]\<rparr>)" 
      unfolding body Some option.case using idle by (simp only: idle_buf_def add_0)
    from bget.fs_run_locked [OF this] have r1: "fs_run pid (with_lock L_bcache (bget_body 1 b)) s i (s\<lparr>bufs := (bufs s)[i := ?x]\<rparr>)" .
    have r2: "fs_run pid (acquiresleep (SL_buf i)) (s\<lparr>bufs := (bufs s)[i := ?x]\<rparr>) () (put_buf i ?x ?l s)"
      using fs_run_acquiresleep [of "s\<lparr>bufs := (bufs s)[i := ?x]\<rparr>" "SL_buf i" pid] idle
      by (simp add: put_buf_def idle_buf_def)
    have v: "b_valid (buf_at (put_buf i ?x ?l s) i)" using i len by simp
    have "fs_run pid (bread 1 b) s i (put_buf i ?x ?l s)"
      by (rule bread_steps [OF r1 r2]) (use v in simp)
    moreover have "cache_inv pid (H(i \<mapsto> b)) (put_buf i ?x ?l s) \<and> same_cache s (put_buf i ?x ?l s)"
    proof -
      have x: "b_dev (buf_at s i) = 1" "length (b_data (buf_at s i)) = BSIZE" "blk s b = b_data (buf_at s i)"
        using ok i blk_cached [OF inv i(1,2)] unfolding buf_ok_def by auto
      have "cache_inv pid (H(i \<mapsto> b_blockno ?x)) (put_buf i ?x ?l s) \<and> same_cache s (put_buf i ?x ?l s)"
        by (rule hold_inv [OF inv i(1) Hi]) (simp_all add: i x b)
      then show ?thesis by (simp add: i(3))
    qed
    ultimately show ?thesis using Hi by blast
  next
    case None
    then have no: "\<forall>j < NBUF. b_valid (buf_at s j) \<longrightarrow> b_blockno (buf_at s j) \<noteq> b"
      using in_xs blkb by (fastforce simp: find_None_iff)
    with room obtain i0 where "i0 < NBUF" "H i0 = None" "\<not> b_dirty (buf_at s i0)" by blast
    then have "unused_buf (buf_at s i0)" "i0 \<in> set (rev xs)"
      using cache_invD(5) [OF inv] in_xs by (auto simp: unused_buf_def idle_buf_def)
    then obtain i where Some: "find (\<lambda>i. unused_buf (buf_at s i)) (rev xs) = Some i"
      by (cases "find (\<lambda>i. unused_buf (buf_at s i)) (rev xs)") (auto simp: find_None_iff)
    from find_Some_in [OF Some] have i: "i < NBUF" "b_refcnt (buf_at s i) = 0" "\<not> b_dirty (buf_at s i)"
      using in_xs by (auto simp: unused_buf_def)
    have Hi: "H i = None" using i(2) cache_invD(7) [OF inv, of i] by (cases "H i") (auto simp: owned_def)
    have len: "i < length (bufs s)" using i cache_invD(1) [OF inv] by simp
    have idle: "idle_buf s i" using cache_invD(5) [OF inv i(1)] Hi by blast
    let ?x = "(buf_at s i)\<lparr>b_dev := 1, b_blockno := b, b_valid := False, b_dirty := False, b_refcnt := 1\<rparr>"
    let ?y = "?x\<lparr>b_data := disk s ! unat b, b_valid := True\<rparr>"
    let ?l = "(sleeplocks s (SL_buf i))\<lparr>sl_locked := True, sl_pid := pid\<rparr>"
    have "bget_body 1 b s = Ok i (s\<lparr>bufs := (bufs s)[i := ?x]\<rparr>)" 
      unfolding body None Some option.case by (rule refl)
    from bget.fs_run_locked [OF this] have r1: "fs_run pid (with_lock L_bcache (bget_body 1 b)) s i (s\<lparr>bufs := (bufs s)[i := ?x]\<rparr>)" .
    have r2: "fs_run pid (acquiresleep (SL_buf i)) (s\<lparr>bufs := (bufs s)[i := ?x]\<rparr>) () (put_buf i ?x ?l s)"
      using fs_run_acquiresleep [of "s\<lparr>bufs := (bufs s)[i := ?x]\<rparr>" "SL_buf i" pid] idle
      by (simp add: put_buf_def idle_buf_def)
    have v: "\<not> b_valid (buf_at (put_buf i ?x ?l s) i)" using len by simp
    have "iderw_body i (put_buf i ?x ?l s) = Ok () (put_buf i ?y ?l s)"
      using len b by (simp add: iderw_body_def put_buf_def)
    then have r3: "fs_run pid (iderw i) (put_buf i ?x ?l s) () (put_buf i ?y ?l s)"
      by (rule fs_run_iderw) simp_all
    have "fs_run pid (bread 1 b) s i (put_buf i ?y ?l s)"
      by (rule bread_steps [OF r1 r2]) (use v r3 in simp)
    moreover have "cache_inv pid (H(i \<mapsto> b)) (put_buf i ?y ?l s) \<and> same_cache s (put_buf i ?y ?l s)"
    proof -
      have y: "blk s b = disk s ! unat b" "length (disk s ! unat b) = BSIZE"
        using no b cache_invD(2) [OF inv] blk_uncached [OF inv, of b] by auto
      have "cache_inv pid (H(i \<mapsto> b_blockno ?y)) (put_buf i ?y ?l s) \<and> same_cache s (put_buf i ?y ?l s)"
        by (rule hold_inv [OF inv i(1) Hi]) (simp_all add: i y b no)
      then show ?thesis by simp
    qed
    ultimately show ?thesis using Hi by blast
  qed
qed

text \<open>A change of a held buffer.\<close>

lemma held_other:
  assumes "cache_inv pid H s" and "H i = Some b" and "j < NBUF" and "j \<noteq> i" and "b_valid (buf_at s j)"
  shows "b_blockno (buf_at s j) \<noteq> b"
  using cache_invD(4) [OF assms(1), of j i] cache_invD(6,7) [OF assms(1,2)] assms(3-) unfolding owned_def by metis

lemma held_upd:
  assumes inv: "cache_inv pid H s" and h: "H i = Some b"
    and x: "x = f (buf_at s i)" "b_next x = b_next (buf_at s i)" "b_prev x = b_prev (buf_at s i)" "b_valid x"
      "b_blockno x = b" "b_refcnt x = 1" "b_dev x = b_dev (buf_at s i)" "length (b_data x) = BSIZE"
  shows "cache_inv pid H (s\<lparr>bufs := upd_at i f (bufs s)\<rparr>) \<and>
     blk (s\<lparr>bufs := upd_at i f (bufs s)\<rparr>) = (blk s)(b := b_data x) \<and>
     dirt (s\<lparr>bufs := upd_at i f (bufs s)\<rparr>) = (if b_dirty x then insert b (dirt s) else dirt s - {b}) \<and>
     rest (s\<lparr>bufs := upd_at i f (bufs s)\<rparr>) = rest s"
proof -
  have i: "i < NBUF" and own: "owned pid s i b" using cache_invD(6,7) [OF inv h] by blast+
  have len: "i < length (bufs s)" using i cache_invD(1) [OF inv] by simp
  have b: "b_blockno (buf_at s i) = b" "b_valid (buf_at s i)" using own by (simp_all add: owned_def)
  let ?l = "sleeplocks s (SL_buf i)"
  have e: "s\<lparr>bufs := upd_at i f (bufs s)\<rparr> = put_buf i x ?l s" unfolding x(1) by (rule put_buf_eq(2))
  have ok: "buf_ok s x" using cache_invD(3) [OF inv i] x b by (simp add: buf_ok_def)
  note other = held_other [OF inv h]
  have "cache_inv pid (H(i := Some b)) (put_buf i x ?l s)"
    by (rule put_buf_inv [OF inv i x(2,3) ok]) (use other x own len in \<open>auto simp: owned_def\<close>)
  moreover have H: "H(i := Some b) = H" using h by auto
  ultimately have inv': "cache_inv pid H (put_buf i x ?l s)" by simp
  have "blk (put_buf i x ?l s) = (blk s)(b_blockno x := b_data x)"
    by (rule blk_put_buf [OF inv inv' i x(4)]) (use x b in simp)
  moreover have "dirt (put_buf i x ?l s) = (if b_dirty x then insert b (dirt s) else dirt s - {b})"
  proof -
    have "{c. \<exists>j < NBUF. j \<noteq> i \<and> b_dirty (buf_at s j) \<and> b_blockno (buf_at s j) = c} = dirt s - {b}"
      using other b cache_invD(3) [OF inv] unfolding dirt_def buf_ok_def by blast
    then show ?thesis unfolding dirt_put_buf [OF inv i] x(5) by auto
  qed
  ultimately show ?thesis unfolding e using inv' x(5) by simp
qed

lemma fs_run_set_buf: "fs_run pid (set_buf i f) s () (s\<lparr>bufs := upd_at i f (bufs s)\<rparr>)"
  unfolding set_buf_def by (rule fs_run_modify) simp

lemma disk_upd:
  assumes inv: "cache_inv pid H s" and h: "H i = Some b" and d: "length d = BSIZE"
  shows "cache_inv pid H (s\<lparr>disk := (disk s)[unat b := d]\<rparr>) \<and> blk (s\<lparr>disk := (disk s)[unat b := d]\<rparr>) = blk s \<and>
     dirt (s\<lparr>disk := (disk s)[unat b := d]\<rparr>) = dirt s \<and> rest (s\<lparr>disk := (disk s)[unat b := d]\<rparr>) = rest s"
proof -
  let ?t = "s\<lparr>disk := (disk s)[unat b := d]\<rparr>"
  have i: "i < NBUF" and own: "owned pid s i b" using cache_invD(6,7) [OF inv h] by blast+
  have ok: "buf_ok ?t = buf_ok s" by (auto simp: buf_ok_def fun_eq_iff)
  note other = held_other [OF inv h]
  have "idle_buf ?t j" if j: "j < NBUF" "H j = None" for j
  proof -
    have "j \<noteq> i" using j h by auto
    then have "b_valid (buf_at s j) \<Longrightarrow> unat (b_blockno (buf_at s j)) \<noteq> unat b"
      using other [OF j(1)] by (simp add: word_unat_eq_iff)
    then show ?thesis using cache_invD(5) [OF inv j] unfolding idle_buf_def by auto
  qed
  moreover have "\<forall>c \<in> set ((disk s)[unat b := d]). length c = BSIZE"
    using cache_invD(2) [OF inv] d by (auto dest!: set_update_subset_insert [THEN subsetD])
  moreover have "owned pid ?t = owned pid s" by (simp add: owned_def fun_eq_iff)
  moreover obtain xs where "dll (bufs s) xs" using inv unfolding cache_inv_def by metis
  moreover note cache_invD(3,4,6,7) [OF inv]
  ultimately have inv': "cache_inv pid H ?t" by (intro cache_invI [of ?t xs]) (simp_all add: ok)
  moreover have "blk ?t = blk s"
  proof
    fix c
    show "blk ?t c = blk s c"
    proof (cases "\<exists>j < NBUF. b_valid (buf_at s j) \<and> b_blockno (buf_at s j) = c")
      case True
      then obtain j where "j < NBUF" "b_valid (buf_at s j)" "b_blockno (buf_at s j) = c" by blast
      then show ?thesis using blk_cached [OF inv, of j] blk_cached [OF inv', of j] by simp
    next
      case False
      then have "c \<noteq> b" using own i unfolding owned_def by blast
      then show ?thesis using False blk_uncached [OF inv, of c] blk_uncached [OF inv', of c]
        by (auto simp: nth_list_update word_unat_eq_iff)
    qed
  qed
  moreover have "dirt ?t = dirt s" "rest ?t = rest s" by (simp_all add: dirt_def)
  ultimately show ?thesis by blast
qed

lemma bwrite_run:
  assumes inv: "cache_inv pid H s" and h: "H i = Some b"
  shows "\<exists>s'. fs_run pid (bwrite i) s () s' \<and> cache_inv pid H s' \<and> blk s' = blk s \<and> dirt s' = dirt s - {b} \<and>
     disk s' = (disk s)[unat b := blk s b] \<and> rest s' = rest s"
proof -
  have i: "i < NBUF" and own: "owned pid s i b" using cache_invD(6,7) [OF inv h] by blast+
  have len: "i < length (bufs s)" using i cache_invD(1) [OF inv] by simp
  have ok: "buf_ok s (buf_at s i)" using cache_invD(3) [OF inv i] .
  have b: "b_blockno (buf_at s i) = b" "b_valid (buf_at s i)" "b_refcnt (buf_at s i) = 1" using own by (simp_all add: owned_def)
  have d: "b_data (buf_at s i) = blk s b" using blk_held [OF inv h] by simp
  let ?f = "\<lambda>y. y\<lparr>b_dirty := False, b_valid := True\<rparr>"
  let ?s1 = "s\<lparr>bufs := upd_at i (\<lambda>y. y\<lparr>b_dirty := True\<rparr>) (bufs s)\<rparr>"
  let ?s2 = "s\<lparr>bufs := upd_at i ?f (bufs s)\<rparr>"
  let ?s3 = "?s2\<lparr>disk := (disk ?s2)[unat b := blk s b]\<rparr>"
  have 2: "cache_inv pid H ?s2 \<and> blk ?s2 = (blk s)(b := b_data (?f (buf_at s i))) \<and>
     dirt ?s2 = (if b_dirty (?f (buf_at s i)) then insert b (dirt s) else dirt s - {b}) \<and> rest ?s2 = rest s"
    by (rule held_upd [OF inv h refl]) (use b ok in \<open>simp_all add: buf_ok_def\<close>)
  have "cache_inv pid H ?s3 \<and> blk ?s3 = blk ?s2 \<and> dirt ?s3 = dirt ?s2 \<and> rest ?s3 = rest ?s2"
    by (rule disk_upd [where i = i]) (use 2 h ok d in \<open>simp_all add: buf_ok_def\<close>)
  moreover have "(blk s)(b := b_data (?f (buf_at s i))) = blk s" using d by (auto simp: fun_eq_iff)
  ultimately have post: "cache_inv pid H ?s3 \<and> blk ?s3 = blk s \<and> dirt ?s3 = dirt s - {b} \<and> rest ?s3 = rest s"
    using 2 by (simp del: fun_upd_apply)
  have "iderw_body i ?s1 = Ok () ?s3" using ok b len d by (simp add: iderw_body_def buf_ok_def)
  then have "fs_run pid (iderw i) ?s1 () ?s3" by (rule fs_run_iderw) (use own in \<open>simp_all add: owned_def\<close>)
  then have "fs_run pid (block [set_buf i (\<lambda>y. y\<lparr>b_dirty := True\<rparr>), iderw i]) s () ?s3"
    by (intro fs_run_block_Cons [OF fs_run_set_buf] fs_run_block_Cons [OF _ fs_run_block_Nil])
  moreover have "sl_locked (sleeplocks s (SL_buf i)) \<and> sl_pid (sleeplocks s (SL_buf i)) = pid" using own by (simp add: owned_def)
  ultimately have "fs_run pid (bwrite i) s () ?s3"
    unfolding bwrite_def by (intro fs_run_bind [OF fs_run_holdingsleep]) simp
  then show ?thesis using post by auto
qed

lemma relink:
  assumes inv: "cache_inv pid H s" and d: "dll bs xs" and c: "\<And>j. core (bs ! j) = core (buf_at s j)"
  shows "cache_inv pid H (s\<lparr>bufs := bs\<rparr>) \<and> same_cache s (s\<lparr>bufs := bs\<rparr>)"
proof -
  note f = core_fields [OF c]
  have len: "length bs = length (bufs s)" using d cache_invD(1) [OF inv] by (simp add: dll_def)
  have "buf_ok (s\<lparr>bufs := bs\<rparr>) (bs ! j) = buf_ok s (buf_at s j)" "idle_buf (s\<lparr>bufs := bs\<rparr>) j = idle_buf s j"
    "owned pid (s\<lparr>bufs := bs\<rparr>) j b = owned pid s j b" for j b
    by (simp_all add: buf_ok_def idle_buf_def owned_def f)
  then have inv': "cache_inv pid H (s\<lparr>bufs := bs\<rparr>)"
    using d cache_invD(2-) [OF inv] by (intro cache_invI [of _ xs]) (simp_all add: f)
  have "blk (s\<lparr>bufs := bs\<rparr>) b = blk s b" for b
  proof (cases "\<exists>j < NBUF. b_valid (buf_at s j) \<and> b_blockno (buf_at s j) = b")
    case True
    then obtain j where "j < NBUF" "b_valid (buf_at s j)" "b_blockno (buf_at s j) = b" by blast
    then show ?thesis using blk_cached [OF inv, of j] blk_cached [OF inv', of j] by (simp add: f)
  next
    case False
    then show ?thesis using blk_uncached [OF inv, of b] blk_uncached [OF inv', of b] by (auto simp: f)
  qed
  then show ?thesis using inv' by (auto simp: same_cache_def dirt_def f fun_eq_iff)
qed

lemma brelse_run:
  assumes inv: "cache_inv pid H s" and h: "H i = Some b" and coh: "b \<in> dirt s \<or> blk s b = disk s ! unat b"
  shows "\<exists>s'. fs_run pid (brelse i) s () s' \<and> cache_inv pid (H(i := None)) s' \<and> same_cache s s'"
proof -
  have i: "i < NBUF" and own: "owned pid s i b" using cache_invD(6,7) [OF inv h] by blast+
  have len: "i < length (bufs s)" using i cache_invD(1) [OF inv] by simp
  have ok: "buf_ok s (buf_at s i)" using cache_invD(3) [OF inv i] .
  have b: "b_blockno (buf_at s i) = b" "b_valid (buf_at s i)" "b_refcnt (buf_at s i) = 1" using own by (simp_all add: owned_def)
  have d: "b_data (buf_at s i) = blk s b" using blk_held [OF inv h] by simp
  let ?l = "(sleeplocks s (SL_buf i))\<lparr>sl_locked := False, sl_pid := 0\<rparr>" and ?x = "(buf_at s i)\<lparr>b_refcnt := 0\<rparr>"
  let ?s1 = "s\<lparr>sleeplocks := (sleeplocks s)(SL_buf i := ?l)\<rparr>" and ?s2 = "put_buf i ?x ?l s"
  have dirty: "b_dirty (buf_at s i) \<longleftrightarrow> b \<in> dirt s"
    using held_other [OF inv h] cache_invD(3) [OF inv] dirtI [OF i] b unfolding dirt_def buf_ok_def by blast
  have 2: "cache_inv pid (H(i := None)) ?s2"
    by (rule put_buf_inv [OF inv i]) (use ok b d coh dirty len held_other [OF inv h] in \<open>auto simp: buf_ok_def idle_buf_def\<close>)
  have "blk ?s2 = (blk s)(b_blockno ?x := b_data ?x)"
    by (rule blk_put_buf [OF inv 2 i]) (use b in simp_all)
  then have "blk ?s2 = blk s" using d b by (auto simp: fun_eq_iff)
  moreover have "dirt ?s2 = dirt s" unfolding dirt_put_buf [OF inv i] using i by (auto simp: dirt_def)
  ultimately have same: "same_cache s ?s2" by (simp add: same_cache_def)
  obtain xs where xs: "dll (bufs ?s2) xs" using 2 unfolding cache_inv_def by metis
  then have "i \<in> set xs" using i unfolding dll_def by (metis lessThan_iff)
  then obtain us vs where "xs = us @ i # vs" by (meson split_list)
  with dll_move_front xs have front: "dll (push_front i (unlink i (bufs ?s2))) (i # us @ vs)" by blast
  let ?s3 = "?s2\<lparr>bufs := push_front i (unlink i (bufs ?s2))\<rparr>"
  have 3: "cache_inv pid (H(i := None)) ?s3 \<and> same_cache ?s2 ?s3"
    by (rule relink [OF 2 front core_move])
  have e: "?s1\<lparr>bufs := upd_at i (\<lambda>y. y\<lparr>b_refcnt := b_refcnt y - 1\<rparr>) (bufs ?s1)\<rparr> = ?s2"
    using b by (simp add: put_buf_def)
  have "brelse_body i ?s1 = move_front i ?s2"
    unfolding brelse_body_def seq_apply set_buf_apply res.case e bind_apply gets_apply using len by simp
  also have "\<dots> = Ok () ?s3" by (rule move_front_eq) (use len in simp)
  finally have r: "fs_run pid (with_lock L_bcache (brelse_body i)) ?s1 () ?s3" by (rule brelse.fs_run_locked)
  have "fs_run pid (block [releasesleep (SL_buf i), with_lock L_bcache (brelse_body i)]) s () ?s3"
    by (intro fs_run_block_Cons [OF fs_run_releasesleep] fs_run_block_Cons [OF r fs_run_block_Nil])
  moreover have "sl_locked (sleeplocks s (SL_buf i)) \<and> sl_pid (sleeplocks s (SL_buf i)) = pid" using own by (simp add: owned_def)
  ultimately have "fs_run pid (brelse i) s () ?s3"
    unfolding brelse_def by (intro fs_run_bind [OF fs_run_holdingsleep]) simp
  moreover have "same_cache s ?s3" using same 3 by (simp add: same_cache_def)
  ultimately show ?thesis using 3 by blast
qed

end
