(* ===== verification/Log.thy ===== *)
theory Log
  imports Cache
begin

unbundle bit_operations_syntax

text \<open>
  \<^verbatim>\<open>log.c\<close>: the redo log of the file system, and \<^verbatim>\<open>readsb()\<close> of \<^verbatim>\<open>fs.c\<close>.
  The header block on the disk holds the count of logged blocks and their numbers, as little-endian
  words; \<open>ld32\<close> and \<open>st32\<close> read and write them in the bytes of a block.

  A wait in \<^verbatim>\<open>begin_op()\<close> ends its first part; \<open>begin_op_resume\<close> is what runs when the
  process wakes up.
\<close>

section \<open>Words in a block\<close>

definition ld32 :: "uchar list \<Rightarrow> nat \<Rightarrow> uint" where
  "ld32 d i = ucast (d ! i) OR push_bit 8 (ucast (d ! (i + 1))) OR push_bit 16 (ucast (d ! (i + 2)))
     OR push_bit 24 (ucast (d ! (i + 3)))"

definition st32 :: "uchar list \<Rightarrow> nat \<Rightarrow> uint \<Rightarrow> uchar list" where
  "st32 d i w = d[i := byte_of w 0, i + 1 := byte_of w 1, i + 2 := byte_of w 2, i + 3 := byte_of w 3]"

section \<open>The super block\<close>

definition sb_of_bytes :: "uchar list \<Rightarrow> superblock" where
  "sb_of_bytes d = \<lparr>sb_size = ld32 d 0, sb_nblocks = ld32 d 4, sb_ninodes = ld32 d 8, sb_nlog = ld32 d 12,
     sb_logstart = ld32 d 16, sb_inodestart = ld32 d 20, sb_bmapstart = ld32 d 24\<rparr>"

definition readsb :: "uint \<Rightarrow> superblock kop" where
  "readsb dev =
     bind (bread dev 1) (\<lambda>bp.
     bind (gets (\<lambda>k. sb_of_bytes (b_data (buf_at k bp)))) (\<lambda>x.
     seq (brelse bp) (ret x)))"

section \<open>The log\<close>

definition set_log :: "(log \<Rightarrow> log) \<Rightarrow> unit kop" where
  "set_log f = modify (\<lambda>k. k\<lparr>log := f (log k)\<rparr>)"

text \<open>\<^verbatim>\<open>memmove(to->data, from->data, BSIZE)\<close>.\<close>

definition copy_buf :: "nat \<Rightarrow> nat \<Rightarrow> unit kop" where
  "copy_buf dst src = bind (gets (\<lambda>k. b_data (buf_at k src))) (\<lambda>d. set_buf dst (\<lambda>y. y\<lparr>b_data := d\<rparr>))"

definition install_step :: "nat \<Rightarrow> unit kop" where
  "install_step tail =
     bind (gets log) (\<lambda>l.
     bind (bread (log_dev l) (log_start l + of_nat tail + 1)) (\<lambda>lbuf.
     bind (bread (log_dev l) (lh_block l ! tail)) (\<lambda>dbuf.
     block [copy_buf dbuf lbuf, bwrite dbuf, brelse lbuf, brelse dbuf])))"

definition install_trans :: "unit kop" where
  "install_trans = bind (gets (\<lambda>k. lh_n (log k))) (\<lambda>n. for_each [0..<nat n] install_step)"

text \<open>A count in the header beyond the array would be written past its end.\<close>

definition read_head :: "unit kop" where
  "read_head =
     bind (gets log) (\<lambda>l.
     bind (bread (log_dev l) (log_start l)) (\<lambda>b.
     bind (gets (\<lambda>k. b_data (buf_at k b))) (\<lambda>lh.
     seq (set_log (\<lambda>l. l\<lparr>lh_n := sint (ld32 lh 0)\<rparr>))
     (if sint (ld32 lh 0) > int LOGSIZE then undef ''log header out of range''
      else seq (set_log (\<lambda>l. l\<lparr>lh_block :=
          foldl (\<lambda>bs i. bs[i := ld32 lh (4 + 4 * i)]) (lh_block l) [0..<nat (lh_n l)]\<rparr>))
        (brelse b)))))"

definition head_data :: "log \<Rightarrow> uchar list \<Rightarrow> uchar list" where
  "head_data l d = foldl (\<lambda>d i. st32 d (4 + 4 * i) (lh_block l ! i)) (st32 d 0 (word_of_int (lh_n l))) [0..<nat (lh_n l)]"

definition write_head :: "unit kop" where
  "write_head =
     bind (gets log) (\<lambda>l.
     bind (bread (log_dev l) (log_start l)) (\<lambda>b. block
       [bind (gets (\<lambda>k. b_data (buf_at k b))) (\<lambda>d. set_buf b (\<lambda>y. y\<lparr>b_data := head_data l d\<rparr>)),
        bwrite b, brelse b]))"

definition recover_from_log :: "unit kop" where
  "recover_from_log = block [read_head, install_trans, set_log (\<lambda>l. l\<lparr>lh_n := 0\<rparr>), write_head]"

definition initlog :: "uint \<Rightarrow> unit kop" where
  "initlog dev =
     (if 4 * (1 + LOGSIZE) \<ge> BSIZE then panic ''initlog: too big logheader''
      else seq (initlock L_log ''log'')
        (bind (readsb dev) (\<lambda>x. block
          [set_log (\<lambda>l. l\<lparr>log_start := sb_logstart x\<rparr>),
           set_log (\<lambda>l. l\<lparr>log_size := sint (sb_nlog x)\<rparr>),
           set_log (\<lambda>l. l\<lparr>log_dev := dev\<rparr>),
           recover_from_log])))"

section \<open>Transactions\<close>

definition begin_op_loop :: "unit kop" where
  "begin_op_loop =
     bind (gets log) (\<lambda>l.
     if log_committing l then sleep Ch_log L_log
     else if lh_n l + (log_outstanding l + 1) * int MAXOPBLOCKS > int LOGSIZE then sleep Ch_log L_log
     else block [set_log (\<lambda>l. l\<lparr>log_outstanding := log_outstanding l + 1\<rparr>), release L_log])"

definition begin_op :: "unit kop" where
  "begin_op = block [acquire L_log, begin_op_loop]"

definition begin_op_resume :: "unit kop" where
  "begin_op_resume = block [sleep_resume L_log, begin_op_loop]"

definition write_log_step :: "nat \<Rightarrow> unit kop" where
  "write_log_step tail =
     bind (gets log) (\<lambda>l.
     bind (bread (log_dev l) (log_start l + of_nat tail + 1)) (\<lambda>to.
     bind (bread (log_dev l) (lh_block l ! tail)) (\<lambda>from.
     block [copy_buf to from, bwrite to, brelse from, brelse to])))"

definition write_log :: "unit kop" where
  "write_log = bind (gets (\<lambda>k. lh_n (log k))) (\<lambda>n. for_each [0..<nat n] write_log_step)"

definition commit :: "unit kop" where
  "commit =
     bind (gets (\<lambda>k. lh_n (log k))) (\<lambda>n.
     do_if (n > 0) (block
       [write_log, write_head, install_trans, set_log (\<lambda>l. l\<lparr>lh_n := 0\<rparr>), write_head]))"

definition end_op_first :: "bool kop" where
  "end_op_first =
     seq (set_log (\<lambda>l. l\<lparr>log_outstanding := log_outstanding l - 1\<rparr>))
     (bind (gets log) (\<lambda>l.
      if log_committing l then panic ''log.committing''
      else if log_outstanding l = 0 then seq (set_log (\<lambda>l. l\<lparr>log_committing := True\<rparr>)) (ret True)
      else seq (wakeup (Some Ch_log)) (ret False)))"

definition end_op :: "unit kop" where
  "end_op =
     bind (with_lock L_log end_op_first) (\<lambda>do_commit.
     do_if do_commit (block
       [commit,
        acquire L_log,
        set_log (\<lambda>l. l\<lparr>log_committing := False\<rparr>),
        wakeup (Some Ch_log),
        release L_log]))"

definition log_slot :: "log \<Rightarrow> uint \<Rightarrow> nat" where
  "log_slot l bn = (case find_idx (\<lambda>x. x = bn) (take (nat (lh_n l)) (lh_block l)) of Some i \<Rightarrow> i | None \<Rightarrow> nat (lh_n l))"

definition log_enter :: "uint \<Rightarrow> log \<Rightarrow> log" where
  "log_enter bn l = (let i = log_slot l bn in
     l\<lparr>lh_block := (lh_block l)[i := bn], lh_n := (if int i = lh_n l then lh_n l + 1 else lh_n l)\<rparr>)"

definition log_write_body :: "nat \<Rightarrow> unit kop" where
  "log_write_body b =
     bind (gets (\<lambda>k. b_blockno (buf_at k b))) (\<lambda>bn. block
       [set_log (log_enter bn), set_buf b (\<lambda>y. y\<lparr>b_dirty := True\<rparr>)])"

definition log_write :: "nat \<Rightarrow> unit kop" where
  "log_write b =
     bind (gets log) (\<lambda>l.
     if lh_n l \<ge> int LOGSIZE \<or> lh_n l \<ge> log_size l - 1 then panic ''too big a transaction''
     else if log_outstanding l < 1 then panic ''log_write outside of trans''
     else with_lock L_log (log_write_body b))"

section \<open>Words in blocks\<close>

lemma ld32_st32:
  assumes "i + 3 < length d"
  shows "ld32 (st32 d i w) i = w"
  using assms bytes_word [of w] by (simp add: ld32_def st32_def nth_list_update)

lemma ld32_st32_other:
  assumes "i + 4 \<le> j \<or> j + 4 \<le> i"
  shows "ld32 (st32 d i w) j = ld32 d j"
  using assms by (auto simp: ld32_def st32_def nth_list_update)

lemma length_st32 [simp]: "length (st32 d i w) = length d"
  by (simp add: st32_def)

end
