(* ===== verification/Crash.thy ===== *)
theory Crash
  imports Log
begin

unbundle bit_operations_syntax

text \<open>
  What the log of \<^verbatim>\<open>log.c\<close> is for: a transaction reaches the disk as a whole or not at all.
  \<open>commit_steps n\<close> lists the parts of \<^verbatim>\<open>commit()\<close>, each of which writes one block; a crash
  leaves the disk as it is after a prefix of them.  The recovery that runs at the next start then
  gives the disk of before the transaction, or the one of after it.
\<close>

section \<open>The header block\<close>

lemma st32_fold:
  assumes "length d = BSIZE" and "n \<le> LOGSIZE"
  shows "length (foldl (\<lambda>d i. st32 d (4 + 4 * i) (f i)) d [0..<n]) = BSIZE \<and>
    ld32 (foldl (\<lambda>d i. st32 d (4 + 4 * i) (f i)) d [0..<n]) 0 = ld32 d 0 \<and>
    (\<forall>j < n. ld32 (foldl (\<lambda>d i. st32 d (4 + 4 * i) (f i)) d [0..<n]) (4 + 4 * j) = f j)"
  using assms(2)
proof (induction n)
  case (Suc n)
  let ?d = "foldl (\<lambda>d i. st32 d (4 + 4 * i) (f i)) d [0..<n]"
  from Suc have IH: "length ?d = BSIZE" "ld32 ?d 0 = ld32 d 0" "\<And>j. j < n \<Longrightarrow> ld32 ?d (4 + 4 * j) = f j" by auto
  have "ld32 (st32 ?d (4 + 4 * n) (f n)) (4 + 4 * j) = f j" if "j < Suc n" for j
  proof (cases "j = n")
    case True
    then show ?thesis using IH(1) Suc.prems ld32_st32 [of "4 + 4 * n" ?d "f n"] by simp
  next
    case False
    then show ?thesis using that IH(3) [of j] ld32_st32_other [of "4 + 4 * n" "4 + 4 * j" ?d "f n"] by simp
  qed
  moreover have "ld32 (st32 ?d (4 + 4 * n) (f n)) 0 = ld32 d 0" using IH(2) by (simp add: ld32_st32_other)
  ultimately show ?case using IH(1) by simp
qed (use assms in simp)

lemma sint_small: "0 \<le> n \<Longrightarrow> n \<le> int LOGSIZE \<Longrightarrow> sint (word_of_int n :: uint) = n"
  by (simp add: sint_uint signed_take_bit_int_eq_self take_bit_int_eq_self uint_word_of_int)

lemma head_data_ld:
  assumes "length d = BSIZE" and "0 \<le> lh_n l" and "lh_n l \<le> int LOGSIZE"
  shows "length (head_data l d) = BSIZE" and "sint (ld32 (head_data l d) 0) = lh_n l"
    and "j < nat (lh_n l) \<Longrightarrow> ld32 (head_data l d) (4 + 4 * j) = lh_block l ! j"
  using st32_fold [of "st32 d 0 (word_of_int (lh_n l))" "nat (lh_n l)" "\<lambda>i. lh_block l ! i"] assms
    ld32_st32 [of 0 d "word_of_int (lh_n l)"] sint_small [OF assms(2,3)]
  by (auto simp: head_data_def)

section \<open>Sequences of updates\<close>

primrec upds :: "('a \<Rightarrow> 'b) \<Rightarrow> ('a \<times> 'b) list \<Rightarrow> 'a \<Rightarrow> 'b" where
  "upds f [] = f"
| "upds f (x # xs) = upds (f(fst x := snd x)) xs"

lemma upds_snoc: "upds f (xs @ [(a, v)]) = (upds f xs)(a := v)"
  by (induction xs arbitrary: f) auto

lemma upds_notin: "a \<notin> fst ` set xs \<Longrightarrow> upds f xs a = f a"
  by (induction xs arbitrary: f) auto

lemma upds_in: "(a, v) \<in> set xs \<Longrightarrow> distinct (map fst xs) \<Longrightarrow> upds f xs a = v"
proof (induction xs arbitrary: f)
  case (Cons x xs)
  then show ?case by (cases "x = (a, v)") (auto simp: upds_notin image_iff)
qed simp

definition dsk :: "kernel \<Rightarrow> uint \<Rightarrow> uchar list" where
  "dsk s b = disk s ! unat b"

lemma dsk_upd: "unat b < length (disk s) \<Longrightarrow> disk s' = (disk s)[unat b := d] \<Longrightarrow> dsk s' = (dsk s)(b := d)"
  by (auto simp: dsk_def fun_eq_iff nth_list_update word_unat_eq_iff)

lemma fs_run_block_append:
  assumes "fs_run pid (block xs) s () s1" and "fs_run pid (block ys) s1 () s2"
  shows "fs_run pid (block (xs @ ys)) s () s2"
  using fs_run_seq [OF assms] unfolding fs_run_def by (simp add: block_append)

lemma block_for_each: "block (map f xs) = for_each xs f"
  by (induction xs) simp_all

section \<open>The cache at rest\<close>

lemma clean_blk:
  assumes "cache_inv pid H s" and "b \<notin> dirt s" and "\<And>i. H i \<noteq> Some b"
  shows "blk s b = disk s ! unat b"
proof (cases "\<exists>i < NBUF. b_valid (buf_at s i) \<and> b_blockno (buf_at s i) = b")
  case True
  then obtain i where i: "i < NBUF" "b_valid (buf_at s i)" "b_blockno (buf_at s i) = b" by blast
  have "H i = None" using assms(3) [of i] cache_invD(7) [OF assms(1), of i] i by (cases "H i") (auto simp: owned_def)
  then have "idle_buf s i" using cache_invD(5) [OF assms(1) i(1)] by blast
  moreover have "\<not> b_dirty (buf_at s i)" using assms(2) i dirtI by blast
  ultimately show ?thesis using i blk_cached [OF assms(1) i(1,2)] by (simp add: idle_buf_def)
next
  case False
  then show ?thesis using blk_uncached [OF assms(1)] by blast
qed

lemma length_blk:
  assumes "cache_inv pid H s" and "unat b < length (disk s)"
  shows "length (blk s b) = BSIZE"
proof (cases "\<exists>i < NBUF. b_valid (buf_at s i) \<and> b_blockno (buf_at s i) = b")
  case True
  then obtain i where i: "i < NBUF" "b_valid (buf_at s i)" "b_blockno (buf_at s i) = b" by blast
  then show ?thesis using blk_cached [OF assms(1) i(1,2)] cache_invD(3) [OF assms(1) i(1)] by (simp add: buf_ok_def)
next
  case False
  then show ?thesis using blk_uncached [OF assms(1), of b] cache_invD(2) [OF assms(1)] assms(2) by auto
qed

text \<open>A buffer to recycle exists as long as the held and the dirty ones do not fill the cache.\<close>

lemma room:
  assumes inv: "cache_inv pid H s" and c: "card (dom H) + card (dirt s) < NBUF"
  shows "\<exists>i < NBUF. H i = None \<and> \<not> b_dirty (buf_at s i)"
proof (rule ccontr)
  assume "\<not> ?thesis"
  then have all: "{..<NBUF} \<subseteq> dom H \<union> {i. i < NBUF \<and> b_dirty (buf_at s i)}" by auto
  have fin: "finite (dom H)" by (rule finite_subset [of _ "{..<NBUF}"]) (use cache_invD(6) [OF inv] in auto)
  have inj: "inj_on (\<lambda>i. b_blockno (buf_at s i)) {i. i < NBUF \<and> b_dirty (buf_at s i)}"
    using cache_invD(3,4) [OF inv] unfolding inj_on_def buf_ok_def by blast
  have "dirt s = (\<lambda>i. b_blockno (buf_at s i)) ` {i. i < NBUF \<and> b_dirty (buf_at s i)}" unfolding dirt_def by blast
  then have "card (dirt s) = card {i. i < NBUF \<and> b_dirty (buf_at s i)}" using card_image [OF inj] by metis
  moreover have "card {..<NBUF} \<le> card (dom H \<union> {i. i < NBUF \<and> b_dirty (buf_at s i)})"
    by (rule card_mono [OF _ all]) (use fin in simp)
  moreover have "card (dom H \<union> {i. i < NBUF \<and> b_dirty (buf_at s i)}) \<le> card (dom H) + card {i. i < NBUF \<and> b_dirty (buf_at s i)}"
    by (rule card_Un_le)
  ultimately show False using c by (simp only: card_lessThan)
qed

lemma dirty_cached: "cache_inv pid H s \<Longrightarrow> b \<in> dirt s \<Longrightarrow> \<exists>i < NBUF. b_valid (buf_at s i) \<and> b_blockno (buf_at s i) = b"
  using cache_invD(3) unfolding dirt_def buf_ok_def by blast

lemma same_cacheD: "same_cache s s' \<Longrightarrow> blk s' = blk s \<and> dirt s' = dirt s \<and> disk s' = disk s \<and> rest s' = rest s"
  by (simp add: same_cache_def)

section \<open>Copying a block\<close>

lemma read2:
  assumes inv: "cache_inv pid Map.empty s" and ab: "a \<noteq> b" "unat a < length (disk s)" "unat b < length (disk s)"
    and r: "card (dirt s) < NBUF" "b \<in> dirt s \<or> card (dirt s) + 1 < NBUF"
  shows "\<exists>i j s1 s2. fs_run pid (bread 1 a) s i s1 \<and> fs_run pid (bread 1 b) s1 j s2 \<and> i \<noteq> j \<and>
     cache_inv pid [i \<mapsto> a, j \<mapsto> b] s2 \<and> same_cache s s2"
proof -
  have "\<exists>i < NBUF. \<not> b_dirty (buf_at s i)" using room [OF inv] r(1) by simp
  with bread_run [OF inv _ ab(2)] obtain i s1 where
    1: "fs_run pid (bread 1 a) s i s1" "cache_inv pid [i \<mapsto> a] s1" "same_cache s s1" by fastforce
  have d: "dirt s1 = dirt s" "disk s1 = disk s" using same_cacheD [OF 1(3)] by simp_all
  have "(\<exists>i < NBUF. b_valid (buf_at s1 i) \<and> b_blockno (buf_at s1 i) = b) \<or> (\<exists>j < NBUF. [i \<mapsto> a] j = None \<and> \<not> b_dirty (buf_at s1 j))"
  proof (cases "b \<in> dirt s")
    case True
    then show ?thesis using dirty_cached [OF 1(2), of b] d by simp
  next
    case False
    then have "card (dom [i \<mapsto> a]) + card (dirt s1) < NBUF" using r(2) d by simp
    then show ?thesis using room [OF 1(2)] by blast
  qed
  moreover have "[i \<mapsto> a] c \<noteq> Some b" for c using ab(1) by simp
  moreover have "unat b < length (disk s1)" using ab(3) d by simp
  ultimately obtain j s2 where
    2: "fs_run pid (bread 1 b) s1 j s2" "[i \<mapsto> a] j = None" "cache_inv pid ([i \<mapsto> a](j \<mapsto> b)) s2" "same_cache s1 s2"
    using bread_run [OF 1(2), of b] by blast
  moreover from this(2) have "i \<noteq> j" by (auto split: if_splits)
  moreover have "same_cache s s2" using 1(3) 2(4) by (simp add: same_cache_def)
  ultimately show ?thesis using 1(1) by blast
qed

lemma fs_run_copy_buf:
  "fs_run pid (copy_buf i j) s () (s\<lparr>bufs := upd_at i (\<lambda>y. y\<lparr>b_data := b_data (buf_at s j)\<rparr>) (bufs s)\<rparr>)"
  unfolding copy_buf_def by (rule fs_run_bind [OF fs_run_gets fs_run_set_buf]) simp

lemma held_data:
  assumes "cache_inv pid H s" and "H i = Some b" and "length d = BSIZE"
  shows "cache_inv pid H (s\<lparr>bufs := upd_at i (\<lambda>y. y\<lparr>b_data := d\<rparr>) (bufs s)\<rparr>) \<and>
     blk (s\<lparr>bufs := upd_at i (\<lambda>y. y\<lparr>b_data := d\<rparr>) (bufs s)\<rparr>) = (blk s)(b := d) \<and>
     dirt (s\<lparr>bufs := upd_at i (\<lambda>y. y\<lparr>b_data := d\<rparr>) (bufs s)\<rparr>) = dirt s"
proof -
  have i: "i < NBUF" and own: "owned pid s i b" using cache_invD(6,7) [OF assms(1,2)] by blast+
  have "b_dirty (buf_at s i) \<longleftrightarrow> b \<in> dirt s"
    using held_other [OF assms(1,2)] cache_invD(3) [OF assms(1)] dirtI [OF i] own unfolding dirt_def buf_ok_def owned_def by blast
  then show ?thesis
    using held_upd [OF assms(1,2) refl, of "\<lambda>y. y\<lparr>b_data := d\<rparr>"] own assms(3) by (auto simp: owned_def)
qed

lemma copy_tail:
  assumes inv: "cache_inv pid H s" and H: "H = [i \<mapsto> dst, j \<mapsto> src] \<or> H = [j \<mapsto> src, i \<mapsto> dst]" and ij: "i \<noteq> j" "dst \<noteq> src"
    and b: "unat dst < length (disk s)" "unat src < length (disk s)" and coh: "src \<in> dirt s \<or> blk s src = disk s ! unat src"
  shows "\<exists>s'. fs_run pid (block [copy_buf i j, bwrite i, brelse j, brelse i]) s () s' \<and> cache_inv pid Map.empty s' \<and>
     blk s' = (blk s)(dst := blk s src) \<and> dirt s' = dirt s - {dst} \<and> disk s' = (disk s)[unat dst := blk s src] \<and> rest s' = rest s"
proof -
  have h: "H i = Some dst" "H j = Some src" "H(j := None, i := None) = Map.empty" using H ij by (auto simp: fun_eq_iff)
  let ?s1 = "s\<lparr>bufs := upd_at i (\<lambda>y. y\<lparr>b_data := b_data (buf_at s j)\<rparr>) (bufs s)\<rparr>"
  have d: "b_data (buf_at s j) = blk s src" using blk_held [OF inv h(2)] by simp
  have 1: "cache_inv pid H ?s1 \<and> blk ?s1 = (blk s)(dst := blk s src) \<and> dirt ?s1 = dirt s"
    unfolding d by (rule held_data [OF inv h(1) length_blk [OF inv b(2)]])
  then obtain s2 where 2: "fs_run pid (bwrite i) ?s1 () s2" "cache_inv pid H s2" "blk s2 = blk ?s1" "dirt s2 = dirt s - {dst}"
    "disk s2 = (disk s)[unat dst := blk s src]" "rest s2 = rest s"
    using bwrite_run [of pid H ?s1 i dst] h by (auto simp del: fun_upd_apply simp: fun_upd_same)
  have "src \<in> dirt s2 \<or> blk s2 src = disk s2 ! unat src"
    using coh 1 2 ij by (auto simp: word_unat_eq_iff)
  with brelse_run [OF 2(2) h(2)] obtain s3 where
    3: "fs_run pid (brelse j) s2 () s3" "cache_inv pid (H(j := None)) s3" "same_cache s2 s3" by blast
  have "blk s3 dst = disk s3 ! unat dst" using same_cacheD [OF 3(3)] 1 2 b by simp
  with brelse_run [OF 3(2), of i dst] h ij obtain s4 where
    4: "fs_run pid (brelse i) s3 () s4" "cache_inv pid (H(j := None, i := None)) s4" "same_cache s3 s4" by auto
  have "fs_run pid (block [copy_buf i j, bwrite i, brelse j, brelse i]) s () s4"
    by (intro fs_run_block_Cons [OF fs_run_copy_buf] fs_run_block_Cons [OF 2(1)] fs_run_block_Cons [OF 3(1)]
      fs_run_block_Cons [OF 4(1) fs_run_block_Nil])
  then show ?thesis using same_cacheD [OF 3(3)] same_cacheD [OF 4(3)] 1 2 4(2) h(3) by auto
qed

text \<open>The common effect of the two copying steps of the log.\<close>

definition copied :: "int \<Rightarrow> uint \<Rightarrow> uint \<Rightarrow> kernel \<Rightarrow> kernel \<Rightarrow> bool" where
  "copied pid dst src s s' \<longleftrightarrow> cache_inv pid Map.empty s' \<and> blk s' = (blk s)(dst := blk s src) \<and> dirt s' = dirt s - {dst} \<and>
     dsk s' = (dsk s)(dst := blk s src) \<and> length (disk s') = length (disk s) \<and> rest s' = rest s"

lemma copied_run:
  assumes "cache_inv pid Map.empty s" and "dst \<noteq> src" "unat dst < length (disk s)" "unat src < length (disk s)"
    and "card (dirt s) < NBUF"
  shows "src \<in> dirt s \<or> card (dirt s) + 1 < NBUF \<Longrightarrow> \<exists>s'. fs_run pid (bind (bread 1 dst) (\<lambda>i. bind (bread 1 src) (\<lambda>j.
      block [copy_buf i j, bwrite i, brelse j, brelse i]))) s () s' \<and> copied pid dst src s s'"
    and "dst \<in> dirt s \<or> card (dirt s) + 1 < NBUF \<Longrightarrow> \<exists>s'. fs_run pid (bind (bread 1 src) (\<lambda>j. bind (bread 1 dst) (\<lambda>i.
      block [copy_buf i j, bwrite i, brelse j, brelse i]))) s () s' \<and> copied pid dst src s s'"
proof -
  have coh: "src \<in> dirt s \<or> blk s src = disk s ! unat src" using clean_blk [OF assms(1)] by auto
  have fin: "\<exists>s'. fs_run pid (block [copy_buf i j, bwrite i, brelse j, brelse i]) s2 () s' \<and> copied pid dst src s s'"
    if "cache_inv pid H s2" "H = [i \<mapsto> dst, j \<mapsto> src] \<or> H = [j \<mapsto> src, i \<mapsto> dst]" "i \<noteq> j" "same_cache s s2" for i j s2 H
    using copy_tail [OF that(1,2,3) assms(2)] same_cacheD [OF that(4)] assms(3,4) coh dsk_upd [OF assms(3)]
    unfolding copied_def by (fastforce simp del: fun_upd_apply)
  show "\<exists>s'. fs_run pid (bind (bread 1 dst) (\<lambda>i. bind (bread 1 src) (\<lambda>j.
      block [copy_buf i j, bwrite i, brelse j, brelse i]))) s () s' \<and> copied pid dst src s s'"
    if r: "src \<in> dirt s \<or> card (dirt s) + 1 < NBUF"
  proof -
    from read2 [OF assms(1,2,3,4,5) r] obtain i j s1 s2 where
      1: "fs_run pid (bread 1 dst) s i s1" "fs_run pid (bread 1 src) s1 j s2" "i \<noteq> j"
        "cache_inv pid [i \<mapsto> dst, j \<mapsto> src] s2" "same_cache s s2" by blast
    from fin [OF 1(4) _ 1(3,5)] obtain s' where
      2: "fs_run pid (block [copy_buf i j, bwrite i, brelse j, brelse i]) s2 () s'" "copied pid dst src s s'" by blast
    have "fs_run pid (bind (bread 1 dst) (\<lambda>i. bind (bread 1 src) (\<lambda>j. block [copy_buf i j, bwrite i, brelse j, brelse i]))) s () s'"
      by (rule fs_run_bind, rule 1(1), rule fs_run_bind, rule 1(2), rule 2(1))
    with 2(2) show ?thesis by blast
  qed
  show "\<exists>s'. fs_run pid (bind (bread 1 src) (\<lambda>j. bind (bread 1 dst) (\<lambda>i.
      block [copy_buf i j, bwrite i, brelse j, brelse i]))) s () s' \<and> copied pid dst src s s'"
    if r: "dst \<in> dirt s \<or> card (dirt s) + 1 < NBUF"
  proof -
    from read2 [OF assms(1) assms(2) [symmetric] assms(4,3,5) r] obtain i j s1 s2 where
      1: "fs_run pid (bread 1 src) s j s1" "fs_run pid (bread 1 dst) s1 i s2" "i \<noteq> j"
        "cache_inv pid [j \<mapsto> src, i \<mapsto> dst] s2" "same_cache s s2" by blast
    from fin [OF 1(4) _ 1(3,5)] obtain s' where
      2: "fs_run pid (block [copy_buf i j, bwrite i, brelse j, brelse i]) s2 () s'" "copied pid dst src s s'" by blast
    have "fs_run pid (bind (bread 1 src) (\<lambda>j. bind (bread 1 dst) (\<lambda>i. block [copy_buf i j, bwrite i, brelse j, brelse i]))) s () s'"
      by (rule fs_run_bind, rule 1(1), rule fs_run_bind, rule 1(2), rule 2(1))
    with 2(2) show ?thesis by blast
  qed
qed

section \<open>Copying a run of blocks\<close>

lemma fs_run_for_each_snoc:
  assumes "fs_run pid (for_each xs f) s () s1" and "fs_run pid (f x) s1 () s2"
  shows "fs_run pid (for_each (xs @ [x]) f) s () s2"
proof -
  have "fs_run pid (block [f x]) s1 () s2" by (rule fs_run_block_Cons [OF assms(2) fs_run_block_Nil])
  from fs_run_block_append [OF assms(1) [folded block_for_each] this] show ?thesis
    by (simp add: block_for_each [symmetric])
qed

lemma copy_loop:
  assumes step: "\<And>j t. j < n \<Longrightarrow> cache_inv pid Map.empty t \<Longrightarrow> rest t = rest s \<Longrightarrow> length (disk t) = length (disk s) \<Longrightarrow>
      dirt t \<subseteq> dirt s \<Longrightarrow> \<exists>t'. fs_run pid (f j) t () t' \<and> copied pid (dst j) (src j) t t'"
    and disj: "\<And>i j. i < n \<Longrightarrow> j < n \<Longrightarrow> src j \<noteq> dst i"
    and inv: "cache_inv pid Map.empty s"
    and m: "m \<le> n"
  shows "\<exists>t. fs_run pid (for_each [0..<m] f) s () t \<and> cache_inv pid Map.empty t \<and> rest t = rest s \<and>
     length (disk t) = length (disk s) \<and> dirt t = dirt s - dst ` {..<m} \<and>
     blk t = upds (blk s) (map (\<lambda>i. (dst i, blk s (src i))) [0..<m]) \<and>
     dsk t = upds (dsk s) (map (\<lambda>i. (dst i, blk s (src i))) [0..<m])"
  using m
proof (induction m)
  case 0
  have "dirt s = dirt s - dst ` {..<0}" by simp
  then show ?case unfolding upt_0 list.map upds.simps for_each.simps
    by (intro exI [of _ s] conjI fs_run_ret inv refl)
next
  case (Suc m)
  let ?u = "\<lambda>m. map (\<lambda>i. (dst i, blk s (src i))) [0..<m]"
  have mn: "m \<le> n" "m < n" using Suc.prems by simp_all
  from Suc.IH [OF mn(1)] obtain t where t: "fs_run pid (for_each [0..<m] f) s () t" "cache_inv pid Map.empty t" "rest t = rest s"
    "length (disk t) = length (disk s)" "dirt t = dirt s - dst ` {..<m}" "blk t = upds (blk s) (?u m)" "dsk t = upds (dsk s) (?u m)"
    by blast
  have "dirt t \<subseteq> dirt s" unfolding t(5) by (rule Diff_subset)
  from step [OF mn(2) t(2,3,4) this] obtain t' where t': "fs_run pid (f m) t () t'" "copied pid (dst m) (src m) t t'" by blast
  have "src m \<notin> fst ` set (?u m)" using disj mn by (auto simp: image_iff)
  then have "blk t (src m) = blk s (src m)" unfolding t(6) by (rule upds_notin)
  with t'(2) have c: "cache_inv pid Map.empty t'" "rest t' = rest t" "length (disk t') = length (disk t)" "dirt t' = dirt t - {dst m}"
    "blk t' = (blk t)(dst m := blk s (src m))" "dsk t' = (dsk t)(dst m := blk s (src m))"
    unfolding copied_def by simp_all
  have u: "?u (Suc m) = ?u m @ [(dst m, blk s (src m))]" by simp
  have "blk t' = upds (blk s) (?u (Suc m))" "dsk t' = upds (dsk s) (?u (Suc m))"
    unfolding u upds_snoc c(5,6) t(6,7) by (rule refl)+
  moreover have "dirt t' = dirt s - dst ` {..<Suc m}" unfolding c(4) t(5) lessThan_Suc by blast
  moreover have "fs_run pid (for_each [0..<Suc m] f) s () t'"
    using fs_run_for_each_snoc [OF t(1) t'(1)] by simp
  moreover have "rest t' = rest s" "length (disk t') = length (disk s)" unfolding c(2,3) by (rule t(3,4))+
  ultimately show ?case using c(1) by blast
qed

section \<open>The header\<close>

lemma fs_run_set_log: "fs_run pid (set_log f) s () (s\<lparr>log := f (log s)\<rparr>)"
  unfolding set_log_def by (rule fs_run_modify) simp

lemma cache_log [simp]:
  "cache_inv pid H (s\<lparr>log := l\<rparr>) = cache_inv pid H s" "blk (s\<lparr>log := l\<rparr>) = blk s" "dirt (s\<lparr>log := l\<rparr>) = dirt s"
  "dsk (s\<lparr>log := l\<rparr>) = dsk s" "rest (s\<lparr>log := l\<rparr>) = (rest s)\<lparr>log := l\<rparr>"
  by (auto simp: cache_inv_def buf_ok_def idle_buf_def owned_def blk_def dirt_def dsk_def rest_def fun_eq_iff
    split: option.split sleepid.split intro!: kernel.equality)

lemma log_rest: "log (rest s) = log s"
  by (simp add: rest_def)

definition log_geom :: "kernel \<Rightarrow> bool" where
  "log_geom s \<longleftrightarrow> log_dev (log s) = 1 \<and> unat (log_start (log s)) + LOGSIZE \<le> length (disk s) \<and>
     unat (log_start (log s)) + LOGSIZE < 2 ^ 32 \<and> length (lh_block (log s)) = LOGSIZE"

lemma read_one:
  assumes inv: "cache_inv pid Map.empty s" and "unat b < length (disk s)" and "card (dirt s) < NBUF"
  shows "\<exists>i s'. fs_run pid (bread 1 b) s i s' \<and> cache_inv pid [i \<mapsto> b] s' \<and> same_cache s s'"
proof -
  have "\<exists>i < NBUF. \<not> b_dirty (buf_at s i)" using room [OF inv] assms(3) by simp
  with bread_run [OF inv _ assms(2)] show ?thesis by fastforce
qed

lemma write_head_run:
  assumes inv: "cache_inv pid Map.empty s" and g: "log_geom s" and d: "card (dirt s) < NBUF" "log_start (log s) \<notin> dirt s"
    and n: "0 \<le> lh_n (log s)" "lh_n (log s) \<le> int LOGSIZE"
  shows "\<exists>t. fs_run pid write_head s () t \<and> cache_inv pid Map.empty t \<and> rest t = rest s \<and> length (disk t) = length (disk s) \<and>
     dirt t = dirt s \<and> blk t = (blk s)(log_start (log s) := head_data (log s) (blk s (log_start (log s)))) \<and>
     dsk t = (dsk s)(log_start (log s) := head_data (log s) (blk s (log_start (log s))))"
proof -
  let ?st = "log_start (log s)" and ?h = "head_data (log s) (blk s (log_start (log s)))"
  have st: "unat ?st < length (disk s)" and dev: "log_dev (log s) = 1" using g by (simp_all add: log_geom_def)
  from read_one [OF inv st d(1)] obtain i s1 where
    1: "fs_run pid (bread 1 ?st) s i s1" "cache_inv pid [i \<mapsto> ?st] s1" "same_cache s s1" by blast
  note e1 = same_cacheD [OF 1(3)]
  have b: "b_data (buf_at s1 i) = blk s ?st" using blk_held [OF 1(2), of i ?st] e1 by simp
  have len: "length ?h = BSIZE" using head_data_ld(1) [OF _ n] length_blk [OF inv st] by blast
  let ?s2 = "s1\<lparr>bufs := upd_at i (\<lambda>y. y\<lparr>b_data := ?h\<rparr>) (bufs s1)\<rparr>"
  have 2: "cache_inv pid [i \<mapsto> ?st] ?s2 \<and> blk ?s2 = (blk s1)(?st := ?h) \<and> dirt ?s2 = dirt s1"
    by (rule held_data [OF 1(2) _ len]) simp
  then obtain s3 where 3: "fs_run pid (bwrite i) ?s2 () s3" "cache_inv pid [i \<mapsto> ?st] s3" "blk s3 = blk ?s2" "dirt s3 = dirt s - {?st}"
    "disk s3 = (disk s)[unat ?st := ?h]" "rest s3 = rest s"
    using bwrite_run [of pid "[i \<mapsto> ?st]" ?s2 i ?st] e1 by (auto simp del: fun_upd_apply simp: fun_upd_same)
  then have "blk s3 ?st = disk s3 ! unat ?st" using 2 st by simp
  with brelse_run [OF 3(2), of i ?st] obtain s4 where
    4: "fs_run pid (brelse i) s3 () s4" "cache_inv pid Map.empty s4" "same_cache s3 s4" by auto
  note e4 = same_cacheD [OF 4(3)]
  have "fs_run pid (bind (gets (\<lambda>k. b_data (buf_at k i))) (\<lambda>d. set_buf i (\<lambda>y. y\<lparr>b_data := head_data (log s) d\<rparr>))) s1 () ?s2"
    unfolding b [symmetric] by (rule fs_run_bind [OF fs_run_gets fs_run_set_buf]) simp
  then have "fs_run pid (block [bind (gets (\<lambda>k. b_data (buf_at k i))) (\<lambda>d. set_buf i (\<lambda>y. y\<lparr>b_data := head_data (log s) d\<rparr>)),
     bwrite i, brelse i]) s1 () s4"
    by (intro fs_run_block_Cons [OF _ fs_run_block_Cons [OF 3(1) fs_run_block_Cons [OF 4(1) fs_run_block_Nil]]])
  moreover have "fs_run pid (gets log) s (log s) s" by (rule fs_run_gets) simp
  ultimately have "fs_run pid write_head s () s4"
    unfolding write_head_def by (elim fs_run_bind, subst dev) (rule fs_run_bind, rule 1(1))
  moreover have "dsk s4 = (dsk s)(?st := ?h)" using dsk_upd [OF st] 3(5) e4 by simp
  moreover have "blk s4 = (blk s)(?st := ?h)" using e4 3(3) 2 e1 by simp
  ultimately show ?thesis using e4 3(4,5,6) 4(2) d(2) by auto
qed

definition head_log :: "uchar list \<Rightarrow> log \<Rightarrow> log" where
  "head_log d l = l\<lparr>lh_n := sint (ld32 d 0),
     lh_block := foldl (\<lambda>bs i. bs[i := ld32 d (4 + 4 * i)]) (lh_block l) [0..<nat (sint (ld32 d 0))]\<rparr>"

lemma fold_upd:
  assumes "n \<le> length bs"
  shows "length (foldl (\<lambda>bs i. bs[i := f i]) bs [0..<n]) = length bs \<and> (\<forall>j < n. foldl (\<lambda>bs i. bs[i := f i]) bs [0..<n] ! j = f j)"
  using assms by (induction n) (auto simp: nth_list_update less_Suc_eq)

lemma read_head_run:
  assumes inv: "cache_inv pid Map.empty s" and g: "log_geom s" and d: "card (dirt s) < NBUF" "log_start (log s) \<notin> dirt s"
    and n: "sint (ld32 (blk s (log_start (log s))) 0) \<le> int LOGSIZE"
  shows "\<exists>t. fs_run pid read_head s () t \<and> cache_inv pid Map.empty t \<and>
     rest t = (rest s)\<lparr>log := head_log (blk s (log_start (log s))) (log s)\<rparr> \<and> disk t = disk s \<and> dirt t = dirt s \<and> blk t = blk s"
proof -
  let ?st = "log_start (log s)" and ?d = "blk s (log_start (log s))"
  let ?n = "sint (ld32 ?d 0)"
  have st: "unat ?st < length (disk s)" and dev: "log_dev (log s) = 1" using g by (simp_all add: log_geom_def)
  from read_one [OF inv st d(1)] obtain i s1 where
    1: "fs_run pid (bread 1 ?st) s i s1" "cache_inv pid [i \<mapsto> ?st] s1" "same_cache s s1" by blast
  note e1 = same_cacheD [OF 1(3)]
  have log1: "log s1 = log s" using rest_fields(1) [of s1 s] e1 by simp
  have b: "b_data (buf_at s1 i) = ?d" using blk_held [OF 1(2), of i ?st] e1 by simp
  let ?s2 = "s1\<lparr>log := (log s1)\<lparr>lh_n := ?n\<rparr>\<rparr>" and ?s3 = "s1\<lparr>log := head_log ?d (log s)\<rparr>"
  have c: "cache_inv pid [i \<mapsto> ?st] ?s3" "?st \<in> dirt ?s3 \<or> blk ?s3 ?st = disk ?s3 ! unat ?st"
    using 1(2) clean_blk [OF inv d(2)] e1 by simp_all
  from brelse_run [OF c(1) _ c(2), where i = i] obtain s4 where
    4: "fs_run pid (brelse i) ?s3 () s4" "cache_inv pid Map.empty s4" "same_cache ?s3 s4" by auto
  have r3: "fs_run pid (set_log (\<lambda>l. l\<lparr>lh_block := foldl (\<lambda>bs j. bs[j := ld32 ?d (4 + 4 * j)]) (lh_block l) [0..<nat (lh_n l)]\<rparr>)) ?s2 () ?s3"
    using fs_run_set_log [of pid "\<lambda>l. l\<lparr>lh_block := foldl (\<lambda>bs j. bs[j := ld32 ?d (4 + 4 * j)]) (lh_block l) [0..<nat (lh_n l)]\<rparr>" ?s2]
    by (simp add: head_log_def log1)
  have g1: "fs_run pid (gets log) s (log s) s" by (rule fs_run_gets) simp
  have g2: "fs_run pid (gets (\<lambda>k. b_data (buf_at k i))) s1 ?d s1" unfolding b [symmetric] by (rule fs_run_gets) simp
  have "fs_run pid read_head s () s4"
    unfolding read_head_def
    by (rule fs_run_bind [OF g1], subst dev, rule fs_run_bind, rule 1(1), rule fs_run_bind, rule g2, rule fs_run_seq,
        rule fs_run_set_log, subst if_not_P, use n in simp, rule fs_run_seq, rule r3, rule 4(1))
  moreover have "rest s4 = (rest s)\<lparr>log := head_log ?d (log s)\<rparr>" "disk s4 = disk s" "dirt s4 = dirt s" "blk s4 = blk s"
    using same_cacheD [OF 4(3)] e1 by simp_all
  ultimately show ?thesis using 4(2) by blast
qed

section \<open>The phases of a commit\<close>

abbreviation home :: "kernel \<Rightarrow> nat \<Rightarrow> uint" where
  "home s i \<equiv> lh_block (log s) ! i"

abbreviation logb :: "kernel \<Rightarrow> nat \<Rightarrow> uint" where
  "logb s i \<equiv> log_start (log s) + of_nat i + 1"

definition log_area :: "kernel \<Rightarrow> uint set" where
  "log_area s = {b. unat (log_start (log s)) \<le> unat b \<and> unat b < unat (log_start (log s)) + LOGSIZE}"

text \<open>
  A transaction of \<open>n\<close> blocks that is ready to commit: the blocks are outside the log, and no
  other block is dirty.
\<close>

definition txn :: "int \<Rightarrow> nat \<Rightarrow> kernel \<Rightarrow> bool" where
  "txn pid n s \<longleftrightarrow> cache_inv pid Map.empty s \<and> log_geom s \<and> lh_n (log s) = int n \<and> n < LOGSIZE \<and>
     distinct (take n (lh_block (log s))) \<and> dirt s \<subseteq> set (take n (lh_block (log s))) \<and>
     (\<forall>b \<in> set (take n (lh_block (log s))). unat b < length (disk s) \<and> b \<notin> log_area s)"

lemma txnD:
  assumes "txn pid n s"
  shows "cache_inv pid Map.empty s" and "log_geom s" and "lh_n (log s) = int n" and "n < LOGSIZE"
    and "distinct (take n (lh_block (log s)))" and "dirt s \<subseteq> set (take n (lh_block (log s)))"
    and "\<forall>b \<in> set (take n (lh_block (log s))). unat b < length (disk s) \<and> b \<notin> log_area s"
proof -
  note t = assms [unfolded txn_def]
  show "cache_inv pid Map.empty s" by (rule t [THEN conjunct1])
  show "log_geom s" by (rule t [THEN conjunct2, THEN conjunct1])
  show "lh_n (log s) = int n" by (rule t [THEN conjunct2, THEN conjunct2, THEN conjunct1])
  show "n < LOGSIZE" by (rule t [THEN conjunct2, THEN conjunct2, THEN conjunct2, THEN conjunct1])
  show "distinct (take n (lh_block (log s)))" by (rule t [THEN conjunct2, THEN conjunct2, THEN conjunct2, THEN conjunct2, THEN conjunct1])
  show "dirt s \<subseteq> set (take n (lh_block (log s)))" by (rule t [THEN conjunct2, THEN conjunct2, THEN conjunct2, THEN conjunct2, THEN conjunct2, THEN conjunct1])
  show "\<forall>b \<in> set (take n (lh_block (log s))). unat b < length (disk s) \<and> b \<notin> log_area s" by (rule t [THEN conjunct2, THEN conjunct2, THEN conjunct2, THEN conjunct2, THEN conjunct2, THEN conjunct2])
qed

lemma unat_logb: "log_geom s \<Longrightarrow> i < LOGSIZE - 1 \<Longrightarrow> unat (logb s i) = unat (log_start (log s)) + i + 1"
proof -
  assume g: "log_geom s" and i: "i < LOGSIZE - 1"
  have "logb s i = log_start (log s) + of_nat (i + 1)" by simp
  moreover have "unat (log_start (log s)) + (i + 1) < 2 ^ 32" using g i by (simp add: log_geom_def)
  ultimately show ?thesis using unat_plus_nat [of "log_start (log s)" "i + 1"] by (simp add: ac_simps)
qed

lemma logb_facts:
  assumes "log_geom s" and "i < LOGSIZE - 1"
  shows "logb s i \<in> log_area s" and "unat (logb s i) < length (disk s)" and "logb s i \<noteq> log_start (log s)"
    and "j < LOGSIZE - 1 \<Longrightarrow> logb s i = logb s j \<Longrightarrow> i = j"
proof -
  note u = unat_logb [OF assms]
  show "logb s i \<in> log_area s" using u assms(2) by (simp add: log_area_def)
  have "unat (log_start (log s)) + LOGSIZE \<le> length (disk s)" using assms(1) by (simp add: log_geom_def)
  then show "unat (logb s i) < length (disk s)" using u assms(2) by linarith
  show "logb s i \<noteq> log_start (log s)"
  proof
    assume "logb s i = log_start (log s)"
    from arg_cong [OF this, of unat] show False using u by linarith
  qed
  show "i = j" if "j < LOGSIZE - 1" "logb s i = logb s j"
    using arg_cong [OF that(2), of unat] u unat_logb [OF assms(1) that(1)] by linarith
qed

lemma start_area: "log_geom s \<Longrightarrow> log_start (log s) \<in> log_area s \<and> unat (log_start (log s)) < length (disk s)"
  by (auto simp: log_area_def log_geom_def)

lemma txn_home:
  assumes "txn pid n s" and "i < n"
  shows "home s i \<in> set (take n (lh_block (log s)))" and "unat (home s i) < length (disk s)" and "home s i \<notin> log_area s"
    and "j < n \<Longrightarrow> home s i = home s j \<Longrightarrow> i = j"
proof -
  have len: "n \<le> length (lh_block (log s))" using txnD(2,4) [OF assms(1)] by (simp add: log_geom_def)
  have "take n (lh_block (log s)) ! i \<in> set (take n (lh_block (log s)))" by (rule nth_mem) (use assms(2) len in simp)
  then show m: "home s i \<in> set (take n (lh_block (log s)))" unfolding nth_take [OF assms(2)] .
  from bspec [OF txnD(7) [OF assms(1)] m] show "unat (home s i) < length (disk s)" "home s i \<notin> log_area s" by simp_all
  show "j < n \<Longrightarrow> home s i = home s j \<Longrightarrow> i = j"
    using nth_eq_iff_index_eq [OF txnD(5) [OF assms(1)], of i j] assms(2) len by simp
qed

lemma txn_card:
  assumes "txn pid n s" and "D \<subseteq> dirt s"
  shows "card D < NBUF" and "i < n \<Longrightarrow> home s i \<in> D \<or> card D + 1 < NBUF"
proof -
  let ?B = "set (take n (lh_block (log s)))"
  have D: "D \<subseteq> ?B" using assms(2) txnD(6) [OF assms(1)] by (rule subset_trans)
  have n: "n < LOGSIZE" by (rule txnD(4) [OF assms(1)])
  have B: "card ?B \<le> n" using card_length [of "take n (lh_block (log s))"] by simp
  have "card D \<le> card ?B" by (rule card_mono [OF _ D]) simp
  then show "card D < NBUF" using B n by simp
  show "home s i \<in> D \<or> card D + 1 < NBUF" if i: "i < n"
  proof (rule disjCI)
    assume "\<not> card D + 1 < NBUF"
    show "home s i \<in> D"
    proof (rule ccontr)
      assume "home s i \<notin> D"
      then have "D \<subseteq> ?B - {home s i}" using D by blast
      then have "card D \<le> card (?B - {home s i})" by (intro card_mono) simp_all
      also have "\<dots> < card ?B" by (rule card_Diff1_less) (use txn_home(1) [OF assms(1) i] in simp_all)
      finally show False using B n \<open>\<not> card D + 1 < NBUF\<close> by simp
    qed
  qed
qed

lemma fs_run_gets_log: "fs_run pid (gets log) s (log s) s"
  by (rule fs_run_gets) simp

lemma home_logb:
  assumes "txn pid n s" and "i < n" and "j < n"
  shows "home s i \<noteq> logb s j"
proof -
  have "j < LOGSIZE - 1" using txnD(4) [OF assms(1)] assms(3) by simp
  from logb_facts(1) [OF txnD(2) [OF assms(1)] this] txn_home(3) [OF assms(1,2)] show ?thesis by metis
qed

lemma step_run:
  assumes x: "txn pid n s" and j: "j < n" and t: "cache_inv pid Map.empty t" "rest t = rest s" "length (disk t) = length (disk s)"
      "dirt t \<subseteq> dirt s"
  shows "\<exists>t'. fs_run pid (write_log_step j) t () t' \<and> copied pid (logb s j) (home s j) t t'"
    and "\<exists>t'. fs_run pid (install_step j) t () t' \<and> copied pid (home s j) (logb s j) t t'"
proof -
  have jj: "j < LOGSIZE - 1" using txnD(4) [OF x] j by simp
  have lg: "log t = log s" by (rule rest_fields(1) [OF t(2)])
  have dev: "log_dev (log s) = 1" using txnD(2) [OF x] by (simp add: log_geom_def)
  have b: "unat (logb s j) < length (disk t)" "unat (home s j) < length (disk t)"
    unfolding t(3) by (rule logb_facts(2) [OF txnD(2) [OF x] jj], rule txn_home(2) [OF x j])
  have ne: "home s j \<noteq> logb s j" by (rule home_logb [OF x j j])
  note c = txn_card(1) [OF x t(4)] and r = txn_card(2) [OF x t(4) j]
  show "\<exists>t'. fs_run pid (write_log_step j) t () t' \<and> copied pid (logb s j) (home s j) t t'"
  proof -
    from copied_run(1) [OF t(1) ne [symmetric] b c r] obtain t' where
      *: "fs_run pid (bind (bread 1 (logb s j)) (\<lambda>i. bind (bread 1 (home s j)) (\<lambda>k. block [copy_buf i k, bwrite i, brelse k, brelse i]))) t () t'"
        "copied pid (logb s j) (home s j) t t'" by blast
    have "fs_run pid (write_log_step j) t () t'"
      unfolding write_log_step_def by (rule fs_run_bind, rule fs_run_gets_log, unfold lg dev, rule *(1))
    with *(2) show ?thesis by blast
  qed
  show "\<exists>t'. fs_run pid (install_step j) t () t' \<and> copied pid (home s j) (logb s j) t t'"
  proof -
    from copied_run(2) [OF t(1) ne b(2,1) c r] obtain t' where
      *: "fs_run pid (bind (bread 1 (logb s j)) (\<lambda>k. bind (bread 1 (home s j)) (\<lambda>i. block [copy_buf i k, bwrite i, brelse k, brelse i]))) t () t'"
        "copied pid (home s j) (logb s j) t t'" by blast
    have "fs_run pid (install_step j) t () t'"
      unfolding install_step_def by (rule fs_run_bind, rule fs_run_gets_log, unfold lg dev, rule *(1))
    with *(2) show ?thesis by blast
  qed
qed

definition moved :: "int \<Rightarrow> (nat \<Rightarrow> uint) \<Rightarrow> (nat \<Rightarrow> uint) \<Rightarrow> nat \<Rightarrow> kernel \<Rightarrow> kernel \<Rightarrow> bool" where
  "moved pid dst src m s t \<longleftrightarrow> cache_inv pid Map.empty t \<and> rest t = rest s \<and> length (disk t) = length (disk s) \<and>
     dirt t = dirt s - dst ` {..<m} \<and> blk t = upds (blk s) (map (\<lambda>i. (dst i, blk s (src i))) [0..<m]) \<and>
     dsk t = upds (dsk s) (map (\<lambda>i. (dst i, blk s (src i))) [0..<m])"

lemma write_log_run:
  assumes "txn pid n s" and "m \<le> n"
  shows "\<exists>t. fs_run pid (for_each [0..<m] write_log_step) s () t \<and> moved pid (logb s) (home s) m s t"
  unfolding moved_def
  by (rule copy_loop [where n = n]) (rule step_run(1) [OF assms(1)] home_logb [OF assms(1)] txnD(1) [OF assms(1)] assms(2) | assumption)+

lemma install_run:
  assumes "txn pid n s" and "m \<le> n"
  shows "\<exists>t. fs_run pid (for_each [0..<m] install_step) s () t \<and> moved pid (home s) (logb s) m s t"
  unfolding moved_def
  by (rule copy_loop [where n = n])
    (rule step_run(2) [OF assms(1)] home_logb [OF assms(1), symmetric] txnD(1) [OF assms(1)] assms(2) | assumption)+

lemma txn_same:
  assumes "txn pid n s" and "cache_inv pid Map.empty t" and "rest t = rest s" and "length (disk t) = length (disk s)" and "dirt t \<subseteq> dirt s"
  shows "txn pid n t"
proof -
  have lg: "log t = log s" by (rule rest_fields(1) [OF assms(3)])
  have "dirt t \<subseteq> set (take n (lh_block (log s)))" using assms(5) txnD(6) [OF assms(1)] by (rule subset_trans)
  moreover have "log_area t = log_area s" "log_geom t = log_geom s" by (simp_all add: log_area_def log_geom_def lg assms(4))
  ultimately show ?thesis using assms(1,2) unfolding txn_def lg assms(4) by simp
qed

lemma txn_start:
  assumes "txn pid n s"
  shows "log_start (log s) \<notin> dirt s" and "i < n \<Longrightarrow> home s i \<noteq> log_start (log s)" and "i < n \<Longrightarrow> logb s i \<noteq> log_start (log s)"
proof -
  have a: "log_start (log s) \<in> log_area s" using start_area [OF txnD(2) [OF assms]] by blast
  show "log_start (log s) \<notin> dirt s" using txnD(6,7) [OF assms] a by blast
  show "home s i \<noteq> log_start (log s)" if "i < n" using txn_home(3) [OF assms that] a by metis
  show "logb s i \<noteq> log_start (log s)" if "i < n" by (rule logb_facts(3) [OF txnD(2) [OF assms]]) (use txnD(4) [OF assms] that in simp)
qed

text \<open>\<^verbatim>\<open>write_head()\<close> in a transaction, and when the count has been set to 0.\<close>

definition headed :: "int \<Rightarrow> log \<Rightarrow> kernel \<Rightarrow> kernel \<Rightarrow> bool" where
  "headed pid l s t \<longleftrightarrow> cache_inv pid Map.empty t \<and> rest t = (rest s)\<lparr>log := l\<rparr> \<and> length (disk t) = length (disk s) \<and> dirt t = dirt s \<and>
     blk t = (blk s)(log_start (log s) := head_data l (blk s (log_start (log s)))) \<and>
     dsk t = (dsk s)(log_start (log s) := head_data l (blk s (log_start (log s))))"

lemma txn_write_head:
  assumes "txn pid n s"
  shows "\<exists>t. fs_run pid write_head s () t \<and> headed pid (log s) s t"
    and "\<exists>t. fs_run pid (seq (set_log (\<lambda>l. l\<lparr>lh_n := 0\<rparr>)) write_head) s () t \<and> headed pid ((log s)\<lparr>lh_n := 0\<rparr>) s t"
proof -
  have c: "card (dirt s) < NBUF" by (rule txn_card(1) [OF assms subset_refl])
  have "rest s = (rest s)\<lparr>log := log s\<rparr>" by (simp add: rest_def)
  then show "\<exists>t. fs_run pid write_head s () t \<and> headed pid (log s) s t"
    unfolding headed_def using write_head_run [OF txnD(1,2) [OF assms] c txn_start(1) [OF assms]] txnD(3,4) [OF assms] by simp
  let ?s = "s\<lparr>log := (log s)\<lparr>lh_n := 0\<rparr>\<rparr>"
  have "cache_inv pid Map.empty ?s" "log_geom ?s" "card (dirt ?s) < NBUF" "log_start (log ?s) \<notin> dirt ?s"
    using txnD(1,2) [OF assms] c txn_start(1) [OF assms] by (simp_all add: log_geom_def)
  from write_head_run [OF this] obtain t where
    t: "fs_run pid write_head ?s () t" "headed pid ((log s)\<lparr>lh_n := 0\<rparr>) s t" unfolding headed_def by auto
  have "fs_run pid (seq (set_log (\<lambda>l. l\<lparr>lh_n := 0\<rparr>)) write_head) s () t"
    by (rule fs_run_seq [OF fs_run_set_log]) (rule t(1))
  with t(2) show "\<exists>t. fs_run pid (seq (set_log (\<lambda>l. l\<lparr>lh_n := 0\<rparr>)) write_head) s () t \<and> headed pid ((log s)\<lparr>lh_n := 0\<rparr>) s t" by blast
qed

lemma moved_txn: "txn pid n s \<Longrightarrow> moved pid dst src m s t \<Longrightarrow> txn pid n t"
  by (rule txn_same) (auto simp: moved_def)

lemma moved_other:
  assumes "moved pid dst src m s t" and "b \<notin> dst ` {..<m}"
  shows "blk t b = blk s b" and "dsk t b = dsk s b"
proof -
  have "b \<notin> fst ` set (map (\<lambda>i. (dst i, blk s (src i))) [0..<m])" using assms(2) by auto
  then show "blk t b = blk s b" "dsk t b = dsk s b" using assms(1) unfolding moved_def by (simp_all add: upds_notin)
qed

lemma moved_at:
  assumes "moved pid dst src m s t" and "inj_on dst {..<m}" and "i < m"
  shows "blk t (dst i) = blk s (src i)" and "dsk t (dst i) = blk s (src i)"
proof -
  have "(dst i, blk s (src i)) \<in> set (map (\<lambda>i. (dst i, blk s (src i))) [0..<m])" using assms(3) by auto
  moreover have "distinct (map fst (map (\<lambda>i. (dst i, blk s (src i))) [0..<m]))"
    using assms(2) by (simp add: distinct_map comp_def inj_on_def)
  ultimately have "upds f (map (\<lambda>i. (dst i, blk s (src i))) [0..<m]) (dst i) = blk s (src i)" for f by (rule upds_in)
  then show "blk t (dst i) = blk s (src i)" "dsk t (dst i) = blk s (src i)" using assms(1) unfolding moved_def by simp_all
qed

section \<open>Recovery\<close>

lemma head_log_facts:
  assumes "length (lh_block l) = LOGSIZE" and "sint (ld32 d 0) = int n" and "n \<le> LOGSIZE"
  shows "lh_n (head_log d l) = int n" and "length (lh_block (head_log d l)) = LOGSIZE"
    and "i < n \<Longrightarrow> lh_block (head_log d l) ! i = ld32 d (4 + 4 * i)"
    and "log_start (head_log d l) = log_start l" and "log_dev (head_log d l) = log_dev l"
  using fold_upd [of n "lh_block l" "\<lambda>i. ld32 d (4 + 4 * i)"] assms by (simp_all add: head_log_def)

lemma install_clear_run:
  assumes x: "txn pid n s"
  shows "\<exists>t2 t. fs_run pid (block [install_trans, set_log (\<lambda>l. l\<lparr>lh_n := 0\<rparr>), write_head]) s () t \<and>
     moved pid (home s) (logb s) n s t2 \<and> headed pid ((log s)\<lparr>lh_n := 0\<rparr>) t2 t"
proof -
  from install_run [OF x order_refl] obtain t2 where
    2: "fs_run pid (for_each [0..<n] install_step) s () t2" "moved pid (home s) (logb s) n s t2" by blast
  have lg: "log t2 = log s" using 2(2) rest_fields(1) unfolding moved_def by blast
  from txn_write_head(2) [OF moved_txn [OF x 2(2)]] obtain t where
    3: "fs_run pid (seq (set_log (\<lambda>l. l\<lparr>lh_n := 0\<rparr>)) write_head) t2 () t" "headed pid ((log s)\<lparr>lh_n := 0\<rparr>) t2 t"
    unfolding lg by blast
  have g: "fs_run pid (gets (\<lambda>k. lh_n (log k))) s (int n) s"
    using fs_run_gets [of "\<lambda>k. lh_n (log k)" pid s] txnD(3) [OF x] by simp
  have r2: "fs_run pid install_trans s () t2"
    unfolding install_trans_def by (rule fs_run_bind, rule g) (use 2(1) in simp)
  have "fs_run pid (block [seq (set_log (\<lambda>l. l\<lparr>lh_n := 0\<rparr>)) write_head]) t2 () t"
    by (rule fs_run_block_Cons [OF 3(1) fs_run_block_Nil])
  then have "fs_run pid (block [set_log (\<lambda>l. l\<lparr>lh_n := 0\<rparr>), write_head]) t2 () t"
    by (simp only: block.simps seq_assoc)
  then have "fs_run pid (block [install_trans, set_log (\<lambda>l. l\<lparr>lh_n := 0\<rparr>), write_head]) s () t"
    by (rule fs_run_block_Cons [OF r2])
  then show ?thesis using 2(2) 3(2) by blast
qed

lemma recover_run:
  assumes inv: "cache_inv pid Map.empty r" and clean: "dirt r = {}" and g: "log_geom r"
    and n: "sint (ld32 (dsk r (log_start (log r))) 0) = int n" "n < LOGSIZE"
    and hb: "\<And>i. i < n \<Longrightarrow> ld32 (dsk r (log_start (log r))) (4 + 4 * i) = hb i"
    and ok: "inj_on hb {..<n}" "\<And>i. i < n \<Longrightarrow> unat (hb i) < length (disk r) \<and> hb i \<notin> log_area r"
  shows "\<exists>t. fs_run pid recover_from_log r () t \<and> lh_n (log t) = 0 \<and>
     (\<forall>i < n. dsk t (hb i) = dsk r (logb r i)) \<and>
     (\<forall>b. b \<notin> hb ` {..<n} \<longrightarrow> b \<noteq> log_start (log r) \<longrightarrow> dsk t b = dsk r b)"
proof -
  let ?d = "blk r (log_start (log r))"
  have bd: "blk r b = dsk r b" for b using clean_blk [OF inv, of b] clean by (simp add: dsk_def)
  have nn: "sint (ld32 ?d 0) \<le> int LOGSIZE" unfolding bd using n by simp
  from read_head_run [OF inv g _ _ nn] clean obtain r1 where
    1: "fs_run pid read_head r () r1" "cache_inv pid Map.empty r1" "rest r1 = (rest r)\<lparr>log := head_log ?d (log r)\<rparr>"
      "disk r1 = disk r" "dirt r1 = dirt r" "blk r1 = blk r" by auto
  have "log r1 = log (rest r1)" by (simp only: log_rest)
  then have lg: "log r1 = head_log (dsk r (log_start (log r))) (log r)" unfolding 1(3) bd by simp
  have len: "length (lh_block (log r)) = LOGSIZE" using g by (simp add: log_geom_def)
  note h = head_log_facts [OF len n(1) less_imp_le [OF n(2)], folded lg]
  have home: "home r1 i = hb i" if "i < n" for i using h(3) [OF that] hb [OF that] by simp
  have "take n (lh_block (log r1)) = map hb [0..<n]" by (rule nth_equalityI) (use h(2) n(2) home in auto)
  moreover have "log_area r1 = log_area r" "log_geom r1" using g h(2,4,5) by (simp_all add: log_area_def log_geom_def 1(4))
  ultimately have x: "txn pid n r1"
    unfolding txn_def using 1(2,4,5) clean h(1) n(2) ok by (auto simp: distinct_map inj_on_def)
  from install_clear_run [OF x] obtain t2 t where
    2: "fs_run pid (block [install_trans, set_log (\<lambda>l. l\<lparr>lh_n := 0\<rparr>), write_head]) r1 () t"
      "moved pid (home r1) (logb r1) n r1 t2" "headed pid ((log r1)\<lparr>lh_n := 0\<rparr>) t2 t" by blast
  have "fs_run pid recover_from_log r () t"
    unfolding recover_from_log_def by (rule fs_run_block_Cons [OF 1(1) 2(1)])
  moreover have "log t = log (rest t)" by (simp only: log_rest)
  then have "lh_n (log t) = 0" using 2(3) unfolding headed_def by simp
  moreover have st2: "log_start (log t2) = log_start (log r)"
    using 2(2) rest_fields(1) [of t2 r1] h(4) unfolding moved_def by simp
  have dt: "dsk t b = dsk t2 b" if "b \<noteq> log_start (log r)" for b
    using 2(3) that st2 unfolding headed_def by simp
  have d1: "dsk r1 = dsk r" using 1(4) by (simp add: dsk_def fun_eq_iff)
  have inj: "inj_on (home r1) {..<n}" using ok(1) home by (simp add: inj_on_def)
  have "dsk t (hb i) = dsk r (logb r i)" if i: "i < n" for i
  proof -
    have "hb i \<noteq> log_start (log r)" using txn_start(2) [OF x i] home [OF i] h(4) by simp
    then have "dsk t (hb i) = dsk t2 (home r1 i)" using dt home [OF i] by simp
    also have "\<dots> = blk r1 (logb r1 i)" by (rule moved_at(2) [OF 2(2) inj i])
    also have "\<dots> = dsk r (logb r i)" using 1(6) bd h(4) by simp
    finally show ?thesis .
  qed
  moreover have "dsk t b = dsk r b" if b: "b \<notin> hb ` {..<n}" "b \<noteq> log_start (log r)" for b
  proof -
    have "b \<notin> home r1 ` {..<n}" using b(1) home by auto
    from moved_other(2) [OF 2(2) this] show ?thesis using dt [OF b(2)] d1 by simp
  qed
  ultimately show ?thesis by blast
qed

section \<open>Crashes\<close>

definition commit_steps :: "nat \<Rightarrow> unit kop list" where
  "commit_steps n = map write_log_step [0..<n] @ [write_head] @ map install_step [0..<n] @
     [seq (set_log (\<lambda>l. l\<lparr>lh_n := 0\<rparr>)) write_head]"

lemma length_commit_steps: "length (commit_steps n) = 2 * n + 2"
  by (simp add: commit_steps_def)

lemma take_commit_steps:
  "j \<le> n \<Longrightarrow> take j (commit_steps n) = map write_log_step [0..<j]"
  "m \<le> n \<Longrightarrow> take (n + 1 + m) (commit_steps n) = map write_log_step [0..<n] @ [write_head] @ map install_step [0..<m]"
  by (simp_all add: commit_steps_def take_map)

text \<open>The disk after the first part of a commit, and after the header has been written.\<close>

definition logged :: "kernel \<Rightarrow> kernel \<Rightarrow> bool" where
  "logged s t \<longleftrightarrow> length (disk t) = length (disk s) \<and> log t = log s \<and> dsk t (log_start (log s)) = dsk s (log_start (log s)) \<and>
     (\<forall>b. b \<notin> log_area s \<longrightarrow> dsk t b = dsk s b)"

definition installed :: "nat \<Rightarrow> nat \<Rightarrow> kernel \<Rightarrow> kernel \<Rightarrow> bool" where
  "installed n m s t \<longleftrightarrow> length (disk t) = length (disk s) \<and> log t = log s \<and>
     dsk t (log_start (log s)) = head_data (log s) (blk s (log_start (log s))) \<and>
     blk t (log_start (log s)) = head_data (log s) (blk s (log_start (log s))) \<and>
     (\<forall>i < n. dsk t (logb s i) = blk s (home s i) \<and> blk t (logb s i) = blk s (home s i)) \<and>
     (\<forall>b. b \<notin> log_area s \<longrightarrow> b \<notin> home s ` {..<m} \<longrightarrow> dsk t b = dsk s b) \<and> (\<forall>i < m. dsk t (home s i) = blk s (home s i))"

lemma logged_run:
  assumes x: "txn pid n s" and j: "j \<le> n"
  shows "\<exists>t. fs_run pid (block (map write_log_step [0..<j])) s () t \<and> moved pid (logb s) (home s) j s t \<and> logged s t"
proof -
  from write_log_run [OF x j] obtain t where
    t: "fs_run pid (for_each [0..<j] write_log_step) s () t" "moved pid (logb s) (home s) j s t" by blast
  have area: "logb s ` {..<j} \<subseteq> log_area s"
    using logb_facts(1) [OF txnD(2) [OF x]] txnD(4) [OF x] j by auto
  have "log_start (log s) \<notin> logb s ` {..<j}" using txn_start(3) [OF x] j by fastforce
  then have "logged s t" unfolding logged_def
    using moved_other(2) [OF t(2)] area t(2) rest_fields(1) [of t s] unfolding moved_def by blast
  then show ?thesis using t unfolding block_for_each by blast
qed

lemma header_run:
  assumes x: "txn pid n s"
  shows "\<exists>t. fs_run pid (block (map write_log_step [0..<n] @ [write_head])) s () t \<and> txn pid n t \<and> installed n 0 s t"
proof -
  let ?st = "log_start (log s)"
  from logged_run [OF x order_refl] obtain t1 where
    1: "fs_run pid (block (map write_log_step [0..<n])) s () t1" "moved pid (logb s) (home s) n s t1" "logged s t1" by blast
  have x1: "txn pid n t1" and l1: "log t1 = log s" using moved_txn [OF x 1(2)] 1(3) by (simp_all add: logged_def)
  from txn_write_head(1) [OF x1] obtain t2 where 2: "fs_run pid write_head t1 () t2" "headed pid (log t1) t1 t2" by blast
  have h: "cache_inv pid Map.empty t2" "length (disk t2) = length (disk t1)" "dirt t2 = dirt t1"
    "blk t2 = (blk t1)(?st := head_data (log s) (blk t1 ?st))" "dsk t2 = (dsk t1)(?st := head_data (log s) (blk t1 ?st))"
    using 2(2) unfolding headed_def l1 by simp_all
  have r2: "rest t2 = rest t1" using 2(2) unfolding headed_def by (simp add: rest_def)
  have x2: "txn pid n t2" by (rule txn_same [OF x1 h(1) r2 h(2)]) (simp add: h(3))
  have run: "fs_run pid (block (map write_log_step [0..<n] @ [write_head])) s () t2"
    by (rule fs_run_block_append [OF 1(1) fs_run_block_Cons [OF 2(1) fs_run_block_Nil]])
  have st: "blk t1 ?st = blk s ?st"
    by (rule moved_other(1) [OF 1(2)]) (use txn_start(3) [OF x] in fastforce)
  have injl: "inj_on (logb s) {..<n}"
    using logb_facts(4) [OF txnD(2) [OF x]] txnD(4) [OF x] by (auto simp: inj_on_def)
  have "dsk t2 (logb s i) = blk s (home s i) \<and> blk t2 (logb s i) = blk s (home s i)" if "i < n" for i
    using moved_at [OF 1(2) injl that] h(4,5) txn_start(3) [OF x that] by simp
  moreover have "dsk t2 b = dsk s b" if "b \<notin> log_area s" for b
  proof -
    have "b \<noteq> ?st" using that start_area [OF txnD(2) [OF x]] by blast
    then show ?thesis using h(5) 1(3) that unfolding logged_def by simp
  qed
  ultimately have "installed n 0 s t2"
    unfolding installed_def using h(2,4,5) st rest_fields(1) [OF r2] 1(3) by (simp add: logged_def)
  with run x2 show ?thesis by blast
qed

lemma installed_run:
  assumes x: "txn pid n s" and m: "m \<le> n"
  shows "\<exists>t. fs_run pid (block (map write_log_step [0..<n] @ [write_head] @ map install_step [0..<m])) s () t \<and>
     txn pid n t \<and> installed n m s t"
proof -
  let ?st = "log_start (log s)"
  from header_run [OF x] obtain t2 where
    2: "fs_run pid (block (map write_log_step [0..<n] @ [write_head])) s () t2" "txn pid n t2" "installed n 0 s t2" by blast
  have l2: "log t2 = log s" using 2(3) by (simp add: installed_def)
  from install_run [OF 2(2) m] obtain t3 where
    3: "fs_run pid (for_each [0..<m] install_step) t2 () t3" "moved pid (home s) (logb s) m t2 t3" unfolding l2 by blast
  have run: "fs_run pid (block (map write_log_step [0..<n] @ [write_head] @ map install_step [0..<m])) s () t3"
    using fs_run_block_append [OF 2(1) 3(1) [folded block_for_each]] by simp
  have injh: "inj_on (home s) {..<m}" using txn_home(4) [OF x] m by (auto simp: inj_on_def)
  have out: "dsk t3 b = dsk t2 b \<and> blk t3 b = blk t2 b" if "b \<notin> home s ` {..<m}" for b using moved_other [OF 3(2) that] by simp
  have img: "b \<notin> home s ` {..<m}" if "\<And>i. i < n \<Longrightarrow> home s i \<noteq> b" for b
  proof
    assume "b \<in> home s ` {..<m}"
    then obtain i where "i < m" "b = home s i" by blast
    then show False using that [of i] m by simp
  qed
  have a: "?st \<notin> home s ` {..<m}" by (rule img [OF txn_start(2) [OF x]])
  have b: "logb s i \<notin> home s ` {..<m}" if "i < n" for i by (rule img [OF home_logb [OF x _ that]])
  have c: "dsk t3 (home s i) = blk s (home s i)" if "i < m" for i
    using moved_at(2) [OF 3(2) injh that] 2(3) that m unfolding installed_def by simp
  have d: "length (disk t3) = length (disk s)" "log t3 = log s"
    using 3(2) 2(3) rest_fields(1) [of t3 t2] unfolding moved_def installed_def by simp_all
  have "installed n m s t3"
    unfolding installed_def using 2(3) [unfolded installed_def] out [OF a] out [OF b] out c d by auto
  with run moved_txn [OF 2(2) 3(2)] show ?thesis by blast
qed

text \<open>
  A machine that starts again after a crash keeps the disk and nothing else of the file system: the
  cache is as \<^verbatim>\<open>binit()\<close> leaves it, and \<^verbatim>\<open>initlog()\<close> has set the position of the
  log.
\<close>

definition boot_bufs :: "buf list" where
  "boot_bufs = (case binit kernel0 of Ok _ k \<Rightarrow> bufs k | _ \<Rightarrow> [])"

definition reboot :: "kernel \<Rightarrow> kernel" where
  "reboot k = k\<lparr>bufs := boot_bufs, sleeplocks := (\<lambda>_. sleeplock0),
     log := log0\<lparr>log_start := log_start (log k), log_size := log_size (log k), log_dev := log_dev (log k)\<rparr>\<rparr>"

lemma boot_bufs_facts: "dll boot_bufs (rev [0..<NBUF])" "i < NBUF \<Longrightarrow> core (boot_bufs ! i) = core buf0"
proof -
  have len: "length (bufs kernel0) = NBUF + 1" by (simp add: kernel0_def)
  from binit_dll [OF this] obtain m sl bs where b: "binit kernel0 = Ok () (kernel0\<lparr>mach := m, sleeplocks := sl, bufs := bs\<rparr>)"
    "dll bs (rev [0..<NBUF])" "\<And>i. core (bs ! i) = core (bufs kernel0 ! i)" by blast
  have e: "boot_bufs = bs" unfolding boot_bufs_def b(1) by simp
  show "dll boot_bufs (rev [0..<NBUF])" unfolding e by (rule b(2))
  have "bufs kernel0 = replicate (NBUF + 1) buf0" by (simp add: kernel0_def)
  then show "i < NBUF \<Longrightarrow> core (boot_bufs ! i) = core buf0" 
    unfolding e b(3) by (metis add.commute nth_replicate trans_less_add2)
qed

lemma reboot_cache:
  assumes "\<And>d. d \<in> set (disk k) \<Longrightarrow> length d = BSIZE"
  shows "cache_inv pid Map.empty (reboot k)" and "dirt (reboot k) = {}"
proof -
  have f: "\<not> b_valid (boot_bufs ! i)" "\<not> b_dirty (boot_bufs ! i)" "b_refcnt (boot_bufs ! i) = 0" "b_dev (boot_bufs ! i) = 0"
    "length (b_data (boot_bufs ! i)) = BSIZE" if "i < NBUF" for i
    using core_fields [OF boot_bufs_facts(2) [OF that]] by (simp_all add: buf0_def)
  show "cache_inv pid Map.empty (reboot k)"
    by (rule cache_invI [where xs = "rev [0..<NBUF]"])
      (use assms f boot_bufs_facts(1) in \<open>simp_all add: reboot_def buf_ok_def idle_buf_def sleeplock0_def\<close>)
  show "dirt (reboot k) = {}" using f by (auto simp: dirt_def reboot_def)
qed

lemma fsv_cache [simp]:
  "cache_inv pid H (fsv s) = cache_inv pid H s" "dirt (fsv s) = dirt s" "blk (fsv s) = blk s" "dsk (fsv s) = dsk s"
  "log_geom (fsv s) = log_geom s" "log_area (fsv s) = log_area s" "txn pid n (fsv s) = txn pid n s"
  by (auto simp: cache_inv_def buf_ok_def idle_buf_def owned_def blk_def dirt_def dsk_def log_geom_def log_area_def txn_def
      fun_eq_iff split: option.split)

lemma recover_reboot:
  assumes q: "quiet k" and len: "\<And>d. d \<in> set (disk k) \<Longrightarrow> length d = BSIZE"
    and g: "log_dev (log k) = 1" "unat (log_start (log k)) + LOGSIZE \<le> length (disk k)" "unat (log_start (log k)) + LOGSIZE < 2 ^ 32"
    and n: "sint (ld32 (dsk k (log_start (log k))) 0) = int n" "n < LOGSIZE"
    and hb: "\<And>i. i < n \<Longrightarrow> ld32 (dsk k (log_start (log k))) (4 + 4 * i) = hb i"
    and ok: "inj_on hb {..<n}" "\<And>i. i < n \<Longrightarrow> unat (hb i) < length (disk k) \<and> hb i \<notin> log_area k"
  shows "\<exists>r. recover_from_log (reboot k) = Ok () r \<and> lh_n (log r) = 0 \<and>
     (\<forall>i < n. dsk r (hb i) = dsk k (logb k i)) \<and>
     (\<forall>b. b \<notin> hb ` {..<n} \<longrightarrow> b \<noteq> log_start (log k) \<longrightarrow> dsk r b = dsk k b)"
proof -
  let ?r = "fsv (reboot k)"
  have l: "log_start (log (reboot k)) = log_start (log k)" by (simp add: reboot_def)
  have d: "dsk ?r = dsk k" "log_start (log ?r) = log_start (log k)" "disk ?r = disk k" "log_area ?r = log_area k"
    by (simp_all add: dsk_def fun_eq_iff reboot_def log_area_def fsv_def)
  have "log_geom ?r" using g by (simp add: log_geom_def reboot_def log0_def)
  moreover have "cache_inv (mypid k) Map.empty ?r" "dirt ?r = {}" using reboot_cache [OF len] by simp_all
  ultimately obtain t where
    t: "fs_run (mypid k) recover_from_log ?r () t" "lh_n (log t) = 0" "\<forall>i < n. dsk t (hb i) = dsk ?r (logb ?r i)"
      "\<forall>b. b \<notin> hb ` {..<n} \<longrightarrow> b \<noteq> log_start (log ?r) \<longrightarrow> dsk t b = dsk ?r b"
    using recover_run [of "mypid k" ?r n hb] n hb ok unfolding d by blast
  have "quiet (reboot k)" "mypid (reboot k) = mypid k" using q by (simp_all add: reboot_def quiet_def mypid_def)
  from fs_runD [OF t(1) this refl] obtain r where r: "recover_from_log (reboot k) = Ok () r" "fsv r = t" by blast
  have "lh_n (log r) = 0" "dsk r = dsk t" using t(2) unfolding r(2) [symmetric] by simp_all
  then show ?thesis using r(1) t(3,4) unfolding d by auto
qed

definition crash_old :: "kernel \<Rightarrow> kernel \<Rightarrow> bool" where
  "crash_old s t \<longleftrightarrow> dsk t (log_start (log s)) = dsk s (log_start (log s)) \<and> (\<forall>b. b \<notin> log_area s \<longrightarrow> dsk t b = dsk s b)"

definition crash_redo :: "nat \<Rightarrow> kernel \<Rightarrow> kernel \<Rightarrow> bool" where
  "crash_redo n s t \<longleftrightarrow> dsk t (log_start (log s)) = head_data (log s) (blk s (log_start (log s))) \<and>
     (\<forall>i < n. dsk t (logb s i) = blk s (home s i)) \<and>
     (\<forall>b. b \<notin> log_area s \<longrightarrow> b \<notin> home s ` {..<n} \<longrightarrow> dsk t b = dsk s b)"

definition crash_new :: "nat \<Rightarrow> kernel \<Rightarrow> kernel \<Rightarrow> bool" where
  "crash_new n s t \<longleftrightarrow> sint (ld32 (dsk t (log_start (log s))) 0) = 0 \<and> (\<forall>i < n. dsk t (home s i) = blk s (home s i)) \<and>
     (\<forall>b. b \<notin> log_area s \<longrightarrow> b \<notin> home s ` {..<n} \<longrightarrow> dsk t b = dsk s b)"

lemma crash_cases:
  assumes x: "txn pid n s" and j: "j \<le> length (commit_steps n)"
  shows "\<exists>t. fs_run pid (block (take j (commit_steps n))) s () t \<and> cache_inv pid Map.empty t \<and> length (disk t) = length (disk s) \<and>
     log_start (log t) = log_start (log s) \<and> log_dev (log t) = log_dev (log s) \<and>
     (if j \<le> n then crash_old s t else crash_redo n s t \<or> crash_new n s t)"
proof -
  consider "j \<le> n" | m where "m \<le> n" "j = n + 1 + m" | "j = 2 * n + 2"
  proof -
    assume 1: "j \<le> n \<Longrightarrow> thesis" and 2: "\<And>m. m \<le> n \<Longrightarrow> j = n + 1 + m \<Longrightarrow> thesis" and 3: "j = 2 * n + 2 \<Longrightarrow> thesis"
    show thesis using 1 2 [of "j - n - 1"] 3 j unfolding length_commit_steps by linarith
  qed
  then show ?thesis
  proof cases
    case 1
    from logged_run [OF x 1] obtain t where
      t: "fs_run pid (block (map write_log_step [0..<j])) s () t" "moved pid (logb s) (home s) j s t" "logged s t" by blast
    then show ?thesis unfolding take_commit_steps(1) [OF 1] using 1
      by (intro exI [of _ t]) (simp add: moved_def logged_def crash_old_def)
  next
    case (2 m)
    from installed_run [OF x 2(1)] obtain t where
      t: "fs_run pid (block (take j (commit_steps n))) s () t" "txn pid n t" "installed n m s t"
      unfolding take_commit_steps(2) [OF 2(1), folded 2(2)] by blast
    have "crash_redo n s t" using t(3) 2(1) unfolding installed_def crash_redo_def by (simp add: image_iff)
    then show ?thesis using t txnD(1) [OF t(2)] 2(2) by (intro exI [of _ t]) (simp add: installed_def)
  next
    case 3
    from installed_run [OF x order_refl] obtain t1 where
      1: "fs_run pid (block (map write_log_step [0..<n] @ [write_head] @ map install_step [0..<n])) s () t1" "txn pid n t1" "installed n n s t1"
      by blast
    have l1: "log t1 = log s" using 1(3) by (simp add: installed_def)
    from txn_write_head(2) [OF 1(2)] obtain t where
      2: "fs_run pid (seq (set_log (\<lambda>l. l\<lparr>lh_n := 0\<rparr>)) write_head) t1 () t" "headed pid ((log s)\<lparr>lh_n := 0\<rparr>) t1 t" unfolding l1 by blast
    have "fs_run pid (block ((map write_log_step [0..<n] @ [write_head] @ map install_step [0..<n]) @
        [seq (set_log (\<lambda>l. l\<lparr>lh_n := 0\<rparr>)) write_head])) s () t"
      by (rule fs_run_block_append [OF 1(1) fs_run_block_Cons [OF 2(1) fs_run_block_Nil]])
    then have run: "fs_run pid (block (take j (commit_steps n))) s () t" using 3 by (simp add: commit_steps_def)
    let ?st = "log_start (log s)"
    have h: "cache_inv pid Map.empty t" "length (disk t) = length (disk t1)" "rest t = (rest t1)\<lparr>log := (log s)\<lparr>lh_n := 0\<rparr>\<rparr>"
      "dsk t = (dsk t1)(?st := head_data ((log s)\<lparr>lh_n := 0\<rparr>) (blk t1 ?st))"
      using 2(2) unfolding headed_def l1 by simp_all
    have lt: "log t = (log s)\<lparr>lh_n := 0\<rparr>" using arg_cong [OF h(3), of log] by (simp add: log_rest)
    have "unat ?st < length (disk t1)" using start_area [OF txnD(2) [OF 1(2)]] l1 by simp
    then have "length (blk t1 ?st) = BSIZE" by (rule length_blk [OF txnD(1) [OF 1(2)]])
    then have "sint (ld32 (head_data ((log s)\<lparr>lh_n := 0\<rparr>) (blk t1 ?st)) 0) = 0"
      using head_data_ld(2) [of "blk t1 ?st" "(log s)\<lparr>lh_n := 0\<rparr>"] by simp
    moreover have "home s i \<noteq> ?st" if "i < n" for i by (rule txn_start(2) [OF x that])
    moreover have "?st \<in> log_area s" using start_area [OF txnD(2) [OF x]] by blast
    ultimately have "crash_new n s t" using 1(3) h(4) unfolding crash_new_def installed_def by auto
    then show ?thesis using run h(1,2) lt 1(3) 3 by (intro exI [of _ t]) (simp add: installed_def)
  qed
qed

lemma commit_is_steps:
  assumes q: "quiet k" and x: "txn (mypid k) n k" and n: "0 < n"
  shows "commit k = block (commit_steps n) k"
proof -
  let ?a = "map write_log_step [0..<n] @ [write_head]"
  from header_run [of "mypid k" n "fsv k"] x obtain t where
    t: "fs_run (mypid k) (block ?a) (fsv k) () t" "installed n 0 (fsv k) t" by auto
  from fs_runD [OF t(1) q refl refl] obtain k1 where k1: "block ?a k = Ok () k1" "fsv k1 = t" by blast
  have l1: "lh_n (log k1) = int n" using t(2) txnD(3) [OF x] k1(2) by (auto simp: installed_def)
  let ?c = "[install_trans, set_log (\<lambda>l. l\<lparr>lh_n := 0\<rparr>), write_head]"
  have "commit k = seq (block ?a) (block ?c) k"
  proof -
    have e: "write_log k = block (map write_log_step [0..<n]) k"
      unfolding write_log_def using txnD(3) [OF x] by (simp add: block_for_each)
    have "commit k = seq write_log (block (write_head # ?c)) k"
      unfolding commit_def using txnD(3) [OF x] n by simp
    also have "\<dots> = seq (block (map write_log_step [0..<n])) (block ([write_head] @ ?c)) k" by (simp only: seq_apply e append_Cons append_Nil)
    also have "\<dots> = block (?a @ ?c) k" by (simp only: block_append [symmetric] append_assoc)
    finally show ?thesis by (simp only: block_append)
  qed
  also have "\<dots> = block ?c k1" using k1(1) by simp
  also have "\<dots> = block (map install_step [0..<n] @ [seq (set_log (\<lambda>l. l\<lparr>lh_n := 0\<rparr>)) write_head]) k1"
    using l1 by (simp add: install_trans_def block_append block_for_each seq_assoc split: res.split)
  also have "\<dots> = block (commit_steps n) k"
    using k1(1) block_append [of ?a "map install_step [0..<n] @ [seq (set_log (\<lambda>l. l\<lparr>lh_n := 0\<rparr>)) write_head]" k]
    by (simp add: commit_steps_def)
  finally show ?thesis .
qed

lemma crash_fsv [simp]: "crash_old (fsv s) t = crash_old s t" "crash_redo n (fsv s) t = crash_redo n s t" "crash_new n (fsv s) t = crash_new n s t"
  "crash_old s (fsv t) = crash_old s t" "crash_redo n s (fsv t) = crash_redo n s t" "crash_new n s (fsv t) = crash_new n s t"
  by (simp_all add: crash_old_def crash_redo_def crash_new_def)

lemma clean_home:
  assumes x: "txn pid n k" and b: "b \<notin> home k ` {..<n}"
  shows "dsk k b = blk k b"
proof -
  have "set (take n (lh_block (log k))) \<subseteq> home k ` {..<n}"
    using txnD(2,4) [OF x] by (auto simp: log_geom_def in_set_conv_nth)
  then have "b \<notin> dirt k" using txnD(6) [OF x] b by blast
  then show ?thesis using clean_blk [OF txnD(1) [OF x], of b] by (simp add: dsk_def)
qed

lemma crash_recover:
  assumes x: "txn pid n k" and k': "quiet k'" "cache_inv pid Map.empty k'" "length (disk k') = length (disk k)"
      "log_start (log k') = log_start (log k)" "log_dev (log k') = log_dev (log k)"
  shows "crash_old k k' \<Longrightarrow> ld32 (dsk k (log_start (log k))) 0 = 0 \<Longrightarrow>
       \<exists>r. recover_from_log (reboot k') = Ok () r \<and> lh_n (log r) = 0 \<and> (\<forall>b. b \<notin> log_area k \<longrightarrow> dsk r b = dsk k b)"
    and "crash_new n k k' \<Longrightarrow>
       \<exists>r. recover_from_log (reboot k') = Ok () r \<and> lh_n (log r) = 0 \<and> (\<forall>b. b \<notin> log_area k \<longrightarrow> dsk r b = blk k b)"
    and "crash_redo n k k' \<Longrightarrow>
       \<exists>r. recover_from_log (reboot k') = Ok () r \<and> lh_n (log r) = 0 \<and> (\<forall>b. b \<notin> log_area k \<longrightarrow> dsk r b = blk k b)"
proof -
  let ?st = "log_start (log k)"
  have area: "log_area k' = log_area k" using k'(4) by (simp add: log_area_def)
  have g: "log_dev (log k') = 1" "unat (log_start (log k')) + LOGSIZE \<le> length (disk k')" "unat (log_start (log k')) + LOGSIZE < 2 ^ 32"
    using txnD(2) [OF x] k'(3-) by (simp_all add: log_geom_def)
  note rec = recover_reboot [OF k'(1) cache_invD(2) [OF k'(2)] g]
  have st: "?st \<in> log_area k" using start_area [OF txnD(2) [OF x]] by blast
  have none: "\<exists>r. recover_from_log (reboot k') = Ok () r \<and> lh_n (log r) = 0 \<and> (\<forall>b. b \<notin> log_area k \<longrightarrow> dsk r b = dsk k' b)"
    if "sint (ld32 (dsk k' ?st) 0) = 0"
  proof -
    have "\<exists>r. recover_from_log (reboot k') = Ok () r \<and> lh_n (log r) = 0 \<and> (\<forall>b. b \<noteq> ?st \<longrightarrow> dsk r b = dsk k' b)"
      using rec [of 0 of_nat] that unfolding k'(4) by simp
    then show ?thesis using st by metis
  qed
  show "\<exists>r. recover_from_log (reboot k') = Ok () r \<and> lh_n (log r) = 0 \<and> (\<forall>b. b \<notin> log_area k \<longrightarrow> dsk r b = dsk k b)"
    if "crash_old k k'" "ld32 (dsk k ?st) 0 = 0"
    using none that unfolding crash_old_def by simp
  show "\<exists>r. recover_from_log (reboot k') = Ok () r \<and> lh_n (log r) = 0 \<and> (\<forall>b. b \<notin> log_area k \<longrightarrow> dsk r b = blk k b)"
    if c: "crash_new n k k'"
  proof -
    have "dsk k' b = blk k b" if "b \<notin> log_area k" for b
      using c that clean_home [OF x, of b] unfolding crash_new_def by (cases "b \<in> home k ` {..<n}") auto
    then show ?thesis using none c unfolding crash_new_def by simp
  qed
  show "\<exists>r. recover_from_log (reboot k') = Ok () r \<and> lh_n (log r) = 0 \<and> (\<forall>b. b \<notin> log_area k \<longrightarrow> dsk r b = blk k b)"
    if c: "crash_redo n k k'"
  proof -
    have "unat ?st < length (disk k)" using start_area [OF txnD(2) [OF x]] by blast
    then have lb: "length (blk k ?st) = BSIZE" by (rule length_blk [OF txnD(1) [OF x]])
    have "0 \<le> lh_n (log k)" "lh_n (log k) \<le> int LOGSIZE" using txnD(3,4) [OF x] by simp_all
    note h = head_data_ld [OF lb this]
    have d: "dsk k' ?st = head_data (log k) (blk k ?st)" using c by (simp add: crash_redo_def)
    have "inj_on (home k) {..<n}" using txn_home(4) [OF x] by (auto simp: inj_on_def)
    then obtain r where
      r: "recover_from_log (reboot k') = Ok () r" "lh_n (log r) = 0" "\<forall>i < n. dsk r (home k i) = dsk k' (logb k' i)"
        "\<forall>b. b \<notin> home k ` {..<n} \<longrightarrow> b \<noteq> ?st \<longrightarrow> dsk r b = dsk k' b"
      using rec [of n "home k"] h(2,3) txnD(3,4) [OF x] txn_home(2,3) [OF x] unfolding k'(3,4) d area by auto
    have "dsk r b = blk k b" if "b \<notin> log_area k" for b
    proof (cases "b \<in> home k ` {..<n}")
      case True
      then show ?thesis using r(3) c k'(4) unfolding crash_redo_def by auto
    next
      case False
      then show ?thesis using r(4) c that st clean_home [OF x False] unfolding crash_redo_def by metis
    qed
    then show ?thesis using r(1,2) by blast
  qed
qed

text \<open>C28: Committing is atomic over crashes.  \<^verbatim>\<open>commit()\<close> of \<open>n\<close> logged blocks is a
  sequence of \<open>2 n + 2\<close> block writes.  If the machine stops after any \<open>j\<close> of them and
  starts again, \<^verbatim>\<open>recover_from_log()\<close> leaves every block outside the log with its content of
  before the transaction when \<open>j \<le> n\<close>, and with the content the transaction gave it when
  \<open>j > n\<close>, that is as soon as the header has been written.\<close>

theorem log_crash_atomic:
  assumes q: "quiet k" and x: "txn (mypid k) n k" and n: "0 < n" and empty_log: "ld32 (dsk k (log_start (log k))) 0 = 0"
    and j: "j \<le> length (commit_steps n)"
  shows "commit k = block (commit_steps n) k \<and>
     (\<exists>k' r. block (take j (commit_steps n)) k = Ok () k' \<and> recover_from_log (reboot k') = Ok () r \<and> lh_n (log r) = 0 \<and>
       (\<forall>b. b \<notin> log_area k \<longrightarrow> disk r ! unat b = (if j \<le> n then disk k ! unat b else blk k b)))"
proof
  show "commit k = block (commit_steps n) k" by (rule commit_is_steps [OF q x n])
  have "txn (mypid k) n (fsv k)" using x by simp
  from crash_cases [OF this j] obtain t where
    t: "fs_run (mypid k) (block (take j (commit_steps n))) (fsv k) () t" "cache_inv (mypid k) Map.empty t" "length (disk t) = length (disk k)"
      "log_start (log t) = log_start (log k)" "log_dev (log t) = log_dev (log k)"
      "if j \<le> n then crash_old k t else crash_redo n k t \<or> crash_new n k t"
    unfolding crash_fsv fsv_simps by blast
  from fs_runD [OF t(1) q refl refl] obtain k' where k': "block (take j (commit_steps n)) k = Ok () k'" "quiet k'" "fsv k' = t" by blast
  have "\<exists>r. recover_from_log (reboot k') = Ok () r \<and> lh_n (log r) = 0 \<and>
    (\<forall>b. b \<notin> log_area k \<longrightarrow> dsk r b = (if j \<le> n then dsk k b else blk k b))"
    using crash_recover [OF x k'(2)] t(2-) empty_log unfolding k'(3) [symmetric] by (auto split: if_splits)
  then show "\<exists>k' r. block (take j (commit_steps n)) k = Ok () k' \<and> recover_from_log (reboot k') = Ok () r \<and> lh_n (log r) = 0 \<and>
       (\<forall>b. b \<notin> log_area k \<longrightarrow> disk r ! unat b = (if j \<le> n then disk k ! unat b else blk k b))"
    using k'(1) unfolding dsk_def by blast
qed

text \<open>One process, and a transaction that gives block 35 a new content.\<close>

definition crash_base :: kernel where
  "crash_base = kernel0\<lparr>mach := machine0\<lparr>cpus := [cpu0\<lparr>c_proc := Some 0\<rparr>]\<rparr>, disk := replicate 40 (replicate BSIZE 0)\<rparr>"

definition crash_buf :: buf where
  "crash_buf = (boot_bufs ! 0)\<lparr>b_valid := True, b_dirty := True, b_dev := 1, b_blockno := 35, b_data := replicate BSIZE 1\<rparr>"

definition crash_example :: kernel where
  "crash_example = (put_buf 0 crash_buf sleeplock0 (reboot crash_base))\<lparr>log := log0\<lparr>log_start := 2, log_size := 30, log_dev := 1,
     lh_n := 1, lh_block := 35 # replicate 29 0\<rparr>\<rparr>"

lemma crash_example_cache:
  "cache_inv pid Map.empty crash_example" "dirt crash_example = {35}" "blk crash_example 35 = replicate BSIZE 1"
proof -
  have d: "disk (reboot crash_base) = replicate 40 (replicate BSIZE 0)" by (simp add: reboot_def crash_base_def)
  have inv: "cache_inv pid Map.empty (reboot crash_base)" and clean: "dirt (reboot crash_base) = {}"
    by (rule reboot_cache, simp add: crash_base_def)+
  have b0: "buf_at (reboot crash_base) 0 = boot_bufs ! 0" by (simp add: reboot_def)
  have len: "length (bufs (reboot crash_base)) = NBUF + 1" by (rule cache_invD(1) [OF inv])
  have fresh: "\<not> b_valid (buf_at (reboot crash_base) j)" if "j < NBUF" for j
    using core_fields(1) [OF boot_bufs_facts(2) [OF that]] by (simp add: reboot_def buf0_def)
  have rc: "b_refcnt (boot_bufs ! 0) = 0" using core_fields(5) [OF boot_bufs_facts(2) [of 0]] by (simp add: buf0_def)
  have "cache_inv pid (Map.empty(0 := None)) (put_buf 0 crash_buf sleeplock0 (reboot crash_base))"
    by (rule put_buf_inv [OF inv]) (use d b0 fresh len rc in \<open>auto simp: crash_buf_def buf_ok_def idle_buf_def sleeplock0_def\<close>)
  then have inv': "cache_inv pid Map.empty (put_buf 0 crash_buf sleeplock0 (reboot crash_base))" by simp
  then show "cache_inv pid Map.empty crash_example" by (simp add: crash_example_def)
  show "dirt crash_example = {35}"
    using clean by (simp add: crash_example_def dirt_put_buf [OF inv]) (auto simp: dirt_def crash_buf_def)
  have "blk (put_buf 0 crash_buf sleeplock0 (reboot crash_base)) = (blk (reboot crash_base))(b_blockno crash_buf := b_data crash_buf)"
    by (rule blk_put_buf [OF inv inv']) (use fresh in \<open>simp_all add: crash_buf_def\<close>)
  then show "blk crash_example 35 = replicate BSIZE 1" by (simp add: crash_example_def crash_buf_def)
qed

lemma crash_example_txn: "quiet crash_example" "txn (mypid crash_example) 1 crash_example"
  "ld32 (dsk crash_example (log_start (log crash_example))) 0 = 0" "35 \<notin> log_area crash_example"
proof -
  have d: "disk crash_example = replicate 40 (replicate BSIZE 0)" "log crash_example = log0\<lparr>log_start := 2, log_size := 30, log_dev := 1,
     lh_n := 1, lh_block := 35 # replicate 29 0\<rparr>"
    by (simp_all add: crash_example_def reboot_def crash_base_def)
  show a: "35 \<notin> log_area crash_example" by (simp add: log_area_def d log0_def)
  show "quiet crash_example"
    by (simp add: crash_example_def put_buf_def reboot_def crash_base_def quiet_def cold_defs ready_def here_def lock_free_def)
  show "txn (mypid crash_example) 1 crash_example"
    unfolding txn_def using crash_example_cache(1) crash_example_cache(2) a by (simp add: d log_geom_def log0_def)
  show "ld32 (dsk crash_example (log_start (log crash_example))) 0 = 0" by (simp add: dsk_def d log0_def ld32_def)
qed

theorem log_crash_atomic_witness:
  "(\<exists>k' r. block (take 1 (commit_steps 1)) crash_example = Ok () k' \<and> recover_from_log (reboot k') = Ok () r \<and>
      disk r ! 35 = replicate BSIZE 0) \<and>
   (\<exists>k' r. block (take 2 (commit_steps 1)) crash_example = Ok () k' \<and> recover_from_log (reboot k') = Ok () r \<and>
      disk r ! 35 = replicate BSIZE 1)"
proof -
  note c = crash_example_txn and b = crash_example_cache(3)
  have d: "disk crash_example ! 35 = replicate BSIZE 0" by (simp add: crash_example_def reboot_def crash_base_def)
  have l: "j \<le> 4 \<Longrightarrow> j \<le> length (commit_steps 1)" for j by (simp add: length_commit_steps)
  have u: "unat (35 :: uint) = 35" by simp
  show ?thesis
    using log_crash_atomic [OF c(1,2) _ c(3) l [of 1]] log_crash_atomic [OF c(1,2) _ c(3) l [of 2]] c(4) b d u
    by (fastforce)
qed

end
