(* ===== verification/Frame.thy ===== *)
theory Frame
  imports Log
begin

text \<open>
  What the routines leave alone.  \<open>keeps g f\<close> says that \<open>f\<close>, whether it returns or switches
  away, ends in a state with the same value of \<open>g\<close>.  The locales form a tower after the layers
  of the kernel: a part of the state that no lock operation changes is kept by every spinlock routine;
  one that does not depend on the process table either, by \<^verbatim>\<open>sleep()\<close> and
  \<^verbatim>\<open>wakeup()\<close>; and so on for the sleep-locks and the buffer cache.
\<close>

section \<open>Keeping a part of the state\<close>

named_theorems keeps_intros \<open>closure rules of \<open>keeps\<close>\<close>

definition keeps :: "('s \<Rightarrow> 'b) \<Rightarrow> ('s, 'a) op \<Rightarrow> bool" where
  "keeps g f \<longleftrightarrow> (\<forall>k. case f k of Ok x k' \<Rightarrow> g k' = g k | Fault e \<Rightarrow> True | Swtch k' \<Rightarrow> g k' = g k)"

lemma keepsD: "keeps g f \<Longrightarrow> f k = Ok x k' \<Longrightarrow> g k' = g k"
  by (auto simp: keeps_def split: res.splits)

lemma keepsD_Swtch: "keeps g f \<Longrightarrow> f k = Swtch k' \<Longrightarrow> g k' = g k"
  by (auto simp: keeps_def split: res.splits)

lemma keeps_basic [keeps_intros]:
  "keeps g (ret x)" "keeps g (gets h)" "keeps g (panic msg)" "keeps g (undef msg)" "keeps g spin" "keeps g swtch_out"
  by (simp_all add: keeps_def)

lemma keeps_modify [keeps_intros]: "(\<And>k. g (h k) = g k) \<Longrightarrow> keeps g (modify h)"
  by (simp add: keeps_def)

lemma keeps_bind [keeps_intros]: "keeps g f \<Longrightarrow> (\<And>x. keeps g (h x)) \<Longrightarrow> keeps g (bind f h)"
  unfolding keeps_def bind_apply by (fastforce split: res.splits)

lemma keeps_seq [keeps_intros]: "keeps g f \<Longrightarrow> keeps g h \<Longrightarrow> keeps g (seq f h)"
  unfolding seq_def by (intro keeps_intros)

lemma keeps_block [keeps_intros]: "keeps g (block [])" "keeps g f \<Longrightarrow> keeps g (block fs) \<Longrightarrow> keeps g (block (f # fs))"
  by (simp_all add: keeps_intros)

lemma keeps_if [keeps_intros]: "(b \<Longrightarrow> keeps g f) \<Longrightarrow> (\<not> b \<Longrightarrow> keeps g h) \<Longrightarrow> keeps g (if b then f else h)"
  by simp

lemma keeps_do_if [keeps_intros]: "keeps g f \<Longrightarrow> keeps g (do_if b f)"
  unfolding do_if_def by (intro keeps_intros)

lemma keeps_for_each [keeps_intros]: "(\<And>x. keeps g (f x)) \<Longrightarrow> keeps g (for_each xs f)"
  by (induction xs) (simp_all add: keeps_intros)

lemma keeps_option [keeps_intros]:
  "keeps g f \<Longrightarrow> (\<And>x. keeps g (h x)) \<Longrightarrow> keeps g (case p of None \<Rightarrow> f | Some x \<Rightarrow> h x)"
  by (simp split: option.split)

lemma keeps_deref [keeps_intros]: "(\<And>i. keeps g (f i)) \<Longrightarrow> keeps g (deref p f)"
  unfolding deref_def by (intro keeps_intros)

section \<open>Running without a switch\<close>

named_theorems stays_intros \<open>closure rules of \<open>stays\<close>\<close>

definition stays :: "('s, 'a) op \<Rightarrow> bool" where
  "stays f \<longleftrightarrow> (\<forall>k k'. f k \<noteq> Swtch k')"

lemma stays_basic [stays_intros]:
  "stays (ret x)" "stays (gets h)" "stays (panic msg)" "stays (undef msg)" "stays spin" "stays (modify u)"
  by (simp_all add: stays_def)

lemma stays_bind [stays_intros]: "stays f \<Longrightarrow> (\<And>x. stays (h x)) \<Longrightarrow> stays (bind f h)"
  by (simp add: stays_def split: res.split)

lemma stays_seq [stays_intros]: "stays f \<Longrightarrow> stays h \<Longrightarrow> stays (seq f h)"
  unfolding seq_def by (intro stays_intros)

lemma stays_block [stays_intros]: "stays (block [])" "stays f \<Longrightarrow> stays (block fs) \<Longrightarrow> stays (block (f # fs))"
  by (simp_all add: stays_intros)

lemma stays_if [stays_intros]: "(b \<Longrightarrow> stays f) \<Longrightarrow> (\<not> b \<Longrightarrow> stays h) \<Longrightarrow> stays (if b then f else h)"
  by simp

lemma stays_do_if [stays_intros]: "stays f \<Longrightarrow> stays (do_if b f)"
  unfolding do_if_def by (intro stays_intros)

lemma stays_option [stays_intros]:
  "stays f \<Longrightarrow> (\<And>x. stays (h x)) \<Longrightarrow> stays (case p of None \<Rightarrow> f | Some x \<Rightarrow> h x)"
  by (simp split: option.split)

lemma stays_cli [stays_intros]: "stays (set_mach u)" "stays mycpu" "stays pushcli" "stays popcli"
  unfolding pushcli_def popcli_def cli_def sti_def set_cpu_def mycpu_def set_mach_def by (intro stays_intros)+

lemma stays_spinlock [stays_intros]: "stays (holding l)" "stays (acquire l)" "stays (release l)" "stays myproc"
  unfolding acquire_def release_def holding_def myproc_def set_lock_def by (intro stays_intros)+

section \<open>Spinlocks\<close>

locale lock_frame =
  fixes g :: "kernel \<Rightarrow> 'b"
  assumes mach_irrelevant: "g (k\<lparr>mach := m\<rparr>) = g k"
begin

lemma keeps_set_mach [keeps_intros]: "keeps g (set_mach f)"
  by (simp add: keeps_def mach_irrelevant)

lemma keeps_mycpu [keeps_intros]: "keeps g mycpu"
  unfolding mycpu_def by (intro keeps_intros)

lemma keeps_cli [keeps_intros]: "keeps g pushcli" "keeps g popcli"
  unfolding pushcli_def popcli_def cli_def sti_def set_cpu_def by (intro keeps_intros)+

lemma keeps_spinlock [keeps_intros]: "keeps g (holding l)" "keeps g (acquire l)" "keeps g (release l)" "keeps g myproc"
  unfolding acquire_def release_def holding_def myproc_def set_lock_def
  by (auto intro!: keeps_intros)

lemma keeps_with_lock [keeps_intros]: "keeps g f \<Longrightarrow> keeps g (with_lock l f)"
  unfolding with_lock_def by (intro keeps_intros)

end

section \<open>Sleeping and waking\<close>

locale sched_frame = lock_frame +
  assumes pt_irrelevant: "g (k\<lparr>pt := t\<rparr>) = g k"
begin

lemma keeps_set_proc [keeps_intros]: "keeps g (set_proc i f)"
  by (simp add: keeps_def pt_irrelevant)

lemma keeps_sched [keeps_intros]: "keeps g (sched from)"
  unfolding sched_def by (intro keeps_intros)

lemma keeps_sched_resume [keeps_intros]: "keeps g sched_resume"
  unfolding sched_resume_def set_cpu_def by (auto intro!: keeps_intros split: kcontext.split)

lemma keeps_sleep [keeps_intros]: "keeps g (sleep chan lk)" "keeps g (sleep_resume lk)"
  unfolding sleep_def sleep_resume_def by (intro keeps_intros)+

lemma keeps_wakeup [keeps_intros]: "keeps g (wakeup chan)"
  unfolding wakeup_def wakeup1_def by (intro keeps_intros pt_irrelevant)

lemma keeps_my [keeps_intros]: "keeps g (my f)"
  unfolding my_def by (intro keeps_intros)

end

section \<open>Sleep-locks\<close>

locale sleeplock_frame = sched_frame +
  assumes sleeplocks_irrelevant: "g (k\<lparr>sleeplocks := s\<rparr>) = g k"
begin

lemma keeps_set_sl [keeps_intros]: "keeps g (set_sl l f)"
  by (simp add: keeps_def sleeplocks_irrelevant)

lemma keeps_sleeplock [keeps_intros]:
  "keeps g (acquiresleep l)" "keeps g (acquiresleep_resume l)" "keeps g (releasesleep l)" "keeps g (holdingsleep l)"
  unfolding acquiresleep_def acquiresleep_resume_def acquiresleep_loop_def releasesleep_def holdingsleep_def
  by (intro keeps_intros)+

end

section \<open>The buffer cache\<close>

locale buffer_frame = sleeplock_frame +
  assumes bufs_irrelevant: "g (k\<lparr>bufs := b\<rparr>) = g k" and disk_irrelevant: "g (k\<lparr>disk := d\<rparr>) = g k"
begin

lemma keeps_set_buf [keeps_intros]: "keeps g (set_buf b f)"
  by (simp add: keeps_def bufs_irrelevant)

lemma keeps_iderw [keeps_intros]: "keeps g (iderw b)"
  unfolding iderw_def iderw_body_def by (intro keeps_intros bufs_irrelevant disk_irrelevant)

lemma keeps_bget [keeps_intros]: "keeps g (bget dev blockno)"
  unfolding bget_def bget_body_def by (intro keeps_intros)

lemma keeps_bio [keeps_intros]: "keeps g (bread dev blockno)" "keeps g (bwrite b)" "keeps g (brelse b)"
  unfolding bread_def bwrite_def brelse_def brelse_body_def move_front_def
  by (intro keeps_intros bufs_irrelevant)+

lemma keeps_copy_buf [keeps_intros]: "keeps g (copy_buf dst src)"
  unfolding copy_buf_def by (intro keeps_intros)

lemma keeps_log_io [keeps_intros]: "keeps g write_log" "keeps g install_trans" "keeps g write_head"
  unfolding write_log_def write_log_step_def install_trans_def install_step_def write_head_def
  by (intro keeps_intros)+

end

text \<open>The copy of the log in memory is such a part: only \<^verbatim>\<open>log.c\<close> itself writes it.\<close>

interpretation log_part: buffer_frame log
  by unfold_locales simp_all

end
