(* ===== verification/LogSpace.thy ===== *)
theory LogSpace
  imports Frame
begin

text \<open>
  The space of the log.  \<^verbatim>\<open>begin_op()\<close> admits a system call only when the log could take
  \<^verbatim>\<open>MAXOPBLOCKS\<close> more blocks for it and for every call in progress; \<^verbatim>\<open>log_write()\<close>
  panics when the log is full.  \<open>log_sys\<close> is the transition system of any number of system calls
  in progress on the log, with the number of \<^verbatim>\<open>log_write()\<close> calls each has made; the
  reservation is its invariant.
\<close>

section \<open>System calls in progress\<close>

text \<open>\<^verbatim>\<open>end_op()\<close> of the last call, after it has released the lock.\<close>

definition end_op_last :: "unit kop" where
  "end_op_last = block [commit, acquire L_log, set_log (\<lambda>l. l\<lparr>log_committing := False\<rparr>), wakeup (Some Ch_log), release L_log]"

lemma end_op_split: "end_op = bind (with_lock L_log end_op_first) (\<lambda>c. do_if c end_op_last)"
  by (simp add: end_op_def end_op_last_def)

text \<open>
  \<open>log_sys k us\<close>: the kernel can be in state \<open>k\<close> while calls are in progress that have
  written \<open>us\<close> blocks.  The critical sections of \<^verbatim>\<open>log.c\<close> are the steps; between
  them everything but the log may change.
\<close>

inductive log_sys :: "kernel \<Rightarrow> nat list \<Rightarrow> bool" where
  idle: "lh_n (log k) = 0 \<Longrightarrow> log_outstanding (log k) = 0 \<Longrightarrow> \<not> log_committing (log k) \<Longrightarrow> log_sys k []"
| other: "log_sys k us \<Longrightarrow> log k' = log k \<Longrightarrow> log_sys k' us"
| enter: "log_sys k us \<Longrightarrow> begin_op k = Ok () k' \<Longrightarrow> log_sys k' (0 # us)"
| reenter: "log_sys k us \<Longrightarrow> begin_op_resume k = Ok () k' \<Longrightarrow> log_sys k' (0 # us)"
| wait: "log_sys k us \<Longrightarrow> begin_op k = Swtch k' \<or> begin_op_resume k = Swtch k' \<Longrightarrow> log_sys k' us"
| wrote: "log_sys k us \<Longrightarrow> i < length us \<Longrightarrow> us ! i < MAXOPBLOCKS \<Longrightarrow> log_write b k = Ok () k' \<Longrightarrow>
    log_sys k' (us[i := Suc (us ! i)])"
| leave: "log_sys k us \<Longrightarrow> i < length us \<Longrightarrow> with_lock L_log end_op_first k = Ok c k' \<Longrightarrow>
    log_sys k' (take i us @ drop (Suc i) us)"
| committed: "log_sys k us \<Longrightarrow> log_committing (log k) \<Longrightarrow> end_op_last k = Ok () k' \<Longrightarrow> log_sys k' us"

section \<open>What each step does to the log\<close>

lemma set_log_apply [simp]: "set_log f k = Ok () (k\<lparr>log := f (log k)\<rparr>)"
  by (simp add: set_log_def)

lemma keeps_lock_log: "acquire l k = Ok () k' \<Longrightarrow> log k' = log k" "release l k = Ok () k' \<Longrightarrow> log k' = log k"
  "wakeup chan k = Ok () k' \<Longrightarrow> log k' = log k" "sleep_resume l k = Ok () k' \<Longrightarrow> log k' = log k"
  by (erule keepsD [of log, rotated], rule keeps_intros)+

lemma keeps_log_Swtch: "sleep ch l k = Swtch k' \<Longrightarrow> log k' = log k" "sleep_resume l k = Swtch k' \<Longrightarrow> log k' = log k"
  by (erule keepsD_Swtch [of log, rotated], rule keeps_intros)+

lemma with_lock_log:
  assumes "with_lock l f k = Ok x k'"
  obtains k1 k2 where "log k1 = log k" "f k1 = Ok x k2" "log k' = log k2"
  using assms unfolding with_lock_def seq_Ok_iff bind_Ok_iff by (auto dest: keeps_lock_log)

text \<open>A call of \<^verbatim>\<open>sleep()\<close> does not return before the process is resumed.\<close>

lemma sched_not_Ok: "sched from k \<noteq> Ok x k'"
  unfolding sched_def bind_Ok_iff by (auto simp: deref_def split: if_splits option.splits res.splits)

lemma sleep_not_Ok: "sleep ch l k \<noteq> Ok x k'"
  unfolding sleep_def bind_Ok_iff by (auto simp: sched_not_Ok split: option.splits res.splits)

lemma lock_not_Swtch: "acquire l k \<noteq> Swtch k'" "release l k \<noteq> Swtch k'"
  using stays_spinlock(2,3) unfolding stays_def by blast+

definition space_ok :: "log \<Rightarrow> nat list \<Rightarrow> bool" where
  "space_ok l us \<longleftrightarrow> 0 \<le> lh_n l \<and> log_outstanding l = int (length us) \<and> (log_committing l \<longrightarrow> us = []) \<and>
     (\<forall>u \<in> set us. u \<le> MAXOPBLOCKS) \<and> lh_n l + int (\<Sum>u\<leftarrow>us. MAXOPBLOCKS - u) \<le> int LOGSIZE"

lemma begin_op_loop_log:
  "begin_op_loop k = Ok () k' \<Longrightarrow> \<not> log_committing (log k) \<and>
     lh_n (log k) + (log_outstanding (log k) + 1) * int MAXOPBLOCKS \<le> int LOGSIZE \<and>
     log k' = (log k)\<lparr>log_outstanding := log_outstanding (log k) + 1\<rparr>"
  "begin_op_loop k = Swtch k' \<Longrightarrow> log k' = log k"
  by (auto simp: begin_op_loop_def sleep_not_Ok lock_not_Swtch split: if_splits res.splits dest!: keeps_lock_log keeps_log_Swtch)

lemma begin_op_log:
  assumes "begin_op k = Ok () k' \<or> begin_op_resume k = Ok () k'"
  shows "\<not> log_committing (log k) \<and> lh_n (log k) + (log_outstanding (log k) + 1) * int MAXOPBLOCKS \<le> int LOGSIZE \<and>
     log k' = (log k)\<lparr>log_outstanding := log_outstanding (log k) + 1\<rparr>"
  using assms by (auto simp: begin_op_def begin_op_resume_def split: res.splits dest!: keeps_lock_log begin_op_loop_log(1))

lemma begin_op_wait:
  "begin_op k = Swtch k' \<or> begin_op_resume k = Swtch k' \<Longrightarrow> log k' = log k"
  by (auto simp: begin_op_def begin_op_resume_def lock_not_Swtch split: res.splits
      dest!: keeps_lock_log begin_op_loop_log(2) keeps_log_Swtch)

lemma log_write_log:
  assumes "log_write b k = Ok () k'"
  shows "\<exists>bn. log k' = log_enter bn (log k)"
proof -
  from assms have "with_lock L_log (log_write_body b) k = Ok () k'"
    by (auto simp: log_write_def split: if_splits)
  then obtain k1 k2 where "log k1 = log k" "log_write_body b k1 = Ok () k2" "log k' = log k2"
    by (rule with_lock_log)
  then show ?thesis by (auto simp: log_write_body_def)
qed

lemma log_enter_n: "lh_n (log_enter bn l) \<le> lh_n l + 1" "0 \<le> lh_n l \<Longrightarrow> 0 \<le> lh_n (log_enter bn l)"
  "log_outstanding (log_enter bn l) = log_outstanding l" "log_committing (log_enter bn l) = log_committing l"
  by (simp_all add: log_enter_def Let_def)

lemma end_op_first_log:
  assumes "with_lock L_log end_op_first k = Ok c k'"
  shows "\<not> log_committing (log k) \<and> log k' = (log k)\<lparr>log_outstanding := log_outstanding (log k) - 1,
    log_committing := (log_outstanding (log k) = 1)\<rparr>"
proof -
  from assms obtain k1 k2 where "log k1 = log k" "end_op_first k1 = Ok c k2" "log k' = log k2"
    by (rule with_lock_log)
  then show ?thesis by (auto simp: end_op_first_def split: if_splits res.splits dest!: keeps_lock_log)
qed

lemma commit_log:
  assumes "commit k = Ok () k'"
  shows "log k' = (if lh_n (log k) > 0 then (log k)\<lparr>lh_n := 0\<rparr> else log k)"
proof -
  have "write_log k = Ok () k' \<Longrightarrow> log k' = log k" "write_head k = Ok () k' \<Longrightarrow> log k' = log k"
    "install_trans k = Ok () k' \<Longrightarrow> log k' = log k" for k k'
    by (erule keepsD [of log, rotated], rule keeps_intros)+
  with assms show ?thesis by (fastforce simp: commit_def split: if_splits res.splits)
qed

lemma end_op_last_log:
  assumes "end_op_last k = Ok () k'"
  shows "log k' = (if lh_n (log k) > 0 then (log k)\<lparr>lh_n := 0, log_committing := False\<rparr> else (log k)\<lparr>log_committing := False\<rparr>)"
proof -
  from assms obtain k1 k2 k3 where "commit k = Ok () k1" "acquire L_log k1 = Ok () k2"
      "wakeup (Some Ch_log) (k2\<lparr>log := (log k2)\<lparr>log_committing := False\<rparr>\<rparr>) = Ok () k3" "release L_log k3 = Ok () k'"
    by (auto simp: end_op_last_def split: res.splits)
  then show ?thesis by (auto dest!: commit_log keeps_lock_log)
qed

section \<open>The reservation\<close>

lemma room_upd:
  assumes "i < length us" and "us ! i < m"
  shows "(\<Sum>u\<leftarrow>us[i := Suc (us ! i)]. m - u) + 1 = (\<Sum>u\<leftarrow>us. m - u)"
  using assms
proof (induction us arbitrary: i)
  case (Cons u us)
  then show ?case by (cases i) auto
qed simp

lemma room_drop: "(\<Sum>u\<leftarrow>take i us @ drop (Suc i) us. m - u) \<le> (\<Sum>u\<leftarrow>us. m - u :: nat)"
proof (induction us arbitrary: i)
  case (Cons u us)
  then show ?case by (cases i) (auto intro: trans_le_add2)
qed simp

lemma room_full: "(\<Sum>u\<leftarrow>us. m - u) \<le> length us * (m :: nat)"
  by (induction us) auto

lemma room_pos: "i < length us \<Longrightarrow> us ! i < m \<Longrightarrow> 0 < (\<Sum>u\<leftarrow>us. m - u :: nat)"
  using room_upd [of i us m] by linarith

lemma log_sys_space: "log_sys k us \<Longrightarrow> space_ok (log k) us"
proof (induction rule: log_sys.induct)
  case (idle k)
  then show ?case by (simp add: space_ok_def)
next
  case (other k us k')
  then show ?case by simp
next
  case (enter k us k')
  have "(\<Sum>u\<leftarrow>us. MAXOPBLOCKS - u) \<le> length us * MAXOPBLOCKS" by (rule room_full)
  then show ?case using enter(3) begin_op_log [OF disjI1, OF enter(2)] by (simp add: space_ok_def algebra_simps)
next
  case (reenter k us k')
  have "(\<Sum>u\<leftarrow>us. MAXOPBLOCKS - u) \<le> length us * MAXOPBLOCKS" by (rule room_full)
  then show ?case using reenter(3) begin_op_log [OF disjI2, OF reenter(2)] by (simp add: space_ok_def algebra_simps)
next
  case (wait k us k')
  then show ?case using begin_op_wait by simp
next
  case (wrote k us i b k')
  from log_write_log [OF wrote(4)] obtain bn where "log k' = log_enter bn (log k)" ..
  moreover have "\<forall>u \<in> set (us[i := Suc (us ! i)]). u \<le> MAXOPBLOCKS"
    using wrote(3,5) set_update_subset_insert [of us i "Suc (us ! i)"] by (auto simp: space_ok_def)
  ultimately show ?case
    using wrote(2,5) log_enter_n [where bn = bn and l = "log k"] room_upd [OF wrote(2,3)] by (auto simp: space_ok_def)
next
  case (leave k us i c k')
  have "set (take i us @ drop (Suc i) us) \<subseteq> set us" by (auto dest: in_set_takeD in_set_dropD)
  moreover have "length us = 1 \<longrightarrow> take i us @ drop (Suc i) us = []" using leave(2) by auto
  ultimately show ?case
    using leave(2,4) end_op_first_log [OF leave(3)] room_drop [where m = MAXOPBLOCKS and i = i and us = us]
    by (auto simp: space_ok_def)
next
  case (committed k us k')
  then show ?case using end_op_last_log [OF committed(3)] by (auto simp: space_ok_def)
qed


section \<open>A log of \<open>LOGSIZE\<close> blocks is one block short\<close>

text \<open>Logs that calls in progress can produce, from the kernel that runs them.\<close>

definition log_can :: "log \<Rightarrow> nat list \<Rightarrow> bool" where
  "log_can l us \<longleftrightarrow> (\<forall>k. log k = l \<longrightarrow> log_sys k us)"

lemma log_canI: "log_sys k us \<Longrightarrow> log k = l \<Longrightarrow> log_can l us"
  by (auto simp: log_can_def intro: log_sys.other)

text \<open>A kernel with one process, and a cache with one buffer that holds block \<open>bn\<close>.\<close>

definition log_host :: "uint \<Rightarrow> log \<Rightarrow> kernel" where
  "log_host bn l = kernel0\<lparr>bufs := [buf0\<lparr>b_blockno := bn\<rparr>], log := l\<rparr>"

lemma log_host_simps [simp]: "log (log_host bn l) = l" "b_blockno (buf_at (log_host bn l) 0) = bn"
  "ready (mach (log_host bn l))" "lock_free x (mach (log_host bn l))"
  by (simp_all add: log_host_def cold_defs ready_def here_def lock_free_def)

lemma log_can_enter:
  assumes "log_can l us" and "\<not> log_committing l" and "lh_n l + (log_outstanding l + 1) * int MAXOPBLOCKS \<le> int LOGSIZE"
  shows "log_can (l\<lparr>log_outstanding := log_outstanding l + 1\<rparr>) (0 # us)"
proof -
  let ?k = "log_host 0 l"
  have "begin_op ?k = Ok () (?k\<lparr>log := l\<lparr>log_outstanding := log_outstanding l + 1\<rparr>, mach := sync_m (mach ?k)\<rparr>)"
    using assms(2,3) by (simp add: begin_op_def begin_op_loop_def lock_simps)
  then show ?thesis using assms(1) by (intro log_canI [OF log_sys.enter]) (auto simp: log_can_def)
qed

lemma log_can_write:
  assumes "log_can l us" and "i < length us" and "us ! i < MAXOPBLOCKS" and "1 \<le> log_outstanding l"
    and "lh_n l < int LOGSIZE" and "lh_n l < log_size l - 1"
  shows "log_can (log_enter bn l) (us[i := Suc (us ! i)])"
proof -
  let ?k = "log_host bn l"
  have "log_write 0 ?k = Ok () (?k\<lparr>log := log_enter bn l, bufs := upd_at 0 (\<lambda>y. y\<lparr>b_dirty := True\<rparr>) (bufs ?k), mach := sync_m (mach ?k)\<rparr>)"
    using assms(4-) by (simp add: log_write_def with_lock_def log_write_body_def lock_simps)
  then show ?thesis using assms(1-3) by (intro log_canI [OF log_sys.wrote]) (auto simp: log_can_def)
qed

text \<open>Three calls in progress that have logged the blocks 1 to \<open>n\<close>.\<close>

definition filled :: "nat \<Rightarrow> log \<Rightarrow> bool" where
  "filled n l \<longleftrightarrow> lh_n l = int n \<and> log_outstanding l = 3 \<and> log_size l = int LOGSIZE \<and> length (lh_block l) = LOGSIZE \<and>
     (\<forall>x \<in> set (take n (lh_block l)). unat x \<le> n)"

lemma filled_enter:
  assumes "filled n l" and "n < LOGSIZE"
  shows "filled (Suc n) (log_enter (of_nat (Suc n)) l)"
proof -
  have u: "unat (of_nat (Suc n) :: uint) = Suc n" using assms(2) unfolding unat_of_nat by simp
  have "find_idx (\<lambda>x. x = of_nat (Suc n)) (take n (lh_block l)) = None"
    unfolding find_idx_None_iff using assms(1) u unfolding filled_def by (metis Suc_n_not_le_n)
  then have "log_slot l (of_nat (Suc n)) = n" using assms(1) by (simp add: log_slot_def filled_def)
  then show ?thesis using assms u by (auto simp: filled_def log_enter_def take_Suc_conv_app_nth le_SucI)
qed

lemma budget_left:
  assumes "sum_list us < length us * m"
  shows "\<exists>i < length us. us ! i < (m :: nat)"
proof (rule ccontr)
  assume "\<not> ?thesis"
  then have "\<forall>u \<in> set us. m \<le> u" by (metis in_set_conv_nth not_less)
  then have "length us * m \<le> sum_list us" by (induction us) auto
  then show False using assms by simp
qed

lemma sum_list_bump: "i < length us \<Longrightarrow> sum_list (us[i := Suc (us ! i)]) = Suc (sum_list us)"
  by (induction us arbitrary: i) (auto simp: nth_Cons' split: nat.split)

lemma log_fill:
  "n \<le> LOGSIZE - 1 \<Longrightarrow> \<exists>l us. log_can l us \<and> length us = 3 \<and> sum_list us = n \<and> filled n l"
proof (induction n)
  case 0
  let ?l = "log0\<lparr>log_size := int LOGSIZE\<rparr>"
  have "log_can ?l []" by (auto simp: log_can_def log0_def intro: log_sys.idle)
  from log_can_enter [OF log_can_enter [OF log_can_enter [OF this]]]
  have "log_can (?l\<lparr>log_outstanding := 3\<rparr>) [0, 0, 0]" by (simp add: log0_def)
  moreover have "filled 0 (?l\<lparr>log_outstanding := 3\<rparr>)" by (simp add: filled_def log0_def)
  ultimately show ?case by (intro exI [of _ "?l\<lparr>log_outstanding := 3\<rparr>"] exI [of _ "[0, 0, 0]"]) simp
next
  case (Suc n)
  then obtain l us where l: "log_can l us" "length us = 3" "sum_list us = n" "filled n l" by auto
  with Suc(2) obtain i where i: "i < length us" "us ! i < MAXOPBLOCKS" using budget_left [of us MAXOPBLOCKS] by auto
  have "log_can (log_enter (of_nat (Suc n)) l) (us[i := Suc (us ! i)])"
    by (rule log_can_write [OF l(1) i]) (use l(4) Suc(2) in \<open>auto simp: filled_def\<close>)
  with l i filled_enter [OF l(4)] Suc(2) sum_list_bump [OF i(1)] show ?case
    by (intro exI [of _ "log_enter (of_nat (Suc n)) l"] exI [of _ "us[i := Suc (us ! i)]"]) simp
qed

text \<open>C17: A log of \<^verbatim>\<open>LOGSIZE\<close> blocks on the disk, the size \<^verbatim>\<open>mkfs\<close> gives it
  (header included), is too small for the reservation: three calls in progress, all within
  \<^verbatim>\<open>MAXOPBLOCKS\<close>, can reach a state where the next \<^verbatim>\<open>log_write()\<close> panics,
  whatever its buffer.
\<close>

theorem log_overcommit:
  "\<exists>k us i. log_sys k us \<and> length us = 3 \<and> i < 3 \<and> us ! i < MAXOPBLOCKS \<and> log_size (log k) = int LOGSIZE \<and>
     (\<forall>b. log_write b k = Fault (Panic ''too big a transaction''))"
proof -
  from log_fill [of "LOGSIZE - 1"] obtain l us where
    l: "log_can l us" "length us = 3" "sum_list us = LOGSIZE - 1" "filled (LOGSIZE - 1) l" by auto
  then obtain i where i: "i < length us" "us ! i < MAXOPBLOCKS" using budget_left [of us MAXOPBLOCKS] by auto
  let ?k = "log_host 0 l"
  have "\<forall>b. log_write b ?k = Fault (Panic ''too big a transaction'')" "log_size l = int LOGSIZE"
    using l(4) by (simp_all add: log_write_def filled_def)
  moreover have "log_sys ?k us" using l(1) by (simp add: log_can_def)
  ultimately show ?thesis using l(2) i by (intro exI [of _ ?k] exI [of _ us] exI [of _ i]) simp
qed


end
