(* ===== verification/Fs.thy ===== *)
theory Fs
  imports Log
begin

unbundle bit_operations_syntax

text \<open>
  \<^verbatim>\<open>fs.c\<close>: blocks, inodes, directories and path names.

  A reference to an inode is its number in the inode cache.  A routine that copies bytes to a buffer
  of its caller returns them as a list, and one that copies bytes from a buffer takes a list; the
  error return \<^verbatim>\<open>-1\<close> of the former is \<open>None\<close>.  A C string is the list of its characters
  without the terminating zero.  The device table \<^verbatim>\<open>devsw\<close> of \<^verbatim>\<open>file.c\<close> holds pointers
  to routines, and is an argument \<open>dv\<close> of the routines that call through it.

  A routine that finds a sleep lock taken ends in \<open>Swtch\<close> inside \<^verbatim>\<open>acquiresleep()\<close>; the
  definitions describe runs that do not wait there.
\<close>

section \<open>Constants and layouts\<close>

abbreviation ROOTINO :: uint where "ROOTINO \<equiv> 1"
abbreviation NDIRECT :: nat where "NDIRECT \<equiv> 12"
abbreviation NINDIRECT :: nat where "NINDIRECT \<equiv> 128"
abbreviation MAXFILE :: nat where "MAXFILE \<equiv> 140"
abbreviation DIRSIZ :: nat where "DIRSIZ \<equiv> 14"
abbreviation IPB :: nat where "IPB \<equiv> 8"
abbreviation BPB :: nat where "BPB \<equiv> 4096"
abbreviation T_DIR :: ushort where "T_DIR \<equiv> 1"
abbreviation T_FILE :: ushort where "T_FILE \<equiv> 2"
abbreviation T_DEV :: ushort where "T_DEV \<equiv> 3"

record devsw =
  dv_read :: "ushort \<Rightarrow> (nat \<Rightarrow> nat \<Rightarrow> uchar list option kop) option"
  dv_write :: "ushort \<Rightarrow> (nat \<Rightarrow> uchar list \<Rightarrow> int kop) option"

record stat =
  st_type :: ushort
  st_dev :: uint
  st_ino :: uint
  st_nlink :: ushort
  st_size :: uint

definition BBLOCK :: "nat \<Rightarrow> superblock \<Rightarrow> uint" where
  "BBLOCK b x = of_nat (b div BPB) + sb_bmapstart x"

definition IBLOCK :: "uint \<Rightarrow> superblock \<Rightarrow> uint" where
  "IBLOCK i x = i div of_nat IPB + sb_inodestart x"

definition ld16 :: "uchar list \<Rightarrow> nat \<Rightarrow> ushort" where
  "ld16 d i = ucast (d ! i) OR push_bit 8 (ucast (d ! (i + 1)))"

definition st16 :: "uchar list \<Rightarrow> nat \<Rightarrow> ushort \<Rightarrow> uchar list" where
  "st16 d i w = d[i := ucast w, i + 1 := ucast (drop_bit 8 w)]"

text \<open>Writing \<open>bs\<close> over the bytes of \<open>d\<close> from position \<open>i\<close> on.\<close>

definition splice :: "uchar list \<Rightarrow> nat \<Rightarrow> uchar list \<Rightarrow> uchar list" where
  "splice d i bs = take i d @ bs @ drop (i + length bs) d"

abbreviation bdata :: "nat \<Rightarrow> uchar list kop" where
  "bdata b \<equiv> gets (\<lambda>k. b_data (buf_at k b))"

abbreviation set_bdata :: "nat \<Rightarrow> uchar list \<Rightarrow> unit kop" where
  "set_bdata b d \<equiv> set_buf b (\<lambda>y. y\<lparr>b_data := d\<rparr>)"

abbreviation inode_at :: "kernel \<Rightarrow> nat \<Rightarrow> inode" where
  "inode_at k ip \<equiv> icache k ! ip"

definition set_inode :: "nat \<Rightarrow> (inode \<Rightarrow> inode) \<Rightarrow> unit kop" where
  "set_inode ip f = modify (\<lambda>k. k\<lparr>icache := upd_at ip f (icache k)\<rparr>)"

section \<open>Blocks\<close>

definition bzero :: "uint \<Rightarrow> uint \<Rightarrow> unit kop" where
  "bzero dev bno =
     bind (bread dev bno) (\<lambda>bp. block [set_bdata bp (replicate BSIZE 0), log_write bp, brelse bp])"

definition bit_clear :: "uchar list \<Rightarrow> nat \<Rightarrow> bool" where
  "bit_clear d bi \<longleftrightarrow> d ! (bi div 8) AND push_bit (bi mod 8) 1 = 0"

function balloc_loop :: "uint \<Rightarrow> superblock \<Rightarrow> nat \<Rightarrow> uint kop" where
  "balloc_loop dev x b =
     (if b < unat (sb_size x) then
        bind (bread dev (BBLOCK b x)) (\<lambda>bp.
        bind (bdata bp) (\<lambda>d.
        case find (bit_clear d) [0..<min BPB (unat (sb_size x) - b)] of
          Some bi \<Rightarrow> seq (block
            [set_bdata bp (d[bi div 8 := d ! (bi div 8) OR push_bit (bi mod 8) 1]),
             log_write bp,
             brelse bp,
             bzero dev (of_nat (b + bi))])
            (ret (of_nat (b + bi)))
        | None \<Rightarrow> seq (brelse bp) (balloc_loop dev x (b + BPB))))
      else panic ''balloc: out of blocks'')"
  by pat_completeness auto
termination
  by (relation "measure (\<lambda>(dev, x, b). unat (sb_size x) - b)") auto

declare balloc_loop.simps [simp del]

definition balloc :: "uint \<Rightarrow> uint kop" where
  "balloc dev = bind (gets sb) (\<lambda>x. balloc_loop dev x 0)"

definition bfree :: "uint \<Rightarrow> uint \<Rightarrow> unit kop" where
  "bfree dev b =
     bind (gets sb) (\<lambda>x.
     bind (bread dev (BBLOCK (unat b) x)) (\<lambda>bp.
     bind (bdata bp) (\<lambda>d.
     let bi = unat b mod BPB in
     if bit_clear d bi then panic ''freeing free block''
     else block
       [set_bdata bp (d[bi div 8 := d ! (bi div 8) AND NOT (push_bit (bi mod 8) 1)]),
        log_write bp,
        brelse bp])))"

section \<open>Inodes\<close>

definition iinit :: "uint \<Rightarrow> unit kop" where
  "iinit dev = block
     [initlock L_icache ''icache'',
      for_each [0..<NINODE] (\<lambda>i. initsleeplock (SL_inode i) ''inode''),
      bind (readsb dev) (\<lambda>x. modify (\<lambda>k. k\<lparr>sb := x\<rparr>))]"

text \<open>A scan of the table of inodes for a matching entry, and for the first empty one.\<close>

definition iget_body :: "uint \<Rightarrow> uint \<Rightarrow> nat kop" where
  "iget_body dev inum =
     bind (gets icache) (\<lambda>is.
     case find_idx (\<lambda>i. i_ref i > 0 \<and> i_dev i = dev \<and> i_inum i = inum) is of
       Some ip \<Rightarrow> seq (set_inode ip (\<lambda>i. i\<lparr>i_ref := i_ref i + 1\<rparr>)) (ret ip)
     | None \<Rightarrow>
        (case find_idx (\<lambda>i. i_ref i = 0) is of
           None \<Rightarrow> panic ''iget: no inodes''
         | Some ip \<Rightarrow> seq (block
             [set_inode ip (\<lambda>i. i\<lparr>i_dev := dev\<rparr>),
              set_inode ip (\<lambda>i. i\<lparr>i_inum := inum\<rparr>),
              set_inode ip (\<lambda>i. i\<lparr>i_ref := 1\<rparr>),
              set_inode ip (\<lambda>i. i\<lparr>i_valid := False\<rparr>)])
             (ret ip)))"

definition iget :: "uint \<Rightarrow> uint \<Rightarrow> nat kop" where
  "iget dev inum = with_lock L_icache (iget_body dev inum)"

definition idup :: "nat \<Rightarrow> nat kop" where
  "idup ip = seq (with_lock L_icache (set_inode ip (\<lambda>i. i\<lparr>i_ref := i_ref i + 1\<rparr>))) (ret ip)"

abbreviation dinode_off :: "uint \<Rightarrow> nat" where
  "dinode_off inum \<equiv> 64 * (unat inum mod IPB)"

function ialloc_loop :: "uint \<Rightarrow> ushort \<Rightarrow> superblock \<Rightarrow> nat \<Rightarrow> nat kop" where
  "ialloc_loop dev type x inum =
     (if inum < unat (sb_ninodes x) then
        bind (bread dev (IBLOCK (of_nat inum) x)) (\<lambda>bp.
        bind (bdata bp) (\<lambda>d.
        let dip = dinode_off (of_nat inum) in
        if ld16 d dip = 0 then
          seq (block
            [set_bdata bp (splice d dip (replicate 64 0)),
             bind (bdata bp) (\<lambda>d. set_bdata bp (st16 d dip type)),
             log_write bp,
             brelse bp])
            (iget dev (of_nat inum))
        else seq (brelse bp) (ialloc_loop dev type x (inum + 1))))
      else panic ''ialloc: no inodes'')"
  by pat_completeness auto
termination
  by (relation "measure (\<lambda>(dev, type, x, inum). unat (sb_ninodes x) - inum)") auto

declare ialloc_loop.simps [simp del]

definition ialloc :: "uint \<Rightarrow> ushort \<Rightarrow> nat kop" where
  "ialloc dev type = bind (gets sb) (\<lambda>x. ialloc_loop dev type x 1)"

definition put_dinode :: "inode \<Rightarrow> uchar list \<Rightarrow> uchar list" where
  "put_dinode i d =
     (let dip = dinode_off (i_inum i);
          d1 = st16 d dip (i_type i);
          d2 = st16 d1 (dip + 2) (i_major i);
          d3 = st16 d2 (dip + 4) (i_minor i);
          d4 = st16 d3 (dip + 6) (i_nlink i);
          d5 = st32 d4 (dip + 8) (i_size i)
      in foldl (\<lambda>d j. st32 d (dip + 12 + 4 * j) (i_addrs i ! j)) d5 [0..<NDIRECT + 1])"

definition get_dinode :: "uchar list \<Rightarrow> inode \<Rightarrow> inode" where
  "get_dinode d i =
     (let dip = dinode_off (i_inum i)
      in i\<lparr>i_type := ld16 d dip, i_major := ld16 d (dip + 2), i_minor := ld16 d (dip + 4), i_nlink := ld16 d (dip + 6),
           i_size := ld32 d (dip + 8), i_addrs := map (\<lambda>j. ld32 d (dip + 12 + 4 * j)) [0..<NDIRECT + 1]\<rparr>)"

definition iupdate :: "nat \<Rightarrow> unit kop" where
  "iupdate ip =
     bind (gets (\<lambda>k. inode_at k ip)) (\<lambda>i.
     bind (gets sb) (\<lambda>x.
     bind (bread (i_dev i) (IBLOCK (i_inum i) x)) (\<lambda>bp. block
       [bind (bdata bp) (\<lambda>d. set_bdata bp (put_dinode i d)),
        log_write bp,
        brelse bp])))"

definition ilock :: "nat \<Rightarrow> unit kop" where
  "ilock ip =
     bind (gets (\<lambda>k. inode_at k ip)) (\<lambda>i0.
     if i_ref i0 < 1 then panic ''ilock''
     else seq (acquiresleep (SL_inode ip))
       (bind (gets (\<lambda>k. inode_at k ip)) (\<lambda>i.
        do_if (\<not> i_valid i)
          (bind (gets sb) (\<lambda>x.
           bind (bread (i_dev i) (IBLOCK (i_inum i) x)) (\<lambda>bp. block
             [bind (bdata bp) (\<lambda>d. set_inode ip (get_dinode d)),
              brelse bp,
              set_inode ip (\<lambda>i. i\<lparr>i_valid := True\<rparr>),
              bind (gets (\<lambda>k. i_type (inode_at k ip))) (\<lambda>t. unless_panic (t \<noteq> 0) ''ilock: no type'')]))))))"

definition iunlock :: "nat \<Rightarrow> unit kop" where
  "iunlock ip =
     bind (holdingsleep (SL_inode ip)) (\<lambda>h.
     if \<not> h then panic ''iunlock''
     else bind (gets (\<lambda>k. i_ref (inode_at k ip))) (\<lambda>r.
       if r < 1 then panic ''iunlock'' else releasesleep (SL_inode ip)))"

section \<open>Inode content\<close>

definition bmap_indirect :: "nat \<Rightarrow> nat \<Rightarrow> uint \<Rightarrow> uint kop" where
  "bmap_indirect ip bn ind =
     bind (gets (\<lambda>k. i_dev (inode_at k ip))) (\<lambda>dev.
     bind (bread dev ind) (\<lambda>bp.
     bind (bdata bp) (\<lambda>a.
     if ld32 a (4 * bn) = 0 then
       bind (balloc dev) (\<lambda>addr.
       seq (block
         [bind (bdata bp) (\<lambda>a. set_bdata bp (st32 a (4 * bn) addr)),
          log_write bp,
          brelse bp])
         (ret addr))
     else seq (brelse bp) (ret (ld32 a (4 * bn))))))"

text \<open>\<^verbatim>\<open>if((addr = ip->addrs[i]) == 0) ip->addrs[i] = addr = balloc(ip->dev)\<close>.\<close>

definition bmap_slot :: "nat \<Rightarrow> nat \<Rightarrow> uint kop" where
  "bmap_slot ip i =
     bind (gets (\<lambda>k. inode_at k ip)) (\<lambda>x.
     if i_addrs x ! i = 0 then
       bind (balloc (i_dev x)) (\<lambda>addr.
       seq (set_inode ip (\<lambda>y. y\<lparr>i_addrs := (i_addrs y)[i := addr]\<rparr>)) (ret addr))
     else ret (i_addrs x ! i))"

definition bmap :: "nat \<Rightarrow> uint \<Rightarrow> uint kop" where
  "bmap ip bn =
     (if unat bn < NDIRECT then bmap_slot ip (unat bn)
      else if unat (bn - of_nat NDIRECT) < NINDIRECT then
        bind (bmap_slot ip NDIRECT) (bmap_indirect ip (unat (bn - of_nat NDIRECT)))
      else panic ''bmap: out of range'')"

definition itrunc :: "nat \<Rightarrow> unit kop" where
  "itrunc ip = block
     [for_each [0..<NDIRECT] (\<lambda>i.
        bind (gets (\<lambda>k. inode_at k ip)) (\<lambda>x.
        do_if (i_addrs x ! i \<noteq> 0) (block
          [bfree (i_dev x) (i_addrs x ! i),
           set_inode ip (\<lambda>y. y\<lparr>i_addrs := (i_addrs y)[i := 0]\<rparr>)]))),
      bind (gets (\<lambda>k. inode_at k ip)) (\<lambda>x.
        do_if (i_addrs x ! NDIRECT \<noteq> 0)
          (bind (bread (i_dev x) (i_addrs x ! NDIRECT)) (\<lambda>bp. block
            [bind (bdata bp) (\<lambda>a. for_each [0..<NINDIRECT] (\<lambda>j.
               do_if (ld32 a (4 * j) \<noteq> 0) (bfree (i_dev x) (ld32 a (4 * j))))),
             brelse bp,
             bfree (i_dev x) (i_addrs x ! NDIRECT),
             set_inode ip (\<lambda>y. y\<lparr>i_addrs := (i_addrs y)[NDIRECT := 0]\<rparr>)]))),
      set_inode ip (\<lambda>y. y\<lparr>i_size := 0\<rparr>),
      iupdate ip]"

definition iput :: "nat \<Rightarrow> unit kop" where
  "iput ip = block
     [acquiresleep (SL_inode ip),
      bind (gets (\<lambda>k. inode_at k ip)) (\<lambda>i.
        do_if (i_valid i \<and> i_nlink i = 0)
          (bind (with_lock L_icache (gets (\<lambda>k. i_ref (inode_at k ip)))) (\<lambda>r.
           do_if (r = 1) (block
             [itrunc ip,
              set_inode ip (\<lambda>y. y\<lparr>i_type := 0\<rparr>),
              iupdate ip,
              set_inode ip (\<lambda>y. y\<lparr>i_valid := False\<rparr>)])))),
      releasesleep (SL_inode ip),
      with_lock L_icache (set_inode ip (\<lambda>y. y\<lparr>i_ref := i_ref y - 1\<rparr>))]"

definition iunlockput :: "nat \<Rightarrow> unit kop" where
  "iunlockput ip = block [iunlock ip, iput ip]"

definition stati :: "nat \<Rightarrow> stat kop" where
  "stati ip = gets (\<lambda>k. let i = inode_at k ip in
     \<lparr>st_type = i_type i, st_dev = i_dev i, st_ino = i_inum i, st_nlink = i_nlink i, st_size = i_size i\<rparr>)"

abbreviation in_block :: "uint \<Rightarrow> nat" where
  "in_block off \<equiv> unat off mod BSIZE"

function readi_loop :: "nat \<Rightarrow> uint \<Rightarrow> nat \<Rightarrow> uchar list kop" where
  "readi_loop ip off n =
     (if n = 0 then ret []
      else bind (gets (\<lambda>k. i_dev (inode_at k ip))) (\<lambda>dev.
        bind (bmap ip (off div of_nat BSIZE)) (\<lambda>a.
        bind (bread dev a) (\<lambda>bp.
        bind (bdata bp) (\<lambda>d.
        let m = min n (BSIZE - in_block off) in
        seq (brelse bp)
          (bind (readi_loop ip (off + of_nat m) (n - m)) (\<lambda>bs.
           ret (take m (drop (in_block off) d) @ bs))))))))"
  by pat_completeness auto
termination
  by (relation "measure (\<lambda>(ip, off, n). n)") auto

declare readi_loop.simps [simp del]

definition readi :: "devsw \<Rightarrow> nat \<Rightarrow> uint \<Rightarrow> uint \<Rightarrow> uchar list option kop" where
  "readi dv ip off n =
     bind (gets (\<lambda>k. inode_at k ip)) (\<lambda>i.
     if i_type i = T_DEV then
       (if sint (i_major i) < 0 \<or> sint (i_major i) \<ge> int NDEV then ret None
        else case dv_read dv (i_major i) of None \<Rightarrow> ret None | Some f \<Rightarrow> f ip (unat n))
     else if off > i_size i \<or> off + n < off then ret None
     else let n' = (if off + n > i_size i then i_size i - off else n)
       in bind (readi_loop ip off (unat n')) (\<lambda>bs. ret (Some bs)))"

function writei_loop :: "nat \<Rightarrow> uint \<Rightarrow> uchar list \<Rightarrow> unit kop" where
  "writei_loop ip off src =
     (if src = [] then ret ()
      else bind (gets (\<lambda>k. i_dev (inode_at k ip))) (\<lambda>dev.
        bind (bmap ip (off div of_nat BSIZE)) (\<lambda>a.
        bind (bread dev a) (\<lambda>bp.
        let m = min (length src) (BSIZE - in_block off) in
        seq (block
          [bind (bdata bp) (\<lambda>d. set_bdata bp (splice d (in_block off) (take m src))),
           log_write bp,
           brelse bp])
          (writei_loop ip (off + of_nat m) (drop m src))))))"
  by pat_completeness auto
termination
  by (relation "measure (\<lambda>(ip, off, src). length src)") auto

declare writei_loop.simps [simp del]

definition writei :: "devsw \<Rightarrow> nat \<Rightarrow> uint \<Rightarrow> uchar list \<Rightarrow> int kop" where
  "writei dv ip off src =
     bind (gets (\<lambda>k. inode_at k ip)) (\<lambda>i.
     let n = of_nat (length src) in
     if i_type i = T_DEV then
       (if sint (i_major i) < 0 \<or> sint (i_major i) \<ge> int NDEV then ret (-1)
        else case dv_write dv (i_major i) of None \<Rightarrow> ret (-1) | Some f \<Rightarrow> f ip src)
     else if off > i_size i \<or> off + n < off then ret (-1)
     else if off + n > of_nat (MAXFILE * BSIZE) then ret (-1)
     else seq (writei_loop ip off src)
       (seq (bind (gets (\<lambda>k. i_size (inode_at k ip))) (\<lambda>sz.
          do_if (n > 0 \<and> off + n > sz) (block
            [set_inode ip (\<lambda>y. y\<lparr>i_size := off + n\<rparr>),
             iupdate ip])))
        (ret (int (length src)))))"

section \<open>Directories\<close>

definition chr_at :: "uchar list \<Rightarrow> uchar" where
  "chr_at p = (case p of [] \<Rightarrow> 0 | c # _ \<Rightarrow> c)"

fun strncmp_l :: "uchar list \<Rightarrow> uchar list \<Rightarrow> nat \<Rightarrow> int" where
  "strncmp_l p q 0 = 0"
| "strncmp_l p q (Suc n) =
     (if chr_at p \<noteq> 0 \<and> chr_at p = chr_at q then strncmp_l (tl p) (tl q) n
      else uint (chr_at p) - uint (chr_at q))"

fun strncpy_l :: "uchar list \<Rightarrow> nat \<Rightarrow> uchar list" where
  "strncpy_l t 0 = []"
| "strncpy_l t (Suc n) = (if chr_at t = 0 then replicate (Suc n) 0 else chr_at t # strncpy_l (tl t) n)"

definition namecmp :: "uchar list \<Rightarrow> uchar list \<Rightarrow> int" where
  "namecmp s t = strncmp_l s t DIRSIZ"

text \<open>A directory entry on the disk: the inode number and 14 bytes of name.\<close>

abbreviation de_inum :: "uchar list \<Rightarrow> ushort" where
  "de_inum de \<equiv> ld16 de 0"

abbreviation de_name :: "uchar list \<Rightarrow> uchar list" where
  "de_name de \<equiv> drop 2 de"

definition mk_dirent :: "ushort \<Rightarrow> uchar list \<Rightarrow> uchar list" where
  "mk_dirent inum name = st16 [0, 0] 0 inum @ strncpy_l name DIRSIZ"

text \<open>
  A scan of the entries of directory \<open>dp\<close>, of size \<open>sz\<close>, from offset \<open>off\<close> on, until
  \<open>stop\<close> holds: the offset reached and the entry there, or the offset at the end.
\<close>

function scan_dir :: "devsw \<Rightarrow> string \<Rightarrow> nat \<Rightarrow> uint \<Rightarrow> (uchar list \<Rightarrow> bool) \<Rightarrow> uint \<Rightarrow> (uint \<times> uchar list option) kop" where
  "scan_dir dv msg dp sz stop off =
     (if off < sz then
        bind (readi dv dp off 16) (\<lambda>r.
        case r of
          Some de \<Rightarrow>
            if length de \<noteq> 16 then panic msg
            else if stop de then ret (off, Some de)
            else if off + 16 \<le> off then undef ''offset wraps''
            else scan_dir dv msg dp sz stop (off + 16)
        | None \<Rightarrow> panic msg)
      else ret (off, None))"
  by pat_completeness auto
termination
  by (relation "measure (\<lambda>(dv, msg, dp, sz, stop, off). unat sz - unat off)")
     (auto simp: word_less_nat_alt word_le_nat_alt not_le)

declare scan_dir.simps [simp del]

definition dirlookup :: "devsw \<Rightarrow> nat \<Rightarrow> uchar list \<Rightarrow> (nat \<times> uint) option kop" where
  "dirlookup dv dp name =
     bind (gets (\<lambda>k. inode_at k dp)) (\<lambda>d.
     if i_type d \<noteq> T_DIR then panic ''dirlookup not DIR''
     else bind (scan_dir dv ''dirlookup read'' dp (i_size d) (\<lambda>de. de_inum de \<noteq> 0 \<and> namecmp name (de_name de) = 0) 0) (\<lambda>(off, r).
       case r of
         Some de \<Rightarrow> bind (iget (i_dev d) (ucast (de_inum de))) (\<lambda>ip. ret (Some (ip, off)))
       | None \<Rightarrow> ret None))"

definition dirlink :: "devsw \<Rightarrow> nat \<Rightarrow> uchar list \<Rightarrow> uint \<Rightarrow> int kop" where
  "dirlink dv dp name inum =
     bind (dirlookup dv dp name) (\<lambda>r.
     case r of
       Some (ip, off) \<Rightarrow> seq (iput ip) (ret (-1))
     | None \<Rightarrow>
        bind (gets (\<lambda>k. i_size (inode_at k dp))) (\<lambda>sz.
        bind (scan_dir dv ''dirlink read'' dp sz (\<lambda>de. de_inum de = 0) 0) (\<lambda>(off, _).
        bind (writei dv dp off (mk_dirent (ucast inum) name)) (\<lambda>n.
        if n \<noteq> 16 then panic ''dirlink'' else ret 0))))"

section \<open>Paths\<close>

text \<open>\<open>skipelem path\<close> is the rest of the path and the element copied to \<^verbatim>\<open>name\<close>.\<close>

definition skipelem :: "uchar list \<Rightarrow> (uchar list \<times> uchar list) option" where
  "skipelem path =
     (let s = dropWhile (\<lambda>c. c = 47) path in
      if s = [] then None
      else Some (dropWhile (\<lambda>c. c = 47) (dropWhile (\<lambda>c. c \<noteq> 47) s), take DIRSIZ (takeWhile (\<lambda>c. c \<noteq> 47) s)))"

lemma skipelem_shorter: "skipelem path = Some (path', name) \<Longrightarrow> length path' < length path"
proof -
  assume a: "skipelem path = Some (path', name)"
  let ?s = "dropWhile (\<lambda>c. c = 47) path"
  have s: "?s \<noteq> []" "path' = dropWhile (\<lambda>c. c = 47) (dropWhile (\<lambda>c. c \<noteq> 47) ?s)"
    using a by (auto simp: skipelem_def Let_def split: if_splits)
  have "hd ?s \<noteq> 47" using hd_dropWhile [OF s(1)] by simp
  then have "length (dropWhile (\<lambda>c. c \<noteq> 47) ?s) < length ?s"
    using s(1) length_dropWhile_le [of "\<lambda>c. c \<noteq> 47" "tl ?s"] by (cases ?s) auto
  then show ?thesis unfolding s(2)
    using length_dropWhile_le [of "\<lambda>c. c = 47" path] length_dropWhile_le [of "\<lambda>c. c = 47" "dropWhile (\<lambda>c. c \<noteq> 47) ?s"] by linarith
qed

function namex_loop :: "devsw \<Rightarrow> bool \<Rightarrow> nat \<Rightarrow> uchar list \<Rightarrow> uchar list \<Rightarrow> (nat \<times> uchar list) option kop" where
  "namex_loop dv nameiparent ip path name =
     (case skipelem path of
        Some (path', name') \<Rightarrow>
          seq (ilock ip)
          (bind (gets (\<lambda>k. i_type (inode_at k ip))) (\<lambda>t.
           if t \<noteq> T_DIR then seq (iunlockput ip) (ret None)
           else if nameiparent \<and> path' = [] then seq (iunlock ip) (ret (Some (ip, name')))
           else bind (dirlookup dv ip name') (\<lambda>r.
             case r of
               None \<Rightarrow> seq (iunlockput ip) (ret None)
             | Some (nxt, off) \<Rightarrow> seq (iunlockput ip) (namex_loop dv nameiparent nxt path' name'))))
      | None \<Rightarrow>
          if nameiparent then seq (iput ip) (ret None)
          else ret (Some (ip, name)))"
  by pat_completeness auto
termination
  by (relation "measure (\<lambda>(dv, np, ip, path, name). length path)") (auto simp: skipelem_shorter)

declare namex_loop.simps [simp del]

definition namex :: "devsw \<Rightarrow> uchar list \<Rightarrow> bool \<Rightarrow> (nat \<times> uchar list) option kop" where
  "namex dv path nameiparent =
     bind (if chr_at path = 47 then iget ROOTDEV ROOTINO
           else bind (my p_cwd) (\<lambda>cwd. deref cwd idup)) (\<lambda>ip.
     namex_loop dv nameiparent ip path [])"

definition namei :: "devsw \<Rightarrow> uchar list \<Rightarrow> nat option kop" where
  "namei dv path = bind (namex dv path False) (\<lambda>r. ret (map_option fst r))"

definition nameiparent :: "devsw \<Rightarrow> uchar list \<Rightarrow> (nat \<times> uchar list) option kop" where
  "nameiparent dv path = namex dv path True"

end
