(* ===== verification/Ring.thy ===== *)
theory Ring
  imports Xv6_Prelude
begin

text \<open>
  Ring buffers with counters that only grow, as pipes and the console use them: position \<open>i\<close> of the
  stream is kept in slot \<open>i mod n\<close> of an array of \<open>n\<close> slots, and the counters are 32-bit words
  that wrap.  \<open>ring n d r w\<close> is the stream from counter \<open>r\<close> up to counter \<open>w\<close>.  The size of the
  array divides \<open>2 ^ 32\<close>, so that a counter keeps its slot when it wraps.
\<close>

definition ring :: "nat \<Rightarrow> 'a list \<Rightarrow> 32 word \<Rightarrow> 32 word \<Rightarrow> 'a list" where
  "ring n d r w = map (\<lambda>i. d ! ((unat r + i) mod n)) [0..<unat (w - r)]"

lemma length_ring [simp]: "length (ring n d r w) = unat (w - r)"
  by (simp add: ring_def)

lemma ring_eq_Nil [simp]: "ring n d r w = [] \<longleftrightarrow> w = r"
  by (simp add: ring_def unat_eq_zero)

definition slots :: "nat \<Rightarrow> bool" where
  "slots n \<longleftrightarrow> n dvd 2 ^ 32 \<and> n < 2 ^ 32"

lemma unat_add_slot:
  assumes "slots n"
  shows "unat (a + b :: 32 word) mod n = (unat a + unat b) mod n"
  using assms by (simp add: slots_def unat_word_ariths mod_mod_cancel)

lemma slot_offset:
  assumes "slots n"
  shows "unat w mod n = (unat r + unat (w - r :: 32 word)) mod n"
  using unat_add_slot [OF assms, of r "w - r"] by simp

text \<open>Storing at counter \<open>e\<close> leaves the stream before \<open>e\<close> alone, as long as it has not filled the array.\<close>

lemma ring_store_other:
  assumes "slots n" and "unat (w - r) \<le> unat (e - r)" and "unat (e - r) < n"
  shows "ring n (d[unat e mod n := b]) r w = ring n d r w"
proof -
  have "unat e mod n \<noteq> (unat r + i) mod n" if "i < unat (w - r)" for i
    using that assms(2,3) mod_shift_inj [of "unat r" i n "unat (e - r)"] by (auto simp: slot_offset [OF assms(1), of e r])
  then show ?thesis by (auto simp: ring_def intro!: map_cong)
qed

lemma ring_snoc:
  assumes "slots n" and "unat (w - r) < n"
  shows "ring n d r (w + 1) = ring n d r w @ [d ! (unat w mod n)]" and "unat (w + 1 - r) = unat (w - r) + 1"
proof -
  have "unat (w - r) + 1 < 2 ^ 32" using assms by (simp add: slots_def)
  moreover have "w + 1 - r = (w - r) + 1" by simp
  ultimately show n: "unat (w + 1 - r) = unat (w - r) + 1" by (simp only: unat_word_ariths) simp
  show "ring n d r (w + 1) = ring n d r w @ [d ! (unat w mod n)]"
    by (simp add: ring_def n slot_offset [OF assms(1), of w r])
qed

lemma ring_put:
  assumes "slots n" and "unat (w - r) < n" and "length d = n"
  shows "ring n (d[unat w mod n := b]) r (w + 1) = ring n d r w @ [b]"
  using assms ring_store_other [of n w r w d b] by (simp add: ring_snoc)

lemma ring_Cons:
  assumes "slots n" and "w \<noteq> r"
  shows "ring n d r w = d ! (unat r mod n) # ring n d (r + 1) w" and "unat (w - (r + 1)) = unat (w - r) - 1"
proof -
  have ne: "w - r \<noteq> 0" using assms(2) by simp
  have e: "w - (r + 1) = (w - r) - 1" by simp
  show n: "unat (w - (r + 1)) = unat (w - r) - 1" unfolding e using ne by (simp add: unat_minus_one)
  have "unat (r + 1) mod n = (unat r + 1) mod n" using unat_add_slot [OF assms(1), of r 1] by simp
  from mod_add_cong [OF this refl] have r: "(unat (r + 1) + i) mod n = (unat r + Suc i) mod n" for i by simp
  have "[0..<unat (w - r)] = 0 # map Suc [0..<unat (w - r) - 1]"
    using ne by (simp add: map_Suc_upt upt_conv_Cons unat_gt_0)
  then show "ring n d r w = d ! (unat r mod n) # ring n d (r + 1) w" by (simp add: ring_def n r)
qed

text \<open>Dropping the last element, and cutting the stream at a counter on the way.\<close>

lemma ring_butlast:
  assumes "slots n" and "w \<noteq> r"
  shows "ring n d r (w - 1) = butlast (ring n d r w)" and "unat (w - 1 - r) = unat (w - r) - 1"
proof -
  have ne: "w - r \<noteq> 0" using assms(2) by simp
  have e: "w - 1 - r = (w - r) - 1" by simp
  show n: "unat (w - 1 - r) = unat (w - r) - 1" unfolding e using ne by (simp add: unat_minus_one)
  show "ring n d r (w - 1) = butlast (ring n d r w)"
    by (simp add: ring_def n butlast_conv_take take_map take_upt)
qed

lemma unat_cut:
  assumes "unat (w - r) + unat (e - w) < 2 ^ 32"
  shows "unat (e - r :: 32 word) = unat (w - r) + unat (e - w)"
proof -
  have "e - r = (w - r) + (e - w)" by simp
  then show ?thesis using assms by (simp only: unat_word_ariths) simp
qed

lemma ring_append:
  assumes "slots n" and "unat (w - r) + unat (e - w) < 2 ^ 32"
  shows "ring n d r e = ring n d r w @ ring n d w e"
proof -
  have "unat w mod n = (unat r + unat (w - r)) mod n" by (rule slot_offset [OF assms(1)])
  from mod_add_cong [OF refl this] have w: "(i + unat w) mod n = (i + (unat r + unat (w - r))) mod n" for i .
  have "[unat (w - r)..<unat (w - r) + unat (e - w)] = map (\<lambda>i. i + unat (w - r)) [0..<unat (e - w)]"
    by (simp add: map_add_upt add.commute)
  then show ?thesis unfolding ring_def unat_cut [OF assms(2)] upt_add_eq_append [OF le0] by (simp add: w ac_simps)
qed

lemma slots_512 [simp]: "slots 512" and slots_128 [simp]: "slots 128"
  by (simp_all add: slots_def dvd_def)

end
