(* ===== verification/Pipe.thy ===== *)
theory Pipe
  imports Kalloc Ring
begin

text \<open>
  \<^verbatim>\<open>pipe.c\<close>: a pipe is a ring buffer of 512 bytes with two counters that only grow and wrap at
  \<open>2 ^ 32\<close>.  The first part is the code, the second shows that the ring is a first-in
  first-out queue, also across the wrap of the counters, and the third describes the system calls in
  terms of that queue.  The bytes that \<^verbatim>\<open>pipewrite()\<close> reads from its argument are given as a
  list, and those that \<^verbatim>\<open>piperead()\<close> stores are its result (\<open>None\<close> for \<open>-1\<close>).
\<close>

section \<open>The routines\<close>

definition set_pipe :: "uint \<Rightarrow> (pipe \<Rightarrow> pipe) \<Rightarrow> unit kop" where
  "set_pipe p f = modify (\<lambda>k. k\<lparr>pipes := (pipes k)(p := f (pipes k p))\<rparr>)"

lemma set_pipe_apply [simp, op_simps]:
  "set_pipe p f k = Ok () (k\<lparr>pipes := (pipes k)(p := f (pipes k p))\<rparr>)"
  by (simp add: set_pipe_def)

definition pipeclose :: "uint \<Rightarrow> uint \<Rightarrow> bool \<Rightarrow> unit kop" where
  "pipeclose kend p writable =
     seq (acquire (L_pipe p))
     (seq (if writable then block [set_pipe p (\<lambda>x. x\<lparr>pi_writeopen := False\<rparr>), wakeup (Some (Ch_nread p))]
           else block [set_pipe p (\<lambda>x. x\<lparr>pi_readopen := False\<rparr>), wakeup (Some (Ch_nwrite p))])
     (bind (gets (\<lambda>k. pipes k p)) (\<lambda>x.
      if \<not> pi_readopen x \<and> \<not> pi_writeopen x then seq (release (L_pipe p)) (kfree kend p)
      else release (L_pipe p))))"

definition pipe_full :: "pipe \<Rightarrow> bool" where
  "pipe_full x \<longleftrightarrow> pi_nwrite x = pi_nread x + of_nat PIPESIZE"

definition pipe_put :: "uchar \<Rightarrow> pipe \<Rightarrow> pipe" where
  "pipe_put b x = x\<lparr>pi_data := (pi_data x)[unat (pi_nwrite x mod of_nat PIPESIZE) := b], pi_nwrite := pi_nwrite x + 1\<rparr>"

text \<open>The \<^verbatim>\<open>for\<close> loop of \<^verbatim>\<open>pipewrite()\<close>, from the byte it has reached.\<close>

primrec pipewrite_loop :: "uint \<Rightarrow> int \<Rightarrow> uchar list \<Rightarrow> int kop" where
  "pipewrite_loop p n [] =
     seq (block [wakeup (Some (Ch_nread p)), release (L_pipe p)]) (ret n)"
| "pipewrite_loop p n (b # bs) =
     bind (gets (\<lambda>k. pipes k p)) (\<lambda>x.
     if pipe_full x then
       bind (if \<not> pi_readopen x then ret True else my p_killed) (\<lambda>stop.
       if stop then seq (release (L_pipe p)) (ret (-1))
       else seq (block [wakeup (Some (Ch_nread p)), sleep (Ch_nwrite p) (L_pipe p)]) (ret 0))
     else seq (set_pipe p (pipe_put b)) (pipewrite_loop p n bs))"

definition pipewrite :: "uint \<Rightarrow> uchar list \<Rightarrow> int kop" where
  "pipewrite p bs = seq (acquire (L_pipe p)) (pipewrite_loop p (int (length bs)) bs)"

definition pipewrite_resume :: "uint \<Rightarrow> int \<Rightarrow> uchar list \<Rightarrow> int kop" where
  "pipewrite_resume p n bs = seq (sleep_resume (L_pipe p)) (pipewrite_loop p n bs)"

definition pipe_empty :: "pipe \<Rightarrow> bool" where
  "pipe_empty x \<longleftrightarrow> pi_nread x = pi_nwrite x"

definition pipe_get :: "pipe \<Rightarrow> uchar \<times> pipe" where
  "pipe_get x = (pi_data x ! unat (pi_nread x mod of_nat PIPESIZE), x\<lparr>pi_nread := pi_nread x + 1\<rparr>)"

primrec piperead_copy :: "uint \<Rightarrow> nat \<Rightarrow> uchar list kop" where
  "piperead_copy p 0 = ret []"
| "piperead_copy p (Suc n) =
     bind (gets (\<lambda>k. pipes k p)) (\<lambda>x.
     if pipe_empty x then ret []
     else seq (set_pipe p (\<lambda>x. snd (pipe_get x)))
          (bind (piperead_copy p n) (\<lambda>bs. ret (fst (pipe_get x) # bs))))"

definition piperead_loop :: "uint \<Rightarrow> nat \<Rightarrow> uchar list option kop" where
  "piperead_loop p n =
     bind (gets (\<lambda>k. pipes k p)) (\<lambda>x.
     if pipe_empty x \<and> pi_writeopen x then
       bind (my p_killed) (\<lambda>killed.
       if killed then seq (release (L_pipe p)) (ret None)
       else seq (sleep (Ch_nread p) (L_pipe p)) (ret None))
     else
       bind (piperead_copy p n) (\<lambda>bs.
       seq (block [wakeup (Some (Ch_nwrite p)), release (L_pipe p)]) (ret (Some bs))))"

definition piperead :: "uint \<Rightarrow> nat \<Rightarrow> uchar list option kop" where
  "piperead p n = seq (acquire (L_pipe p)) (piperead_loop p n)"

definition piperead_resume :: "uint \<Rightarrow> nat \<Rightarrow> uchar list option kop" where
  "piperead_resume p n = seq (sleep_resume (L_pipe p)) (piperead_loop p n)"

section \<open>The ring is a queue\<close>

text \<open>
  The contract of a bounded first-in first-out queue, as the loops of \<^verbatim>\<open>pipewrite()\<close> and
  \<^verbatim>\<open>piperead()\<close> use it.
\<close>

fun drain :: "('q \<Rightarrow> bool) \<Rightarrow> ('q \<Rightarrow> 'b \<times> 'q) \<Rightarrow> nat \<Rightarrow> 'q \<Rightarrow> 'b list \<times> 'q" where
  "drain vacant get 0 q = ([], q)"
| "drain vacant get (Suc n) q =
     (if vacant q then ([], q)
      else case drain vacant get n (snd (get q)) of (bs, q') \<Rightarrow> (fst (get q) # bs, q'))"

locale fifo =
  fixes inv :: "'q \<Rightarrow> bool" and contents :: "'q \<Rightarrow> 'b list" and cap :: nat
    and full vacant :: "'q \<Rightarrow> bool" and put :: "'b \<Rightarrow> 'q \<Rightarrow> 'q" and get :: "'q \<Rightarrow> 'b \<times> 'q"
  assumes full: "inv q \<Longrightarrow> full q \<longleftrightarrow> length (contents q) = cap"
    and vacant: "inv q \<Longrightarrow> vacant q \<longleftrightarrow> contents q = []"
    and bounded: "inv q \<Longrightarrow> length (contents q) \<le> cap"
    and put: "inv q \<Longrightarrow> \<not> full q \<Longrightarrow> inv (put b q) \<and> contents (put b q) = contents q @ [b]"
    and get: "inv q \<Longrightarrow> \<not> vacant q \<Longrightarrow> inv (snd (get q)) \<and> contents q = fst (get q) # contents (snd (get q))"
begin

lemma put_all:
  "inv q \<Longrightarrow> length (contents q) + length bs \<le> cap \<Longrightarrow>
   inv (fold put bs q) \<and> contents (fold put bs q) = contents q @ bs"
proof (induction bs arbitrary: q)
  case (Cons b bs)
  then have "inv (put b q) \<and> contents (put b q) = contents q @ [b]" by (intro put) (auto simp: full)
  with Cons show ?case by simp
qed simp

lemma get_many:
  "inv q \<Longrightarrow> inv (snd (drain vacant get n q)) \<and> fst (drain vacant get n q) = take n (contents q) \<and>
   contents (snd (drain vacant get n q)) = drop n (contents q)"
proof (induction n arbitrary: q)
  case (Suc n)
  show ?case
  proof (cases "vacant q")
    case True
    with Suc.prems show ?thesis by (simp add: vacant)
  next
    case False
    with get [OF Suc.prems] Suc.IH [of "snd (get q)"] show ?thesis by (auto split: prod.splits)
  qed
qed simp

end

definition pipe_inv :: "pipe \<Rightarrow> bool" where
  "pipe_inv x \<longleftrightarrow> length (pi_data x) = 512 \<and> unat (pi_nwrite x - pi_nread x) \<le> 512"

definition pipe_contents :: "pipe \<Rightarrow> uchar list" where
  "pipe_contents x = ring 512 (pi_data x) (pi_nread x) (pi_nwrite x)"

lemma pipe_put_ring:
  assumes "pipe_inv x" and "\<not> pipe_full x"
  shows "pipe_inv (pipe_put b x) \<and> pipe_contents (pipe_put b x) = pipe_contents x @ [b]"
proof -
  have "pi_nwrite x - pi_nread x \<noteq> 512" using assms(2) by (auto simp: pipe_full_def algebra_simps)
  then have "unat (pi_nwrite x - pi_nread x) \<noteq> 512" by (simp add: word_unat_eq_iff)
  with assms(1) have "unat (pi_nwrite x - pi_nread x) < 512" "length (pi_data x) = 512" by (simp_all add: pipe_inv_def)
  from ring_put [OF slots_512 this, of b] ring_snoc(2) [OF slots_512 this(1)] this show ?thesis
    by (simp add: pipe_inv_def pipe_contents_def pipe_put_def unat_mod)
qed

lemma pipe_get_ring:
  assumes "pipe_inv x" and "\<not> pipe_empty x"
  shows "pipe_inv (snd (pipe_get x)) \<and> pipe_contents x = fst (pipe_get x) # pipe_contents (snd (pipe_get x))"
proof -
  have "pi_nwrite x \<noteq> pi_nread x" using assms(2) by (auto simp: pipe_empty_def)
  from ring_Cons(1) [OF slots_512 this, of "pi_data x"] ring_Cons(2) [OF slots_512 this] assms(1) show ?thesis
    by (auto simp: pipe_inv_def pipe_contents_def pipe_get_def unat_mod)
qed

interpretation pipe_ring: fifo pipe_inv pipe_contents 512 pipe_full pipe_empty pipe_put pipe_get
proof
  fix x b
  assume x: "pipe_inv x"
  have "pipe_full x \<longleftrightarrow> pi_nwrite x - pi_nread x = 512" by (auto simp: pipe_full_def algebra_simps)
  then show "pipe_full x \<longleftrightarrow> length (pipe_contents x) = 512"
    by (simp add: pipe_contents_def word_unat_eq_iff)
  show "pipe_empty x \<longleftrightarrow> pipe_contents x = []"
    by (auto simp: pipe_empty_def pipe_contents_def)
  show "length (pipe_contents x) \<le> 512" using x by (simp add: pipe_inv_def pipe_contents_def)
  show "\<not> pipe_full x \<Longrightarrow> pipe_inv (pipe_put b x) \<and> pipe_contents (pipe_put b x) = pipe_contents x @ [b]"
    by (rule pipe_put_ring [OF x])
  show "\<not> pipe_empty x \<Longrightarrow> pipe_inv (snd (pipe_get x)) \<and> pipe_contents x = fst (pipe_get x) # pipe_contents (snd (pipe_get x))"
    by (rule pipe_get_ring [OF x])
qed

section \<open>The loops\<close>

text \<open>What a process finds when it enters \<^verbatim>\<open>pipewrite()\<close> or \<^verbatim>\<open>piperead()\<close>.\<close>

definition at_pipe :: "uint \<Rightarrow> kernel \<Rightarrow> bool" where
  "at_pipe p k \<longleftrightarrow> ready (mach k) \<and> c_ncli (this_cpu (mach k)) = 0 \<and>
     lock_free (L_pipe p) (mach k) \<and> lock_free L_ptable (mach k) \<and>
     (\<exists>i. cur k = Some i \<and> i < length (procs (pt k))) \<and> pipe_inv (pipes k p)"

abbreviation with_pipe :: "uint \<Rightarrow> pipe \<Rightarrow> kernel \<Rightarrow> kernel" where
  "with_pipe p x k \<equiv> k\<lparr>pipes := (pipes k)(p := x)\<rparr>"

lemma pipewrite_loop_room:
  "pipe_inv (pipes k p) \<Longrightarrow> length (pipe_contents (pipes k p)) + length bs \<le> 512 \<Longrightarrow>
   pipewrite_loop p n (bs @ cs) k = pipewrite_loop p n cs (with_pipe p (fold pipe_put bs (pipes k p)) k)"
proof (induction bs arbitrary: k)
  case (Cons b bs)
  have nf: "\<not> pipe_full (pipes k p)" using Cons.prems by (simp add: pipe_ring.full)
  note x = pipe_ring.put [OF Cons.prems(1) nf, of b]
  show ?case using nf x Cons.prems Cons.IH [of "with_pipe p (pipe_put b (pipes k p)) k"]
    by (simp del: fun_upd_apply add: fun_upd_same)
qed simp

lemma piperead_copy_drain:
  "piperead_copy p n k = Ok (fst (drain pipe_empty pipe_get n (pipes k p)))
     (with_pipe p (snd (drain pipe_empty pipe_get n (pipes k p))) k)"
proof (induction n arbitrary: k)
  case (Suc n)
  show ?case using Suc [of "with_pipe p (snd (pipe_get (pipes k p))) k"]
    by (simp del: fun_upd_apply add: fun_upd_same split: prod.split)
qed simp

lemma may_sleep_pipe:
  assumes "at_pipe p k"
  shows "may_sleep (L_pipe p) (k\<lparr>mach := acq_m (L_pipe p) (mach k), pipes := ps, pt := pt k\<lparr>procs := map f (procs (pt k))\<rparr>\<rparr>)"
    and "may_sleep (L_pipe p) (k\<lparr>mach := acq_m (L_pipe p) (mach k)\<rparr>)"
proof -
  from assms obtain c where "here (mach k) = Some c" by (auto simp: at_pipe_def ready_def)
  with assms show "may_sleep (L_pipe p) (k\<lparr>mach := acq_m (L_pipe p) (mach k), pipes := ps, pt := pt k\<lparr>procs := map f (procs (pt k))\<rparr>\<rparr>)"
    and "may_sleep (L_pipe p) (k\<lparr>mach := acq_m (L_pipe p) (mach k)\<rparr>)"
    by (simp_all add: may_sleep_def at_pipe_def lock_simps ncli_acq_m)
qed

text \<open>The three ends of the write loop, in a kernel that holds the pipe's lock.\<close>

lemma pipewrite_done:
  assumes "at_pipe p k"
  shows "pipewrite_loop p n [] (k\<lparr>mach := acq_m (L_pipe p) (mach k), pipes := ps\<rparr>) =
    Ok n (k\<lparr>pipes := ps, pt := pt k\<lparr>procs := map (wake_proc (Some (Ch_nread p))) (procs (pt k))\<rparr>, mach := sync_m (mach k)\<rparr>)"
  using assms by (simp add: at_pipe_def lock_simps wakeup_ok)

lemma pipewrite_broken:
  assumes "at_pipe p k" and "pipe_full (ps p)" and "cur k = Some i"
    and "\<not> pi_readopen (ps p) \<or> p_killed (proc_at k i)"
  shows "pipewrite_loop p n (b # bs) (k\<lparr>mach := acq_m (L_pipe p) (mach k), pipes := ps\<rparr>) =
    Ok (-1) (k\<lparr>pipes := ps, mach := sync_m (mach k)\<rparr>)"
  using assms by (auto simp: at_pipe_def lock_simps my_ok)

lemma pipewrite_waits:
  assumes "at_pipe p k" and "pipe_full (ps p)" and "cur k = Some i"
    and "pi_readopen (ps p)" and "\<not> p_killed (proc_at k i)"
  shows "pipewrite_loop p n (b # bs) (k\<lparr>mach := acq_m (L_pipe p) (mach k), pipes := ps\<rparr>) =
    Swtch (k\<lparr>pipes := ps, mach := sleep_m (L_pipe p) (acq_m (L_pipe p) (mach k)),
      pt := pt k\<lparr>procs := upd_at i (sleep_proc (Ch_nwrite p) (L_pipe p) (eflags_IF (mach k)))
        (map (wake_proc (Some (Ch_nread p))) (procs (pt k)))\<rparr>\<rparr>)"
proof -
  from assms(1) obtain c where c: "here (mach k) = Some c" by (auto simp: at_pipe_def ready_def)
  let ?k = "k\<lparr>mach := acq_m (L_pipe p) (mach k), pipes := ps, pt := pt k\<lparr>procs := map (wake_proc (Some (Ch_nread p))) (procs (pt k))\<rparr>\<rparr>"
  have "wakeup (Some (Ch_nread p)) (k\<lparr>mach := acq_m (L_pipe p) (mach k), pipes := ps\<rparr>) = Ok () ?k"
    using assms(1) by (simp add: at_pipe_def lock_simps wakeup_ok)
  moreover have "sleep (Ch_nwrite p) (L_pipe p) ?k = Swtch (k\<lparr>pipes := ps, mach := sleep_m (L_pipe p) (acq_m (L_pipe p) (mach k)),
      pt := pt k\<lparr>procs := upd_at i (sleep_proc (Ch_nwrite p) (L_pipe p) (eflags_IF (mach k)))
        (map (wake_proc (Some (Ch_nread p))) (procs (pt k)))\<rparr>\<rparr>)"
    using assms c by (subst sleep_ok [OF may_sleep_pipe(1) [OF assms(1)], where i = i]) (simp_all add: at_pipe_def intena_acq_m)
  ultimately show ?thesis using assms by (simp add: at_pipe_def lock_simps my_held)
qed

section \<open>Properties\<close>

text \<open>C21: \<^verbatim>\<open>pipewrite()\<close> appends its bytes, in order, behind what the pipe holds.  If all fit it
  returns their number, wakes the readers and gives the lock back.  Otherwise it appends as many as
  fit; then, if the read end is open and the caller is not killed, the caller wakes the readers and
  goes to sleep until there is room, and else the call returns \<open>-1\<close>.  The counters may wrap
  around \<open>2 ^ 32\<close>.\<close>

theorem pipewrite_fifo:
  assumes "at_pipe p k" and "cur k = Some i" and "room = 512 - length (pipe_contents (pipes k p))"
  shows "if length bs \<le> room
     then \<exists>k'. pipewrite p bs k = Ok (int (length bs)) k' \<and> pipe_inv (pipes k' p) \<and>
       pipe_contents (pipes k' p) = pipe_contents (pipes k p) @ bs \<and> locks (mach k') = locks (mach k) \<and>
       procs (pt k') = map (wake_proc (Some (Ch_nread p))) (procs (pt k))
     else if pi_readopen (pipes k p) \<and> \<not> p_killed (proc_at k i)
     then \<exists>k'. pipewrite p bs k = Swtch k' \<and> pipe_inv (pipes k' p) \<and>
       pipe_contents (pipes k' p) = pipe_contents (pipes k p) @ take room bs \<and>
       p_state (proc_at k' i) = SLEEPING \<and> p_chan (proc_at k' i) = Some (Ch_nwrite p) \<and>
       (\<forall>j < length (procs (pt k)). j \<noteq> i \<longrightarrow> proc_at k' j = wake_proc (Some (Ch_nread p)) (proc_at k j))
     else \<exists>k'. pipewrite p bs k = Ok (-1) k' \<and> pipe_inv (pipes k' p) \<and>
       pipe_contents (pipes k' p) = pipe_contents (pipes k p) @ take room bs \<and> locks (mach k') = locks (mach k)"
proof -
  let ?x = "pipes k p" and ?k = "k\<lparr>mach := acq_m (L_pipe p) (mach k)\<rparr>"
  let ?y = "fold pipe_put (take room bs) ?x"
  let ?ps = "(pipes k)(p := ?y)"
  have inv: "pipe_inv ?x" and i: "i < length (procs (pt k))" using assms by (auto simp: at_pipe_def)
  have fit: "length (pipe_contents ?x) + length (take room bs) \<le> 512"
    using pipe_ring.bounded [OF inv] assms(3) by auto
  note y = pipe_ring.put_all [OF inv fit]
  have ro: "pi_readopen (fold pipe_put cs x) = pi_readopen x" for cs x
    by (induction cs arbitrary: x) (simp_all add: pipe_put_def)
  have acq: "acquire (L_pipe p) k = Ok () ?k" using assms(1) by (simp add: at_pipe_def acquire_ok)
  have run: "pipewrite p bs k = pipewrite_loop p (int (length bs)) (drop room bs) (?k\<lparr>pipes := ?ps\<rparr>)"
    using pipewrite_loop_room [of ?k p "take room bs" "int (length bs)" "drop room bs"] inv fit
    by (simp only: pipewrite_def seq_apply acq) (simp del: fun_upd_apply)
  show ?thesis
  proof (cases "length bs \<le> room")
    case True
    with run pipewrite_done [OF assms(1), of "int (length bs)" ?ps] y show ?thesis by auto
  next
    case False
    then obtain b cs where d: "drop room bs = b # cs" by (cases "drop room bs") auto
    have "length (pipe_contents ?y) = 512" using y False assms(3) pipe_ring.bounded [OF inv] by auto
    then have full: "pipe_full (?ps p)" using y by (simp add: pipe_ring.full)
    show ?thesis
    proof (cases "pi_readopen ?x \<and> \<not> p_killed (proc_at k i)")
      case True
      with pipewrite_waits [where ps = ?ps, OF assms(1) full assms(2), of "int (length bs)" b cs] False run d y i ro
      show ?thesis by (auto simp: sleep_proc_def)
    next
      case broken: False
      then have "\<not> pi_readopen (?ps p) \<or> p_killed (proc_at k i)" using ro by auto
      from pipewrite_broken [where ps = ?ps, OF assms(1) full assms(2) this, of "int (length bs)" b cs] False broken run d y
      show ?thesis by auto
    qed
  qed
qed

definition pipe_example :: kernel where
  "pipe_example = kernel0\<lparr>mach := machine0\<lparr>cpus := [cpu0\<lparr>c_proc := Some 0\<rparr>]\<rparr>,
     pipes := (\<lambda>_. \<lparr>pi_data = replicate 512 7, pi_nread = - 2, pi_nwrite = 1, pi_readopen = True, pi_writeopen = True\<rparr>)\<rparr>"

lemma pipe_example_ok:
  "at_pipe p pipe_example" "cur pipe_example = Some 0" "pipe_contents (pipes pipe_example p) = [7, 7, 7]"
proof -
  show "at_pipe p pipe_example" "cur pipe_example = Some 0"
    by (simp_all add: pipe_example_def at_pipe_def pipe_inv_def cold_defs ready_def here_def lock_free_def)
  show "pipe_contents (pipes pipe_example p) = [7, 7, 7]"
    by (simp add: pipe_example_def pipe_contents_def ring_def upt_rec)
qed

theorem pipewrite_fifo_witness:
  "\<exists>k'. pipewrite 4096 [1, 2] pipe_example = Ok 2 k' \<and> pipe_contents (pipes k' 4096) = [7, 7, 7, 1, 2]"
  using pipewrite_fifo [OF pipe_example_ok(1,2) refl, where p = 4096 and bs = "[1, 2]"] by (auto simp: pipe_example_ok)

text \<open>C22: \<^verbatim>\<open>piperead()\<close> takes bytes off the front in order.  From an empty pipe whose write end is
  open it returns \<open>-1\<close> for a killed caller and otherwise puts the caller to sleep on the pipe.
  In every other case it returns the first \<open>n\<close> bytes (fewer if the pipe holds fewer, none
  from an empty pipe whose write end is closed), leaves the rest, wakes the writers and gives the
  lock back.\<close>

theorem piperead_fifo:
  assumes "at_pipe p k" and "cur k = Some i"
  shows "if pipe_contents (pipes k p) = [] \<and> pi_writeopen (pipes k p)
     then if p_killed (proc_at k i) then \<exists>k'. piperead p n k = Ok None k' \<and> pipes k' = pipes k
       else \<exists>k'. piperead p n k = Swtch k' \<and> pipes k' = pipes k \<and>
         p_state (proc_at k' i) = SLEEPING \<and> p_chan (proc_at k' i) = Some (Ch_nread p)
     else \<exists>k'. piperead p n k = Ok (Some (take n (pipe_contents (pipes k p)))) k' \<and> pipe_inv (pipes k' p) \<and>
       pipe_contents (pipes k' p) = drop n (pipe_contents (pipes k p)) \<and> locks (mach k') = locks (mach k) \<and>
       procs (pt k') = map (wake_proc (Some (Ch_nwrite p))) (procs (pt k))"
proof -
  let ?x = "pipes k p" and ?k = "k\<lparr>mach := acq_m (L_pipe p) (mach k)\<rparr>"
  have inv: "pipe_inv ?x" and i: "i < length (procs (pt k))" and m: "ready (mach k)" "lock_free (L_pipe p) (mach k)"
    "lock_free L_ptable (mach k)" using assms by (auto simp: at_pipe_def)
  from m obtain c where c: "here (mach k) = Some c" by (auto simp: ready_def)
  have acq: "acquire (L_pipe p) k = Ok () ?k" using m by (simp add: acquire_ok)
  have mt: "pipe_empty ?x \<longleftrightarrow> pipe_contents ?x = []" by (rule pipe_ring.vacant [OF inv])
  show ?thesis
  proof (cases "pipe_contents ?x = [] \<and> pi_writeopen ?x")
    case True
    have "sleep (Ch_nread p) (L_pipe p) ?k = Swtch (k\<lparr>mach := sleep_m (L_pipe p) (acq_m (L_pipe p) (mach k)),
        pt := pt k\<lparr>procs := upd_at i (sleep_proc (Ch_nread p) (L_pipe p) (eflags_IF (mach k))) (procs (pt k))\<rparr>\<rparr>)"
      using assms c i by (subst sleep_ok [OF may_sleep_pipe(2) [OF assms(1)], where i = i]) (simp_all add: at_pipe_def intena_acq_m)
    with True acq m assms(2) i mt show ?thesis
      by (auto simp: piperead_def piperead_loop_def my_held lock_simps sleep_proc_def)
  next
    case False
    note d = pipe_ring.get_many [OF inv, of n]
    have "piperead p n k = Ok (Some (fst (drain pipe_empty pipe_get n ?x)))
        (k\<lparr>pipes := (pipes k)(p := snd (drain pipe_empty pipe_get n ?x)),
          pt := pt k\<lparr>procs := map (wake_proc (Some (Ch_nwrite p))) (procs (pt k))\<rparr>, mach := sync_m (mach k)\<rparr>)"
    proof -
      have "\<not> (pipe_empty ?x \<and> pi_writeopen ?x)" using False mt by simp
      then show ?thesis using acq m
        by (auto simp: piperead_def piperead_loop_def piperead_copy_drain wakeup_held lock_simps simp del: fun_upd_apply)
    qed
    with d show ?thesis unfolding if_not_P [OF False] by simp
  qed
qed

theorem piperead_fifo_witness:
  "\<exists>k'. piperead 4096 2 pipe_example = Ok (Some [7, 7]) k' \<and> pipe_contents (pipes k' 4096) = [7]"
  using piperead_fifo [OF pipe_example_ok(1,2), of 4096 2] by (auto simp: pipe_example_ok)

end
