(* ===== verification/Ftable.thy ===== *)
theory Ftable
  imports Fs Pipe
begin

text \<open>
  \<^verbatim>\<open>file.c\<close>: the table of open files, and \<^verbatim>\<open>pipealloc()\<close> of \<^verbatim>\<open>pipe.c\<close>, which
  allocates two entries of it.  A reference to an open file is its number in the table.
\<close>

abbreviation file_at :: "kernel \<Rightarrow> nat \<Rightarrow> file_t" where
  "file_at k f \<equiv> ftable k ! f"

definition set_file :: "nat \<Rightarrow> (file_t \<Rightarrow> file_t) \<Rightarrow> unit kop" where
  "set_file f g = modify (\<lambda>k. k\<lparr>ftable := upd_at f g (ftable k)\<rparr>)"

lemma set_file_apply [simp, op_simps]: "set_file f g k = Ok () (k\<lparr>ftable := upd_at f g (ftable k)\<rparr>)"
  by (simp add: set_file_def)

definition fileinit :: "unit kop" where
  "fileinit = initlock L_ftable ''ftable''"

definition filealloc_body :: "nat option kop" where
  "filealloc_body =
     bind (gets ftable) (\<lambda>fs.
     case find_idx (\<lambda>f. f_ref f = 0) fs of
       Some f \<Rightarrow> seq (set_file f (\<lambda>y. y\<lparr>f_ref := 1\<rparr>)) (ret (Some f))
     | None \<Rightarrow> ret None)"

definition filealloc :: "nat option kop" where
  "filealloc = with_lock L_ftable filealloc_body"

definition filedup_body :: "nat \<Rightarrow> unit kop" where
  "filedup_body f =
     bind (gets (\<lambda>k. f_ref (file_at k f))) (\<lambda>r.
     if r < 1 then panic ''filedup'' else set_file f (\<lambda>y. y\<lparr>f_ref := f_ref y + 1\<rparr>))"

definition filedup :: "nat \<Rightarrow> nat kop" where
  "filedup f = seq (with_lock L_ftable (filedup_body f)) (ret f)"

text \<open>The part of \<^verbatim>\<open>fileclose()\<close> under the lock: \<open>Some\<close> copy when the last reference is gone.\<close>

definition fileclose_body :: "nat \<Rightarrow> file_t option kop" where
  "fileclose_body f =
     bind (gets (\<lambda>k. f_ref (file_at k f))) (\<lambda>r.
     if r < 1 then panic ''fileclose''
     else seq (set_file f (\<lambda>y. y\<lparr>f_ref := f_ref y - 1\<rparr>))
       (bind (gets (\<lambda>k. file_at k f)) (\<lambda>ff.
        if f_ref ff > 0 then ret None
        else seq (block
          [set_file f (\<lambda>y. y\<lparr>f_ref := 0\<rparr>),
           set_file f (\<lambda>y. y\<lparr>f_type := FD_NONE\<rparr>)])
          (ret (Some ff)))))"

definition fileclose :: "uint \<Rightarrow> nat \<Rightarrow> unit kop" where
  "fileclose kend f =
     bind (with_lock L_ftable (fileclose_body f)) (\<lambda>r.
     case r of
       None \<Rightarrow> ret ()
     | Some ff \<Rightarrow>
        (case f_type ff of
           FD_PIPE \<Rightarrow> pipeclose kend (f_pipe ff) (f_writable ff)
         | FD_INODE \<Rightarrow> block [begin_op, deref (f_ip ff) iput, end_op]
         | FD_NONE \<Rightarrow> ret ()))"

definition filestat :: "nat \<Rightarrow> stat option kop" where
  "filestat f =
     bind (gets (\<lambda>k. file_at k f)) (\<lambda>x.
     if f_type x = FD_INODE then deref (f_ip x) (\<lambda>ip.
       seq (ilock ip) (bind (stati ip) (\<lambda>st. seq (iunlock ip) (ret (Some st)))))
     else ret None)"

text \<open>\<^verbatim>\<open>fileread()\<close> of \<open>n\<close> bytes: the bytes read, or \<open>None\<close> for \<^verbatim>\<open>-1\<close>.\<close>

definition fileread :: "devsw \<Rightarrow> nat \<Rightarrow> nat \<Rightarrow> uchar list option kop" where
  "fileread dv f n =
     bind (gets (\<lambda>k. file_at k f)) (\<lambda>x.
     if \<not> f_readable x then ret None
     else case f_type x of
       FD_PIPE \<Rightarrow> piperead (f_pipe x) n
     | FD_INODE \<Rightarrow> deref (f_ip x) (\<lambda>ip.
         seq (ilock ip)
         (bind (readi dv ip (f_off x) (of_nat n)) (\<lambda>r.
          seq (case r of
                 Some bs \<Rightarrow> do_if (length bs > 0) (set_file f (\<lambda>y. y\<lparr>f_off := f_off y + of_nat (length bs)\<rparr>))
               | None \<Rightarrow> ret ())
          (seq (iunlock ip) (ret r)))))
     | FD_NONE \<Rightarrow> panic ''fileread'')"

text \<open>
  The loop of \<^verbatim>\<open>filewrite()\<close> over the bytes still to be written; the result says whether it
  wrote all of them.
\<close>

abbreviation write_max :: nat where
  "write_max \<equiv> (MAXOPBLOCKS - 1 - 1 - 2) div 2 * 512"

function filewrite_loop :: "devsw \<Rightarrow> nat \<Rightarrow> nat \<Rightarrow> uchar list \<Rightarrow> bool kop" where
  "filewrite_loop dv f ip src =
     (if src = [] then ret True
      else let n1 = min (length src) write_max in
        seq (block [begin_op, ilock ip])
        (bind (gets (\<lambda>k. f_off (file_at k f))) (\<lambda>off.
         bind (writei dv ip off (take n1 src)) (\<lambda>r.
         seq (block
           [do_if (r > 0) (set_file f (\<lambda>y. y\<lparr>f_off := f_off y + of_int r\<rparr>)),
            iunlock ip,
            end_op])
         (if r < 0 then ret False
          else if r \<noteq> int n1 then panic ''short filewrite''
          else filewrite_loop dv f ip (drop n1 src))))))"
  by pat_completeness auto
termination
  by (relation "measure (\<lambda>(dv, f, ip, src). length src)") auto

declare filewrite_loop.simps [simp del]

definition filewrite :: "devsw \<Rightarrow> nat \<Rightarrow> uchar list \<Rightarrow> int kop" where
  "filewrite dv f src =
     bind (gets (\<lambda>k. file_at k f)) (\<lambda>x.
     if \<not> f_writable x then ret (-1)
     else case f_type x of
       FD_PIPE \<Rightarrow> pipewrite (f_pipe x) src
     | FD_INODE \<Rightarrow> deref (f_ip x) (\<lambda>ip.
         bind (filewrite_loop dv f ip src) (\<lambda>ok. ret (if ok then int (length src) else -1)))
     | FD_NONE \<Rightarrow> panic ''filewrite'')"

section \<open>Allocating a pipe\<close>

definition pipealloc :: "uint \<Rightarrow> (nat \<times> nat) option kop" where
  "pipealloc kend =
     bind filealloc (\<lambda>r0.
     case r0 of
       None \<Rightarrow> ret None
     | Some f0 \<Rightarrow>
        bind filealloc (\<lambda>r1.
        case r1 of
          None \<Rightarrow> seq (fileclose kend f0) (ret None)
        | Some f1 \<Rightarrow>
           bind kalloc (\<lambda>p.
           if p = 0 then seq (block [fileclose kend f0, fileclose kend f1]) (ret None)
           else seq (block
             [set_pipe p (\<lambda>x. x\<lparr>pi_readopen := True\<rparr>),
              set_pipe p (\<lambda>x. x\<lparr>pi_writeopen := True\<rparr>),
              set_pipe p (\<lambda>x. x\<lparr>pi_nwrite := 0\<rparr>),
              set_pipe p (\<lambda>x. x\<lparr>pi_nread := 0\<rparr>),
              initlock (L_pipe p) ''pipe'',
              set_file f0 (\<lambda>y. y\<lparr>f_type := FD_PIPE, f_readable := True, f_writable := False, f_pipe := p\<rparr>),
              set_file f1 (\<lambda>y. y\<lparr>f_type := FD_PIPE, f_readable := False, f_writable := True, f_pipe := p\<rparr>)])
             (ret (Some (f0, f1))))))"

end
