(* ===== verification/Vm.thy ===== *)
theory Vm
  imports Kalloc
begin

unbundle bit_operations_syntax

text \<open>
  \<^verbatim>\<open>vm.c\<close>: two-level page tables, kept in the memory as the hardware reads them.  A page
  directory is the address of a page of 1024 entries; an entry holds a physical page address and
  flag bits.  The start of the kernel's data, a symbol of the linker script, is the parameter
  \<open>kdata\<close>, and its end is \<open>kend\<close>.  A null pointer is address 0.

  Loops that step through addresses by a page stop with \<open>Undefined\<close> if the address wraps round
  at the end of the address space; sizes below \<^verbatim>\<open>KERNBASE\<close> never do that.
\<close>

section \<open>Entries\<close>

abbreviation PTE_P :: uint where "PTE_P \<equiv> 1"
abbreviation PTE_W :: uint where "PTE_W \<equiv> 2"
abbreviation PTE_U :: uint where "PTE_U \<equiv> 4"
abbreviation NPDENTRIES :: nat where "NPDENTRIES \<equiv> 1024"
abbreviation EXTMEM :: uint where "EXTMEM \<equiv> 0x100000"
abbreviation DEVSPACE :: uint where "DEVSPACE \<equiv> 0xFE000000"
abbreviation KERNLINK :: uint where "KERNLINK \<equiv> 0x80100000"

definition PDX :: "uint \<Rightarrow> uint" where
  "PDX va = drop_bit 22 va AND 0x3FF"

definition PTX :: "uint \<Rightarrow> uint" where
  "PTX va = drop_bit 12 va AND 0x3FF"

definition PGADDR :: "uint \<Rightarrow> uint \<Rightarrow> uint \<Rightarrow> uint" where
  "PGADDR d t off = push_bit 22 d OR push_bit 12 t OR off"

definition PTE_ADDR :: "uint \<Rightarrow> uint" where
  "PTE_ADDR pte = pte AND NOT 0xFFF"

definition PTE_FLAGS :: "uint \<Rightarrow> uint" where
  "PTE_FLAGS pte = pte AND 0xFFF"

definition load32 :: "uint \<Rightarrow> uint kop" where
  "load32 a = gets (\<lambda>k. get32 (mem k) a)"

definition store32 :: "uint \<Rightarrow> uint \<Rightarrow> unit kop" where
  "store32 a v = set_mem (\<lambda>m. put32 m a v)"

section \<open>Walking and mapping\<close>

definition walkpgdir :: "uint \<Rightarrow> uint \<Rightarrow> bool \<Rightarrow> uint kop" where
  "walkpgdir pgdir va alloc =
     (let pde = pgdir + 4 * PDX va in
     bind (load32 pde) (\<lambda>e.
     if e AND PTE_P \<noteq> 0 then ret (P2V (PTE_ADDR e) + 4 * PTX va)
     else if \<not> alloc then ret 0
     else bind kalloc (\<lambda>pgtab.
       if pgtab = 0 then ret 0
       else seq (block
         [set_mem (\<lambda>m. memset m pgtab 0 4096),
          store32 pde (V2P pgtab OR PTE_P OR PTE_W OR PTE_U)])
         (ret (pgtab + 4 * PTX va)))))"

text \<open>
  The loop of \<^verbatim>\<open>mappages()\<close> runs until \<^verbatim>\<open>a == last\<close>.  Both are page aligned, so the
  test succeeds after \<open>(last - a) div PGSIZE\<close> steps; the loop counts them down.
\<close>

primrec mappages_loop :: "nat \<Rightarrow> uint \<Rightarrow> uint \<Rightarrow> uint \<Rightarrow> uint \<Rightarrow> int kop" where
  "mappages_loop 0 pgdir a pa perm =
     bind (walkpgdir pgdir a True) (\<lambda>pte.
     if pte = 0 then ret (-1)
     else bind (load32 pte) (\<lambda>e.
     if e AND PTE_P \<noteq> 0 then panic ''remap''
     else seq (store32 pte (pa OR perm OR PTE_P)) (ret 0)))"
| "mappages_loop (Suc n) pgdir a pa perm =
     bind (walkpgdir pgdir a True) (\<lambda>pte.
     if pte = 0 then ret (-1)
     else bind (load32 pte) (\<lambda>e.
     if e AND PTE_P \<noteq> 0 then panic ''remap''
     else seq (store32 pte (pa OR perm OR PTE_P))
       (mappages_loop n pgdir (a + PGSIZE) (pa + PGSIZE) perm)))"

definition mappages :: "uint \<Rightarrow> uint \<Rightarrow> uint \<Rightarrow> uint \<Rightarrow> uint \<Rightarrow> int kop" where
  "mappages pgdir va sz pa perm =
     (let a = PGROUNDDOWN va; last = PGROUNDDOWN (va + sz - 1)
      in mappages_loop (unat ((last - a) div PGSIZE)) pgdir a pa perm)"

section \<open>Freeing\<close>

function deallocuvm_loop :: "uint \<Rightarrow> uint \<Rightarrow> uint \<Rightarrow> uint \<Rightarrow> unit kop" where
  "deallocuvm_loop kend pgdir a oldsz =
     (if a < oldsz then
        bind (walkpgdir pgdir a False) (\<lambda>pte.
        bind (if pte = 0 then ret (PGADDR (PDX a + 1) 0 0 - PGSIZE)
              else bind (load32 pte) (\<lambda>e.
                if e AND PTE_P \<noteq> 0 then
                  (let pa = PTE_ADDR e in
                   if pa = 0 then panic ''kfree''
                   else seq (block [kfree kend (P2V pa), store32 pte 0]) (ret a))
                else ret a)) (\<lambda>a'.
        if a' + PGSIZE \<le> a then undef ''address wraps''
        else deallocuvm_loop kend pgdir (a' + PGSIZE) oldsz))
      else ret ())"
  by pat_completeness auto
termination
  by (relation "measure (\<lambda>(kend, pgdir, a, oldsz). unat oldsz - unat a)")
     (auto simp: word_less_nat_alt word_le_nat_alt not_le)

declare deallocuvm_loop.simps [simp del]

definition deallocuvm :: "uint \<Rightarrow> uint \<Rightarrow> uint \<Rightarrow> uint \<Rightarrow> uint kop" where
  "deallocuvm kend pgdir oldsz newsz =
     (if newsz \<ge> oldsz then ret oldsz
      else seq (deallocuvm_loop kend pgdir (PGROUNDUP newsz) oldsz) (ret newsz))"

definition freevm :: "uint \<Rightarrow> uint \<Rightarrow> unit kop" where
  "freevm kend pgdir =
     (if pgdir = 0 then panic ''freevm: no pgdir''
      else block
        [bind (deallocuvm kend pgdir KERNBASE 0) (\<lambda>_. ret ()),
         for_each [0..<NPDENTRIES] (\<lambda>i.
           bind (load32 (pgdir + 4 * of_nat i)) (\<lambda>e.
           do_if (e AND PTE_P \<noteq> 0) (kfree kend (P2V (PTE_ADDR e))))),
         kfree kend pgdir])"

section \<open>The kernel part\<close>

record kmap =
  km_virt :: uint
  km_phys_start :: uint
  km_phys_end :: uint
  km_perm :: uint

definition kmap_table :: "uint \<Rightarrow> kmap list" where
  "kmap_table kdata =
     [\<lparr>km_virt = KERNBASE, km_phys_start = 0, km_phys_end = EXTMEM, km_perm = PTE_W\<rparr>,
      \<lparr>km_virt = KERNLINK, km_phys_start = V2P KERNLINK, km_phys_end = V2P kdata, km_perm = 0\<rparr>,
      \<lparr>km_virt = kdata, km_phys_start = V2P kdata, km_phys_end = PHYSTOP, km_perm = PTE_W\<rparr>,
      \<lparr>km_virt = DEVSPACE, km_phys_start = DEVSPACE, km_phys_end = 0, km_perm = PTE_W\<rparr>]"

primrec map_kernel :: "uint \<Rightarrow> kmap list \<Rightarrow> int kop" where
  "map_kernel pgdir [] = ret 0"
| "map_kernel pgdir (k # ks) =
     bind (mappages pgdir (km_virt k) (km_phys_end k - km_phys_start k) (km_phys_start k) (km_perm k)) (\<lambda>r.
     if r < 0 then ret (-1) else map_kernel pgdir ks)"

definition setupkvm :: "uint \<Rightarrow> uint \<Rightarrow> uint kop" where
  "setupkvm kdata kend =
     bind kalloc (\<lambda>pgdir.
     if pgdir = 0 then ret 0
     else seq (set_mem (\<lambda>m. memset m pgdir 0 4096))
     (if P2V PHYSTOP > DEVSPACE then panic ''PHYSTOP too high''
      else bind (map_kernel pgdir (kmap_table kdata)) (\<lambda>r.
        if r < 0 then seq (freevm kend pgdir) (ret 0) else ret pgdir)))"

definition kvmalloc :: "uint \<Rightarrow> uint \<Rightarrow> unit kop" where
  "kvmalloc kdata kend =
     bind (setupkvm kdata kend) (\<lambda>pg. block [modify (\<lambda>k. k\<lparr>kpgdir := pg\<rparr>), switchkvm])"

section \<open>User memory\<close>

text \<open>Bytes that the kernel copies between its own variables and memory.\<close>

fun put_bytes :: "memory \<Rightarrow> uint \<Rightarrow> uchar list \<Rightarrow> memory" where
  "put_bytes m a [] = m"
| "put_bytes m a (b # bs) = put_bytes (m(a := b)) (a + 1) bs"

definition get_bytes :: "memory \<Rightarrow> uint \<Rightarrow> nat \<Rightarrow> uchar list" where
  "get_bytes m a n = map (\<lambda>i. m (a + of_nat i)) [0..<n]"

text \<open>The initial code is the byte list \<open>init\<close>, whose length is \<^verbatim>\<open>sz\<close>.\<close>

definition inituvm :: "uint \<Rightarrow> uchar list \<Rightarrow> unit kop" where
  "inituvm pgdir init =
     (if length init \<ge> 4096 then panic ''inituvm: more than a page''
      else bind kalloc (\<lambda>m. block
        [set_mem (\<lambda>x. memset x m 0 4096),
         bind (mappages pgdir 0 PGSIZE (V2P m) (PTE_W OR PTE_U)) (\<lambda>_. ret ()),
         set_mem (\<lambda>x. put_bytes x m init)]))"

function allocuvm_loop :: "uint \<Rightarrow> uint \<Rightarrow> uint \<Rightarrow> uint \<Rightarrow> uint \<Rightarrow> uint kop" where
  "allocuvm_loop kend pgdir a oldsz newsz =
     (if a < newsz then
        bind kalloc (\<lambda>m.
        if m = 0 then bind (deallocuvm kend pgdir newsz oldsz) (\<lambda>_. ret 0)
        else seq (set_mem (\<lambda>x. memset x m 0 4096))
        (bind (mappages pgdir a PGSIZE (V2P m) (PTE_W OR PTE_U)) (\<lambda>r.
         if r < 0 then bind (deallocuvm kend pgdir newsz oldsz) (\<lambda>_. seq (kfree kend m) (ret 0))
         else if a + PGSIZE \<le> a then undef ''address wraps''
         else allocuvm_loop kend pgdir (a + PGSIZE) oldsz newsz)))
      else ret newsz)"
  by pat_completeness auto
termination
  by (relation "measure (\<lambda>(kend, pgdir, a, oldsz, newsz). unat newsz - unat a)")
     (auto simp: word_less_nat_alt word_le_nat_alt not_le)

declare allocuvm_loop.simps [simp del]

definition allocuvm :: "uint \<Rightarrow> uint \<Rightarrow> uint \<Rightarrow> uint \<Rightarrow> uint kop" where
  "allocuvm kend pgdir oldsz newsz =
     (if newsz \<ge> KERNBASE then ret 0
      else if newsz < oldsz then ret oldsz
      else allocuvm_loop kend pgdir (PGROUNDUP oldsz) oldsz newsz)"

definition clearpteu :: "uint \<Rightarrow> uint \<Rightarrow> unit kop" where
  "clearpteu pgdir uva =
     bind (walkpgdir pgdir uva False) (\<lambda>pte.
     if pte = 0 then panic ''clearpteu''
     else bind (load32 pte) (\<lambda>e. store32 pte (e AND NOT PTE_U)))"

text \<open>The loop of \<^verbatim>\<open>copyuvm()\<close>; \<open>False\<close> is its jump to \<^verbatim>\<open>bad\<close>.\<close>

function copyuvm_loop :: "uint \<Rightarrow> uint \<Rightarrow> uint \<Rightarrow> uint \<Rightarrow> uint \<Rightarrow> bool kop" where
  "copyuvm_loop kend pgdir d i sz =
     (if i < sz then
        bind (walkpgdir pgdir i False) (\<lambda>pte.
        if pte = 0 then panic ''copyuvm: pte should exist''
        else bind (load32 pte) (\<lambda>e.
        if e AND PTE_P = 0 then panic ''copyuvm: page not present''
        else bind kalloc (\<lambda>m.
        if m = 0 then ret False
        else seq (set_mem (\<lambda>x. memmove x m (P2V (PTE_ADDR e)) 4096))
        (bind (mappages d i PGSIZE (V2P m) (PTE_FLAGS e)) (\<lambda>r.
         if r < 0 then seq (kfree kend m) (ret False)
         else if i + PGSIZE \<le> i then undef ''address wraps''
         else copyuvm_loop kend pgdir d (i + PGSIZE) sz)))))
      else ret True)"
  by pat_completeness auto
termination
  by (relation "measure (\<lambda>(kend, pgdir, d, i, sz). unat sz - unat i)")
     (auto simp: word_less_nat_alt word_le_nat_alt not_le)

declare copyuvm_loop.simps [simp del]

definition copyuvm :: "uint \<Rightarrow> uint \<Rightarrow> uint \<Rightarrow> uint \<Rightarrow> uint kop" where
  "copyuvm kdata kend pgdir sz =
     bind (setupkvm kdata kend) (\<lambda>d.
     if d = 0 then ret 0
     else bind (copyuvm_loop kend pgdir d 0 sz) (\<lambda>ok.
       if ok then ret d else seq (freevm kend d) (ret 0)))"

text \<open>\<^verbatim>\<open>uva2ka()\<close> reads through the result of \<^verbatim>\<open>walkpgdir()\<close> without testing it.\<close>

definition uva2ka :: "uint \<Rightarrow> uint \<Rightarrow> uint kop" where
  "uva2ka pgdir uva =
     bind (walkpgdir pgdir uva False) (\<lambda>pte.
     if pte = 0 then undef ''null pointer''
     else bind (load32 pte) (\<lambda>e.
     if e AND PTE_P = 0 then ret 0
     else if e AND PTE_U = 0 then ret 0
     else ret (P2V (PTE_ADDR e))))"

lemma and_not_mask: "(a :: uint) AND NOT (mask n) = a - take_bit n a"
proof -
  have "a AND NOT (mask n) = push_bit n (drop_bit n a)"
    by (rule bit_word_eqI) (auto simp: bit_simps not_less)
  moreover have "push_bit n (drop_bit n a) + take_bit n a = a" by (rule bits_ident)
  ultimately show ?thesis by (metis add_diff_cancel_right')
qed

lemma PGROUNDDOWN_mod: "PGROUNDDOWN a = a - a mod PGSIZE"
  using and_not_mask [of a 12] by (simp add: PGROUNDDOWN_def take_bit_eq_mod mask_eq_exp_minus_1)

text \<open>
  \<^verbatim>\<open>copyout()\<close>, with the bytes at \<^verbatim>\<open>p\<close> as a list.
\<close>

function copyout :: "uint \<Rightarrow> uint \<Rightarrow> uchar list \<Rightarrow> int kop" where
  "copyout pgdir va buf =
     (if buf = [] then ret 0
      else let va0 = PGROUNDDOWN va in
        bind (uva2ka pgdir va0) (\<lambda>pa0.
        if pa0 = 0 then ret (-1)
        else let n = min (unat (PGSIZE - (va - va0))) (length buf) in
          seq (set_mem (\<lambda>x. put_bytes x (pa0 + (va - va0)) (take n buf)))
            (copyout pgdir (va0 + PGSIZE) (drop n buf))))"
  by pat_completeness auto
termination
proof (relation "measure (\<lambda>(pgdir, va, buf). length buf)", goal_cases)
  case (2 pgdir va buf va0 pa0 n)
  have "va - va0 = va mod PGSIZE" using 2(2) by (simp add: PGROUNDDOWN_mod)
  moreover have "unat (va mod PGSIZE) < unat PGSIZE" by (simp add: unat_mod)
  ultimately have "va - va0 \<noteq> PGSIZE" by force
  then have "PGSIZE - (va - va0) \<noteq> 0" by simp
  then have "0 < n" using 2 by (simp add: unat_gt_0)
  then show ?case using 2(1) by simp
qed simp

declare copyout.simps [simp del]

end
