(* ===== verification/Mlfq.thy ===== *)
theory Mlfq
  imports Proc
begin

text \<open>
  The multi-level feedback queue and the monopoly queue of \<^verbatim>\<open>proc.c\<close>: the choice of the
  next process (\<^verbatim>\<open>can_mlfq()\<close>, \<^verbatim>\<open>next_proc()\<close>), \<^verbatim>\<open>priority_boosting()\<close>,
  the system calls behind them, and the per-CPU \<^verbatim>\<open>scheduler()\<close>.  The queues are not data
  structures of their own: a process is in queue \<open>L\<close> when its \<^verbatim>\<open>level\<close> field is
  \<open>L\<close> (0 to 3, or 99 for the monopoly queue), and \<^verbatim>\<open>queue_position\<close> remembers
  where the cyclic search of each queue resumes.
\<close>

section \<open>Choosing a process\<close>

definition is_runnable :: "proc option \<Rightarrow> int" where
  "is_runnable p = (case p of None \<Rightarrow> 0
   | Some q \<Rightarrow> if p_state q = RUNNABLE \<and> 0 < p_quantum q \<and> p_level q < 4 then 1 else 0)"

text \<open>A process that \<^verbatim>\<open>next_proc(level)\<close> may return.\<close>

definition elig :: "int \<Rightarrow> proc \<Rightarrow> bool" where
  "elig lvl p \<longleftrightarrow> p_level p = lvl \<and> p_state p = RUNNABLE"

definition can_mlfq :: "int \<Rightarrow> bool kop" where
  "can_mlfq lvl = with_lock L_ptable (gets (\<lambda>k. find_idx (elig lvl) (procs (pt k)) \<noteq> None))"

text \<open>The loops of \<^verbatim>\<open>next_proc()\<close>: levels 0 to 2, level 3, level 99.\<close>

function rr_loop :: "proc list \<Rightarrow> int \<Rightarrow> nat \<Rightarrow> nat \<Rightarrow> nat option" where
  "rr_loop ps lvl pos i =
     (if i < NPROC then
        let start = (pos + i) mod NPROC; p = ps ! start in
        if p_level p = lvl \<and> p_state p = RUNNABLE then Some start
        else rr_loop ps lvl pos (Suc i)
      else None)"
  by pat_completeness auto
termination by (relation "measure (\<lambda>(ps, lvl, pos, i). NPROC - i)") auto

function l3_loop :: "proc list \<Rightarrow> nat \<Rightarrow> nat \<Rightarrow> nat option \<Rightarrow> nat option" where
  "l3_loop ps pos i temp =
     (if i < NPROC then
        let start = (pos + i) mod NPROC; p = ps ! start in
        if p_state p \<noteq> RUNNABLE then l3_loop ps pos (Suc i) temp
        else if p_level p = 3 then
          (case temp of
             None \<Rightarrow> l3_loop ps pos (Suc i) (Some start)
           | Some t \<Rightarrow> if p_priority (ps ! t) < p_priority p then l3_loop ps pos (Suc i) (Some start)
                       else l3_loop ps pos (Suc i) temp)
        else l3_loop ps pos (Suc i) temp
      else temp)"
  by pat_completeness auto
termination by (relation "measure (\<lambda>(ps, pos, i, temp). NPROC - i)") auto

function moq_loop :: "proc list \<Rightarrow> nat \<Rightarrow> nat option \<Rightarrow> nat option" where
  "moq_loop ps i temp =
     (if i < NPROC then
        let p = ps ! i in
        if p_state p \<noteq> RUNNABLE then moq_loop ps (Suc i) temp
        else if p_level p = 99 then
          (case temp of
             None \<Rightarrow> moq_loop ps (Suc i) (Some i)
           | Some t \<Rightarrow> if p_priority p < p_priority (ps ! t) then moq_loop ps (Suc i) (Some i)
                       else moq_loop ps (Suc i) temp)
        else moq_loop ps (Suc i) temp
      else temp)"
  by pat_completeness auto
termination by (relation "measure (\<lambda>(ps, i, temp). NPROC - i)") auto

declare rr_loop.simps [simp del] l3_loop.simps [simp del] moq_loop.simps [simp del]

definition set_queue_position :: "int \<Rightarrow> nat \<Rightarrow> unit kop" where
  "set_queue_position lvl v = modify (\<lambda>k. k\<lparr>pt := pt k\<lparr>queue_position := (queue_position (pt k))[nat lvl := v]\<rparr>\<rparr>)"

text \<open>
  On level 3 the code computes \<^verbatim>\<open>temp - ptable.proc\<close> without a test for null: when no process
  is runnable there, the result has no meaning in C.
\<close>

definition next_proc :: "int \<Rightarrow> nat option kop" where
  "next_proc lvl =
     bind (gets pt) (\<lambda>t.
     if 0 \<le> lvl \<and> lvl \<le> 2 then
       (case rr_loop (procs t) lvl (queue_position t ! nat lvl) 0 of
          Some start \<Rightarrow> seq (set_queue_position lvl ((start + 1) mod NPROC)) (ret (Some start))
        | None \<Rightarrow> ret None)
     else if lvl = 3 then
       (case l3_loop (procs t) (queue_position t ! nat lvl) 0 None of
          None \<Rightarrow> undef ''temp - ptable.proc with temp null''
        | Some temp \<Rightarrow> seq (set_queue_position lvl ((temp + 1) mod NPROC)) (ret (Some temp)))
     else if lvl = 99 then ret (moq_loop (procs t) 0 None)
     else ret None)"

section \<open>Boosting and the scheduling system calls\<close>

definition boost_proc :: "proc \<Rightarrow> proc" where
  "boost_proc p =
     (if p_level p = 0 then p\<lparr>p_quantum := 2\<rparr>
      else if 1 \<le> p_level p \<and> p_level p \<le> 3 then p\<lparr>p_level := 0, p_quantum := 2\<rparr>
      else p)"

definition priority_boosting :: "int kop" where
  "priority_boosting =
     seq (block
       [acquire L_ptable,
        modify (\<lambda>k. k\<lparr>pt := pt k\<lparr>procs := map boost_proc (procs (pt k))\<rparr>\<rparr>),
        release L_ptable,
        set_queue_position 0 0, set_queue_position 1 0, set_queue_position 2 0, set_queue_position 3 0])
     (ret 1)"

definition getlev :: "int kop" where
  "getlev = bind myproc (\<lambda>p. deref p (\<lambda>i. gets (\<lambda>k. p_level (proc_at k i))))"

definition setpriority :: "int \<Rightarrow> int \<Rightarrow> int kop" where
  "setpriority pid priority =
     (if priority < 0 \<or> 10 < priority then ret (-2)
      else bind (find_with_pid pid) (\<lambda>p.
        case p of None \<Rightarrow> ret (-1)
        | Some i \<Rightarrow> seq (set_proc i (\<lambda>q. q\<lparr>p_priority := priority\<rparr>)) (ret 0)))"

definition set_pt :: "(ptable \<Rightarrow> ptable) \<Rightarrow> unit kop" where
  "set_pt f = modify (\<lambda>k. k\<lparr>pt := f (pt k)\<rparr>)"

definition setmonopoly :: "int \<Rightarrow> int \<Rightarrow> int kop" where
  "setmonopoly pid password =
     (if password \<noteq> 2020087801 then ret (-2)
      else bind (find_with_pid pid) (\<lambda>p.
        case p of None \<Rightarrow> ret (-1)
        | Some i \<Rightarrow>
            bind (gets (\<lambda>k. moq_priority (pt k))) (\<lambda>v.
            seq (block
              [set_proc i (\<lambda>q. q\<lparr>p_priority := v\<rparr>),
               set_pt (\<lambda>t. t\<lparr>moq_priority := v + 1\<rparr>),
               set_proc i (\<lambda>q. q\<lparr>p_level := 99\<rparr>),
               set_proc i (\<lambda>q. q\<lparr>p_state := RUNNABLE\<rparr>),
               set_pt (\<lambda>t. t\<lparr>moq_cnt := moq_cnt t + 1\<rparr>)])
            (gets (\<lambda>k. moq_cnt (pt k))))))"

definition monopolize :: "unit kop" where
  "monopolize = set_pt (\<lambda>t. t\<lparr>is_monopolized := 1\<rparr>)"

definition unmonopolize :: "unit kop" where
  "unmonopolize = set_pt (\<lambda>t. t\<lparr>is_monopolized := 0\<rparr>)"

section \<open>The scheduler\<close>

text \<open>
  One round of the loop of \<^verbatim>\<open>scheduler()\<close> is cut at its lock operations into the choice of a
  process, which ends with \<^verbatim>\<open>ptable.lock\<close> released, the dispatch, which ends in
  \<^verbatim>\<open>swtch()\<close>, and the return from it.  The choice yields \<open>None\<close> for
  \<^verbatim>\<open>continue\<close>, and otherwise \<open>Some p\<close> with the pointer that
  \<^verbatim>\<open>next_proc()\<close> returned.
\<close>

definition scheduler_start :: "unit kop" where
  "scheduler_start = bind mycpu (\<lambda>c. set_cpu c (\<lambda>x. x\<lparr>c_proc := None\<rparr>))"

primrec scheduler_levels :: "int list \<Rightarrow> nat option option kop" where
  "scheduler_levels [] = ret None"
| "scheduler_levels (i # is) =
     bind (can_mlfq i) (\<lambda>b.
     if b then bind (with_lock L_ptable (next_proc i)) (\<lambda>p. ret (Some p))
     else scheduler_levels is)"

definition scheduler_choose :: "nat option option kop" where
  "scheduler_choose =
     seq sti
     (bind (gets (\<lambda>k. is_monopolized (pt k))) (\<lambda>mono.
      if mono = 1 then
        bind (with_lock L_ptable (next_proc 99)) (\<lambda>p.
        case p of
          None \<Rightarrow> bind (gets (\<lambda>k. moq_cnt (pt k))) (\<lambda>n. seq (do_if (n = 0) unmonopolize) (ret None))
        | Some i \<Rightarrow> ret (Some (Some i)))
      else scheduler_levels [0, 1, 2, 3]))"

definition scheduler_dispatch :: "nat \<Rightarrow> nat option \<Rightarrow> unit kop" where
  "scheduler_dispatch c p =
     block
       [acquire L_ptable,
        set_cpu c (\<lambda>x. x\<lparr>c_proc := p\<rparr>),
        switchuvm p,
        deref p (\<lambda>i. set_proc i (\<lambda>q. q\<lparr>p_state := RUNNING\<rparr>)),
        swtch_out]"

definition scheduler_return :: "unit kop" where
  "scheduler_return = block [switchkvm, release L_ptable]"

lemma set_pt_apply [simp, op_simps]: "set_pt f k = Ok () (k\<lparr>pt := f (pt k)\<rparr>)"
  by (simp add: set_pt_def)

lemma set_queue_position_apply [simp, op_simps]:
  "set_queue_position lvl v k = Ok () (k\<lparr>pt := pt k\<lparr>queue_position := (queue_position (pt k))[nat lvl := v]\<rparr>\<rparr>)"
  by (simp add: set_queue_position_def)

section \<open>The loops as searches\<close>

text \<open>The loops visit the table in the cyclic order of \<open>queue_position\<close>, or from the start.\<close>

lemma rr_loop_eq: "rr_loop ps lvl pos 0 = find (\<lambda>j. elig lvl (ps ! j)) (cyclic NPROC pos)"
proof -
  have "rr_loop ps lvl pos i = find (\<lambda>j. elig lvl (ps ! j)) (map (\<lambda>i. (pos + i) mod NPROC) [i..<n])"
    if "n = NPROC" for n i
    using that
  proof (induction "n - i" arbitrary: i)
    case 0
    then show ?case by (subst rr_loop.simps) simp
  next
    case (Suc d)
    then have i: "i < NPROC" and "d = n - Suc i" by simp_all
    note IH = Suc.hyps(1) [OF this(2) Suc.prems]
    have "[i..<n] = i # [Suc i..<n]" using i Suc.prems by (simp only: upt_conv_Cons)
    with i IH show ?case
      by (subst rr_loop.simps) (simp add: Let_def elig_def)
  qed
  then show ?thesis by (simp only: cyclic_def)
qed

lemma l3_loop_step:
  "i < NPROC \<Longrightarrow> l3_loop ps pos i temp = l3_loop ps pos (Suc i)
     (best_step (\<lambda>j. elig 3 (ps ! j)) (\<lambda>j. p_priority (ps ! j)) temp ((pos + i) mod NPROC))"
  by (subst l3_loop.simps) (simp add: Let_def best_step_def elig_def split: option.split)

lemma l3_loop_stop: "\<not> i < NPROC \<Longrightarrow> l3_loop ps pos i temp = temp"
  by (subst l3_loop.simps) simp

lemma l3_loop_eq:
  "l3_loop ps pos 0 None =
     foldl (best_step (\<lambda>j. elig 3 (ps ! j)) (\<lambda>j. p_priority (ps ! j))) None (cyclic NPROC pos)"
proof -
  have "l3_loop ps pos i temp = foldl (best_step (\<lambda>j. elig 3 (ps ! j)) (\<lambda>j. p_priority (ps ! j))) temp
      (map (\<lambda>i. (pos + i) mod NPROC) [i..<n])" if "n = NPROC" for n i temp
    using that
  proof (induction "n - i" arbitrary: i temp)
    case 0
    then show ?case by (simp add: l3_loop_stop)
  next
    case (Suc d)
    then have i: "i < NPROC" and "d = n - Suc i" by simp_all
    note IH = Suc.hyps(1) [OF this(2) Suc.prems]
    have "[i..<n] = i # [Suc i..<n]" using i Suc.prems by (simp only: upt_conv_Cons)
    then show ?case by (simp only: l3_loop_step [OF i] IH list.map foldl_Cons)
  qed
  then show ?thesis by (simp only: cyclic_def)
qed

lemma moq_loop_step:
  "i < NPROC \<Longrightarrow> moq_loop ps i temp = moq_loop ps (Suc i)
     (best_step (\<lambda>j. elig 99 (ps ! j)) (\<lambda>j. - p_priority (ps ! j)) temp i)"
  by (subst moq_loop.simps) (simp add: Let_def best_step_def elig_def split: option.split)

lemma moq_loop_stop: "\<not> i < NPROC \<Longrightarrow> moq_loop ps i temp = temp"
  by (subst moq_loop.simps) simp

lemma moq_loop_eq:
  "moq_loop ps 0 None =
     foldl (best_step (\<lambda>j. elig 99 (ps ! j)) (\<lambda>j. - p_priority (ps ! j))) None [0..<NPROC]"
proof -
  have "moq_loop ps i temp =
      foldl (best_step (\<lambda>j. elig 99 (ps ! j)) (\<lambda>j. - p_priority (ps ! j))) temp [i..<n]"
    if "n = NPROC" for n i temp
    using that
  proof (induction "n - i" arbitrary: i temp)
    case 0
    then show ?case by (simp add: moq_loop_stop)
  next
    case (Suc d)
    then have i: "i < NPROC" and "d = n - Suc i" by simp_all
    note IH = Suc.hyps(1) [OF this(2) Suc.prems]
    have "[i..<n] = i # [Suc i..<n]" using i Suc.prems by (simp only: upt_conv_Cons)
    then show ?case by (simp only: moq_loop_step [OF i] IH foldl_Cons)
  qed
  then show ?thesis by blast
qed

section \<open>The contract of a choice\<close>

text \<open>
  What \<^verbatim>\<open>scheduler()\<close> relies on when it calls \<^verbatim>\<open>next_proc()\<close> after
  \<^verbatim>\<open>can_mlfq()\<close>: a choice is a slot that qualifies, and there is one whenever some slot
  qualifies.
\<close>

locale picker =
  fixes ok :: "proc \<Rightarrow> bool" and pick :: "proc list \<Rightarrow> nat option"
  assumes sound: "length ps = NPROC \<Longrightarrow> pick ps = Some i \<Longrightarrow> i < NPROC \<and> ok (ps ! i)"
    and complete: "length ps = NPROC \<Longrightarrow> pick ps = None \<Longrightarrow> p \<in> set ps \<Longrightarrow> \<not> ok p"
begin

lemma pick_Some_iff: "length ps = NPROC \<Longrightarrow> (\<exists>i. pick ps = Some i) \<longleftrightarrow> (\<exists>p \<in> set ps. ok p)"
  by (metis complete not_None_eq nth_mem sound)

lemma pick_if_scan: "length ps = NPROC \<Longrightarrow> find_idx ok ps \<noteq> None \<Longrightarrow> \<exists>i. pick ps = Some i"
  by (metis find_idx_None_iff pick_Some_iff)

end

text \<open>A choice by rank: the best key, and the first slot in the order of the search among equals.\<close>

locale ranked_picker = picker +
  fixes key :: "proc \<Rightarrow> int" and order :: "nat list"
  assumes best: "length ps = NPROC \<Longrightarrow> pick ps = Some i \<Longrightarrow>
    \<exists>ys zs. order = ys @ i # zs \<and> (\<forall>j \<in> set ys. ok (ps ! j) \<longrightarrow> key (ps ! j) < key (ps ! i)) \<and>
      (\<forall>j \<in> set zs. ok (ps ! j) \<longrightarrow> key (ps ! j) \<le> key (ps ! i))"
    and order: "set order = {..<NPROC}"
begin

lemma pick_max:
  assumes "length ps = NPROC" and "pick ps = Some i" and "p \<in> set ps" and "ok p"
  shows "key p \<le> key (ps ! i)"
proof -
  from best [OF assms(1,2)] obtain ys zs where
    o: "order = ys @ i # zs" "\<forall>j \<in> set ys. ok (ps ! j) \<longrightarrow> key (ps ! j) < key (ps ! i)"
    "\<forall>j \<in> set zs. ok (ps ! j) \<longrightarrow> key (ps ! j) \<le> key (ps ! i)" by blast
  from assms(1,3) obtain j where j: "j < NPROC" "p = ps ! j" by (auto simp: in_set_conv_nth)
  then have "j \<in> set order" by (simp add: order)
  with o j assms(4) show ?thesis by (auto intro: less_imp_le)
qed

end

lemma rr_loop_Some:
  assumes "rr_loop ps lvl pos 0 = Some i"
  shows "i < NPROC \<and> elig lvl (ps ! i)"
    and "\<exists>ys zs. cyclic NPROC pos = ys @ i # zs \<and> (\<forall>j \<in> set ys. \<not> elig lvl (ps ! j))"
proof -
  have "find (\<lambda>j. elig lvl (ps ! j)) (cyclic NPROC pos) = Some i" using assms by (simp only: rr_loop_eq)
  then obtain ys zs where *: "cyclic NPROC pos = ys @ i # zs" "elig lvl (ps ! i)" "\<forall>y \<in> set ys. \<not> elig lvl (ps ! y)"
    using find_Some_split by fastforce
  then have "i \<in> set (cyclic NPROC pos)" by simp
  then have "i < NPROC" by (simp only: set_cyclic lessThan_iff)
  with * show "i < NPROC \<and> elig lvl (ps ! i)" by blast
  from * show "\<exists>ys zs. cyclic NPROC pos = ys @ i # zs \<and> (\<forall>j \<in> set ys. \<not> elig lvl (ps ! j))" by blast
qed

lemma elig_slots:
  assumes "length ps = NPROC"
  shows "(\<forall>j \<in> {..<NPROC}. \<not> ok (ps ! j)) \<longleftrightarrow> (\<forall>p \<in> set ps. \<not> ok p)"
  using assms by (metis in_set_conv_nth lessThan_iff)

lemma rr_loop_None: "length ps = NPROC \<Longrightarrow> rr_loop ps lvl pos 0 = None \<longleftrightarrow> (\<forall>p \<in> set ps. \<not> elig lvl p)"
proof -
  assume len: "length ps = NPROC"
  have "rr_loop ps lvl pos 0 = None \<longleftrightarrow> (\<forall>j \<in> set (cyclic NPROC pos). \<not> elig lvl (ps ! j))"
    by (simp only: rr_loop_eq find_None_iff) blast
  then show ?thesis by (simp only: set_cyclic elig_slots [OF len])
qed

interpretation rr: ranked_picker "elig lvl" "\<lambda>ps. rr_loop ps lvl pos 0" "\<lambda>_. 0" "cyclic NPROC pos" for lvl pos
proof (unfold_locales, goal_cases)
  case 1
  then show ?case by (blast dest: rr_loop_Some(1))
next
  case 2
  then show ?case by (simp only: rr_loop_None) blast
next
  case 3
  from rr_loop_Some(2) [OF 3(2)] show ?case by auto
next
  case 4
  show ?case by (rule set_cyclic)
qed

interpretation l3: ranked_picker "elig 3" "\<lambda>ps. l3_loop ps pos 0 None" p_priority "cyclic NPROC pos" for pos
proof (unfold_locales, goal_cases)
  case (1 ps i)
  from best_fold_max(1,2) [OF 1(2) [unfolded l3_loop_eq]] show ?case by (simp only: set_cyclic lessThan_iff)
next
  case (2 ps p)
  from 2(2) have "\<forall>j \<in> {..<NPROC}. \<not> elig 3 (ps ! j)" by (simp only: l3_loop_eq best_fold_None_iff set_cyclic)
  with 2 show ?case by (simp only: elig_slots) blast
next
  case 3
  from best_fold_Some [OF 3(2) [unfolded l3_loop_eq]] show ?case by blast
next
  case 4
  show ?case by (rule set_cyclic)
qed

lemma set_upt_lessThan: "set [0..<n] = {..<n}"
  by auto

interpretation moq: ranked_picker "elig 99" "\<lambda>ps. moq_loop ps 0 None" "\<lambda>p. - p_priority p" "[0..<NPROC]"
proof (unfold_locales, goal_cases)
  case (1 ps i)
  from best_fold_max(1,2) [OF 1(2) [unfolded moq_loop_eq]] show ?case by (simp only: set_upt_lessThan lessThan_iff)
next
  case (2 ps p)
  from 2(2) have "\<forall>j \<in> {..<NPROC}. \<not> elig 99 (ps ! j)" by (simp only: moq_loop_eq best_fold_None_iff set_upt_lessThan)
  with 2 show ?case by (simp only: elig_slots) blast
next
  case 3
  from best_fold_Some [OF 3(2) [unfolded moq_loop_eq]] show ?case by blast
next
  case 4
  show ?case by (rule set_upt_lessThan)
qed

section \<open>The routines on a well-formed table\<close>

definition wf_pt :: "ptable \<Rightarrow> bool" where
  "wf_pt t \<longleftrightarrow> length (procs t) = NPROC \<and> length (queue_position t) = 4 \<and>
     (\<forall>q \<in> set (queue_position t). q < NPROC)"

text \<open>The choice of \<^verbatim>\<open>next_proc(level)\<close> and what it does to the resume positions.\<close>

definition level_pick :: "ptable \<Rightarrow> int \<Rightarrow> nat option" where
  "level_pick t lvl =
     (if 0 \<le> lvl \<and> lvl \<le> 2 then rr_loop (procs t) lvl (queue_position t ! nat lvl) 0
      else if lvl = 3 then l3_loop (procs t) (queue_position t ! 3) 0 None
      else if lvl = 99 then moq_loop (procs t) 0 None
      else None)"

definition advance :: "int \<Rightarrow> nat \<Rightarrow> ptable \<Rightarrow> ptable" where
  "advance lvl i t = (if lvl = 99 then t else t\<lparr>queue_position := (queue_position t)[nat lvl := (i + 1) mod NPROC]\<rparr>)"

abbreviation queues :: "int set" where
  "queues \<equiv> {0, 1, 2, 3, 99}"

lemma level_pick_Some:
  assumes "wf_pt t" and "level_pick t lvl = Some i"
  shows "i < NPROC" and "elig lvl (procs t ! i)"
  using assms rr.sound [of "procs t" lvl "queue_position t ! nat lvl" i]
    l3.sound [of "procs t" "queue_position t ! 3" i] moq.sound [of "procs t" i]
  by (auto simp: level_pick_def wf_pt_def split: if_splits)

lemma level_pick_None:
  assumes "wf_pt t" and "lvl \<in> queues"
  shows "level_pick t lvl = None \<longleftrightarrow> (\<forall>p \<in> set (procs t). \<not> elig lvl p)"
proof
  assume "level_pick t lvl = None"
  then show "\<forall>p \<in> set (procs t). \<not> elig lvl p"
    using assms rr.complete [of "procs t" lvl "queue_position t ! nat lvl"]
      l3.complete [of "procs t" "queue_position t ! 3"] moq.complete [of "procs t"]
    by (auto simp: level_pick_def wf_pt_def)
next
  assume *: "\<forall>p \<in> set (procs t). \<not> elig lvl p"
  show "level_pick t lvl = None"
  proof (rule ccontr)
    assume "level_pick t lvl \<noteq> None"
    then obtain i where "level_pick t lvl = Some i" by blast
    from level_pick_Some [OF assms(1) this] * assms(1) show False by (simp add: wf_pt_def)
  qed
qed

lemma next_proc_Some:
  "level_pick (pt k) lvl = Some i \<Longrightarrow> next_proc lvl k = Ok (Some i) (k\<lparr>pt := advance lvl i (pt k)\<rparr>)"
  by (auto simp: next_proc_def level_pick_def advance_def split: if_splits)

lemma next_proc_None:
  "level_pick (pt k) lvl = None \<Longrightarrow> lvl \<noteq> 3 \<Longrightarrow> next_proc lvl k = Ok None k"
  "level_pick (pt k) 3 = None \<Longrightarrow> next_proc 3 k = Fault (Undefined ''temp - ptable.proc with temp null'')"
  by (auto simp: next_proc_def level_pick_def split: if_splits)

lemma wf_advance: "wf_pt t \<Longrightarrow> i < NPROC \<Longrightarrow> wf_pt (advance lvl i t)"
  by (auto simp: wf_pt_def advance_def dest!: set_update_subset_insert [THEN subsetD])

lemma advance_simps [simp]:
  "procs (advance lvl i t) = procs t" "is_monopolized (advance lvl i t) = is_monopolized t"
  "moq_cnt (advance lvl i t) = moq_cnt t"
  by (simp_all add: advance_def)

interpretation scan: mach_frame "gets (\<lambda>k. find_idx (elig lvl) (procs (pt k)) \<noteq> None)" for lvl
  by unfold_locales simp

interpretation choice: mach_frame "next_proc lvl" for lvl
proof
  fix k m
  show "next_proc lvl (k\<lparr>mach := m\<rparr>) = on_state (\<lambda>k. k\<lparr>mach := m\<rparr>) (next_proc lvl k)"
  proof (cases "level_pick (pt k) lvl")
    case None
    then show ?thesis by (cases "lvl = 3") (simp_all add: next_proc_None)
  next
    case (Some i)
    then show ?thesis by (simp add: next_proc_Some)
  qed
qed

lemma can_mlfq_ok:
  assumes "ready (mach k)" and "lock_free L_ptable (mach k)"
  shows "can_mlfq lvl k = Ok (\<exists>p \<in> set (procs (pt k)). elig lvl p) (k\<lparr>mach := sync_m (mach k)\<rparr>)"
  unfolding can_mlfq_def using assms
  by (subst scan.run [where k = k and x = "\<exists>p \<in> set (procs (pt k)). elig lvl p" and k' = k])
    (auto simp: find_idx_None_iff simp del: not_None_eq)

text \<open>The scheduler runs with interrupts on, no lock held, and its CPU in the table.\<close>

definition idle :: "kernel \<Rightarrow> bool" where
  "idle k \<longleftrightarrow> here (mach k) \<noteq> None \<and> c_ncli (this_cpu (mach k)) = 0 \<and> lock_free L_ptable (mach k) \<and> wf_pt (pt k)"

abbreviation sti_m :: "machine \<Rightarrow> machine" where
  "sti_m m \<equiv> m\<lparr>eflags_IF := True\<rparr>"

lemma idle_sti:
  assumes "idle k"
  shows "ready (sti_m (mach k))" and "lock_free L_ptable (sti_m (mach k))" and "wf_pt (pt k)"
  using assms by (simp_all add: idle_def ready_def lock_free_def)

lemma scheduler_levels_ok:
  assumes "ready (mach k)" and "lock_free L_ptable (mach k)" and "wf_pt (pt k)"
    and "set ls \<subseteq> {0, 1, 2, 3}" and "mach k = sync_m (mach k) \<or> ls \<noteq> []"
  shows "scheduler_levels ls k =
     (case find (\<lambda>l. level_pick (pt k) l \<noteq> None) ls of
        None \<Rightarrow> Ok None (k\<lparr>mach := sync_m (mach k)\<rparr>)
      | Some l \<Rightarrow> Ok (Some (level_pick (pt k) l))
          (k\<lparr>pt := advance l (the (level_pick (pt k) l)) (pt k), mach := sync_m (mach k)\<rparr>))"
  using assms
proof (induction ls arbitrary: k)
  case Nil
  then show ?case by simp
next
  case (Cons l ls)
  note can = can_mlfq_ok [OF Cons.prems(1,2), of l]
  have l: "l \<in> queues" using Cons.prems(4) by auto
  show ?case
  proof (cases "level_pick (pt k) l")
    case None
    with l Cons.prems(3) have "\<not> (\<exists>p \<in> set (procs (pt k)). elig l p)" by (simp add: level_pick_None)
    moreover have "scheduler_levels ls (k\<lparr>mach := sync_m (mach k)\<rparr>) =
      (case find (\<lambda>l. level_pick (pt k) l \<noteq> None) ls of
        None \<Rightarrow> Ok None (k\<lparr>mach := sync_m (mach k)\<rparr>)
      | Some l \<Rightarrow> Ok (Some (level_pick (pt k) l))
          (k\<lparr>pt := advance l (the (level_pick (pt k) l)) (pt k), mach := sync_m (mach k)\<rparr>))"
      using Cons.IH [of "k\<lparr>mach := sync_m (mach k)\<rparr>"] Cons.prems by (simp split: option.splits)
    ultimately show ?thesis using None by (simp add: can)
  next
    case (Some i)
    with l Cons.prems(3) have "\<exists>p \<in> set (procs (pt k)). elig l p"
      using level_pick_None by fastforce
    moreover have "with_lock L_ptable (next_proc l) (k\<lparr>mach := sync_m (mach k)\<rparr>) =
        Ok (Some i) (k\<lparr>pt := advance l i (pt k), mach := sync_m (mach k)\<rparr>)"
      using Some Cons.prems(1,2)
      by (subst choice.run [where x = "Some i" and k' = "k\<lparr>pt := advance l i (pt k), mach := sync_m (mach k)\<rparr>"])
        (simp_all add: next_proc_Some)
    ultimately show ?thesis using Some by (simp add: can)
  qed
qed

lemma scheduler_choose_mlfq:
  assumes "idle k" and "is_monopolized (pt k) \<noteq> 1"
  shows "scheduler_choose k =
     (case find (\<lambda>l. level_pick (pt k) l \<noteq> None) [0, 1, 2, 3] of
        None \<Rightarrow> Ok None (k\<lparr>mach := sync_m (sti_m (mach k))\<rparr>)
      | Some l \<Rightarrow> Ok (Some (level_pick (pt k) l))
          (k\<lparr>pt := advance l (the (level_pick (pt k) l)) (pt k), mach := sync_m (sti_m (mach k))\<rparr>))"
  using assms scheduler_levels_ok [of "k\<lparr>mach := sti_m (mach k)\<rparr>" "[0, 1, 2, 3]"] idle_sti [OF assms(1)]
  by (simp add: scheduler_choose_def sti_def del: find.simps split: option.splits)

lemma scheduler_choose_moq:
  assumes "idle k" and "is_monopolized (pt k) = 1"
  shows "scheduler_choose k =
     (case level_pick (pt k) 99 of
        None \<Rightarrow> Ok None (k\<lparr>mach := sync_m (sti_m (mach k)),
          pt := (if moq_cnt (pt k) = 0 then pt k\<lparr>is_monopolized := 0\<rparr> else pt k)\<rparr>)
      | Some i \<Rightarrow> Ok (Some (Some i)) (k\<lparr>mach := sync_m (sti_m (mach k))\<rparr>))"
proof (cases "level_pick (pt k) 99")
  case None
  then have "next_proc 99 (k\<lparr>mach := sti_m (mach k)\<rparr>) = Ok None (k\<lparr>mach := sti_m (mach k)\<rparr>)"
    by (simp add: next_proc_None)
  from choice.run [OF _ _ this] None assms idle_sti [OF assms(1)] show ?thesis
    by (simp add: scheduler_choose_def sti_def unmonopolize_def)
next
  case (Some i)
  then have "next_proc 99 (k\<lparr>mach := sti_m (mach k)\<rparr>) = Ok (Some i) (k\<lparr>mach := sti_m (mach k)\<rparr>)"
    by (simp add: next_proc_Some advance_def)
  from choice.run [OF _ _ this] Some assms idle_sti [OF assms(1)] show ?thesis
    by (simp add: scheduler_choose_def sti_def)
qed

lemma find_queue_least:
  assumes "find (\<lambda>l. P l) [0, 1, 2, 3::int] = Some l"
  shows "0 \<le> l" and "l \<le> 3" and "P l" and "0 \<le> l' \<Longrightarrow> l' \<le> 3 \<Longrightarrow> P l' \<Longrightarrow> l \<le> l'"
proof -
  show "0 \<le> l" "l \<le> 3" "P l" using assms by (auto split: if_splits)
  assume "0 \<le> l'" "l' \<le> 3" "P l'"
  then have "l' \<in> {0, 1, 2, 3}" by auto
  with assms \<open>P l'\<close> show "l \<le> l'" by (auto split: if_splits)
qed

lemma find_queue_none:
  "find P [0, 1, 2, 3::int] = None \<Longrightarrow> 0 \<le> l \<Longrightarrow> l \<le> 3 \<Longrightarrow> \<not> P l"
proof -
  assume "find P [0, 1, 2, 3::int] = None" "0 \<le> l" "l \<le> 3"
  moreover from this(2,3) have "l \<in> {0, 1, 2, 3}" by auto
  ultimately show ?thesis by (auto split: if_splits)
qed

section \<open>Properties of the choice\<close>

text \<open>A scheduler with one runnable process, in slot 3, at the given level.\<close>

definition one_runnable :: "int \<Rightarrow> int \<Rightarrow> kernel" where
  "one_runnable mode lvl = kernel0\<lparr>pt := ptable0\<lparr>procs := (replicate NPROC proc0)
     [3 := proc0\<lparr>p_state := RUNNABLE, p_level := lvl\<rparr>], is_monopolized := mode\<rparr>\<rparr>"

lemma one_runnable_simps:
  "idle (one_runnable mode lvl)" "wf_pt (pt (one_runnable mode lvl))"
  "is_monopolized (pt (one_runnable mode lvl)) = mode"
  "elig l (proc_at (one_runnable mode lvl) 3) \<longleftrightarrow> l = lvl"
  "p_level (proc_at (one_runnable mode lvl) 3) = lvl"
  "p_state (proc_at (one_runnable mode lvl) 3) = RUNNABLE"
  "proc_at (one_runnable mode lvl) 3 \<in> set (procs (pt (one_runnable mode lvl)))"
  by (auto simp: one_runnable_def idle_def wf_pt_def cold_defs here_def lock_free_def elig_def set_update_memI)

lemma one_runnable_only:
  "i < NPROC \<Longrightarrow> p_state (proc_at (one_runnable mode lvl) i) = RUNNABLE \<Longrightarrow> i = 3"
  by (cases "i = 3") (simp_all add: one_runnable_def cold_defs)









section \<open>Fairness\<close>

text \<open>
  \<open>j\<close> is \<open>d\<close> steps ahead of the resume position; a choice of another process brings
  the position closer, never past \<open>j\<close>.
\<close>

lemma round_robin_closer:
  assumes "wf_pt (pt k)" and "lvl \<in> {0, 1, 2}" and "elig lvl (proc_at k j)"
    and j: "j = (queue_position (pt k) ! nat lvl + d) mod NPROC" "d < NPROC"
    and next_proc: "next_proc lvl k = Ok (Some i) k'" and "i \<noteq> j"
  shows "\<exists>d' < d. j = (queue_position (pt k') ! nat lvl + d') mod NPROC"
proof -
  let ?pos = "queue_position (pt k) ! nat lvl" and ?n = NPROC
  have l: "0 \<le> lvl \<and> lvl \<le> 2" "lvl \<noteq> 99" "lvl \<in> queues" "lvl \<noteq> 3" using assms(2) by auto
  have pick: "level_pick (pt k) lvl = Some i"
    using next_proc l next_proc_None(1) [of k lvl] next_proc_Some [of k lvl]
    by (cases "level_pick (pt k) lvl") auto
  then have k': "k' = k\<lparr>pt := advance lvl i (pt k)\<rparr>" using next_proc next_proc_Some by fastforce
  from pick l have "rr_loop (procs (pt k)) lvl ?pos 0 = Some i" by (simp add: level_pick_def)
  from rr_loop_Some(2) [OF this] obtain ys zs where
    o: "cyclic ?n ?pos = ys @ i # zs" "\<forall>y \<in> set ys. \<not> elig lvl (proc_at k y)" by blast
  let ?a = "length ys"
  have "length (cyclic ?n ?pos) = length ys + Suc (length zs)" unfolding o(1) by simp
  then have a: "?a < ?n" by (simp add: length_cyclic)
  have i: "i = (?pos + ?a) mod ?n" using nth_cyclic [OF a, of ?pos] unfolding o(1) by simp
  have "\<not> d < ?a"
  proof
    assume "d < ?a"
    then have "ys ! d \<in> set ys" and "ys ! d = cyclic ?n ?pos ! d" unfolding o(1) by (simp_all add: nth_append)
    with nth_cyclic [OF j(2), of ?pos] o(2) assms(3) j(1) show False by auto
  qed
  moreover have "d \<noteq> ?a" using i j(1) \<open>i \<noteq> j\<close> by auto
  ultimately have d: "?a < d" by simp
  have "nat lvl < length (queue_position (pt k))" using assms(1,2) by (auto simp: wf_pt_def)
  then have "queue_position (pt k') ! nat lvl = (i + 1) mod ?n"
    using k' l(2) by (simp add: advance_def)
  then have "(queue_position (pt k') ! nat lvl + (d - ?a - 1)) mod ?n = (?pos + ?a + 1 + (d - ?a - 1)) mod ?n"
    unfolding i by (simp only: mod_add_left_eq)
  also have "?pos + ?a + 1 + (d - ?a - 1) = ?pos + d" using d by simp
  finally show ?thesis using d j(1) by (intro exI [of _ "d - ?a - 1"]) simp
qed

text \<open>C10: Round robin is fair: a process that stays runnable on a level from 0 to 2 is chosen within
  64 (\<^verbatim>\<open>NPROC\<close>) successive calls of \<^verbatim>\<open>next_proc()\<close> for that level, whatever the
  other processes do between the calls, as long as nothing else moves that level's resume
  position.\<close>

theorem round_robin_fair:
  assumes "lvl \<in> {0, 1, 2}" and "j < NPROC"
    and wf: "\<And>n. wf_pt (pt (s n))" and el: "\<And>n. elig lvl (proc_at (s n) j)"
    and step: "\<And>n. \<exists>i k'. next_proc lvl (s n) = Ok (Some i) k' \<and>
      queue_position (pt (s (Suc n))) ! nat lvl = queue_position (pt k') ! nat lvl"
  shows "\<exists>n < NPROC. \<exists>k'. next_proc lvl (s n) = Ok (Some j) k'"
proof -
  let ?pos = "\<lambda>n. queue_position (pt (s n)) ! nat lvl"
  let ?done = "\<lambda>n. \<exists>m < n. \<exists>k'. next_proc lvl (s m) = Ok (Some j) k'"
  have "?done n \<or> (\<exists>d. d + n < NPROC \<and> j = (?pos n + d) mod NPROC)" for n
  proof (induction n)
    case 0
    have "j \<in> set (cyclic NPROC (?pos 0))" using assms(2) by (simp only: set_cyclic lessThan_iff)
    then obtain d where "d < NPROC" "j = (?pos 0 + d) mod NPROC" by (auto simp: cyclic_def)
    then show ?case by (intro disjI2 exI [of _ d]) simp
  next
    case (Suc n)
    show ?case
    proof (cases "?done n")
      case True
      then show ?thesis using less_SucI by blast
    next
      case False
      with Suc obtain d where d: "d + n < NPROC" "j = (?pos n + d) mod NPROC" by blast
      then have "d < NPROC" by simp
      from step [of n] obtain i k' where i: "next_proc lvl (s n) = Ok (Some i) k'"
        "?pos (Suc n) = queue_position (pt k') ! nat lvl" by blast
      show ?thesis
      proof (cases "i = j")
        case True
        with i(1) show ?thesis by blast
      next
        case False
        from round_robin_closer [OF wf assms(1) el d(2) \<open>d < NPROC\<close> i(1) False] obtain d'
          where "d' < d" "j = (?pos (Suc n) + d') mod NPROC" by (auto simp: i(2))
        then show ?thesis using d(1) by (intro disjI2 exI [of _ d']) simp
      qed
    qed
  qed
  from this [of NPROC] show ?thesis by auto
qed

lemma one_runnable_pick:
  assumes "wf_pt t" and "procs t = procs (pt (one_runnable mode lvl))" and "lvl \<in> queues"
  shows "level_pick t lvl = Some 3"
proof -
  have "\<exists>p \<in> set (procs t). elig lvl p" unfolding assms(2) using one_runnable_simps(4,7) by blast
  with level_pick_None [OF assms(1,3)] obtain i where i: "level_pick t lvl = Some i" by auto
  from level_pick_Some [OF assms(1) i] have "i < NPROC" "p_state (procs t ! i) = RUNNABLE"
    by (simp_all add: elig_def)
  with one_runnable_only assms(2) i show ?thesis by simp
qed

definition fair_example :: "nat \<Rightarrow> kernel" where
  "fair_example n = (one_runnable 0 1)\<lparr>pt := pt (one_runnable 0 1)
     \<lparr>queue_position := [0, if n = 0 then 0 else 4, 0, 0]\<rparr>\<rparr>"

theorem round_robin_fair_witness:
  "\<exists>n < NPROC. \<exists>k'. next_proc 1 (fair_example n) = Ok (Some 3) k'"
proof (rule round_robin_fair)
  fix n
  show wf: "wf_pt (pt (fair_example n))"
    using one_runnable_simps(2) [of 0 1] by (simp add: fair_example_def wf_pt_def)
  show "elig 1 (proc_at (fair_example n) 3)"
    using one_runnable_simps(4) [where mode = 0 and lvl = 1] by (simp add: fair_example_def)
  have "level_pick (pt (fair_example n)) 1 = Some 3"
    by (rule one_runnable_pick [OF wf, of 0]) (simp_all add: fair_example_def)
  from next_proc_Some [OF this]
  show "\<exists>i k'. next_proc 1 (fair_example n) = Ok (Some i) k' \<and>
      queue_position (pt (fair_example (Suc n))) ! nat 1 = queue_position (pt k') ! nat 1"
    by (simp add: advance_def fair_example_def)
qed simp_all

section \<open>Boosting and admission\<close>

lemma boost_proc_cases:
  "boost_proc p = (if 0 \<le> p_level p \<and> p_level p \<le> 3 then p\<lparr>p_level := 0, p_quantum := 2\<rparr> else p)"
  by (auto simp: boost_proc_def intro!: proc.equality)

lemma priority_boosting_ok:
  assumes "ready (mach k)" and "lock_free L_ptable (mach k)" and "wf_pt (pt k)"
  shows "priority_boosting k = Ok 1 (k\<lparr>mach := sync_m (mach k),
      pt := pt k\<lparr>procs := map boost_proc (procs (pt k)), queue_position := [0, 0, 0, 0]\<rparr>\<rparr>)"
proof -
  have "xs[0 := 0, Suc 0 := 0, 2 := 0, 3 := (0::nat)] = [0, 0, 0, 0]" if "length xs = 4" for xs
    using that by (auto simp: numeral_eq_Suc length_Suc_conv)
  from this [of "queue_position (pt k)"] show ?thesis
    using assms by (simp add: priority_boosting_def lock_simps wf_pt_def)
qed

lemma wf_boosted: "wf_pt t \<Longrightarrow> wf_pt (t\<lparr>procs := map boost_proc (procs t), queue_position := [0, 0, 0, 0]\<rparr>)"
  by (simp add: wf_pt_def)

text \<open>C14: \<^verbatim>\<open>priority_boosting()\<close> moves every process of levels 0 to 3 to level 0 with a fresh
  quantum of 2, leaves the members of the monopoly queue (and every other field) alone, restarts
  the four searches at slot 0 and gives \<^verbatim>\<open>ptable.lock\<close> back.\<close>

theorem priority_boosting_effect:
  assumes "ready (mach k)" and "lock_free L_ptable (mach k)" and "wf_pt (pt k)"
  shows "\<exists>k'. priority_boosting k = Ok 1 k' \<and> locks (mach k') = locks (mach k) \<and> wf_pt (pt k') \<and>
     queue_position (pt k') = [0, 0, 0, 0] \<and>
     (\<forall>i < NPROC. proc_at k' i =
        (if 0 \<le> p_level (proc_at k i) \<and> p_level (proc_at k i) \<le> 3
         then (proc_at k i)\<lparr>p_level := 0, p_quantum := 2\<rparr> else proc_at k i))"
  using priority_boosting_ok [OF assms] wf_boosted [OF assms(3)] assms(3)
  by (simp add: boost_proc_cases wf_pt_def)

theorem priority_boosting_effect_witness:
  "\<exists>k'. priority_boosting (one_runnable 0 2) = Ok 1 k' \<and> p_level (proc_at k' 3) = 0 \<and> p_quantum (proc_at k' 3) = 2"
proof -
  note k = one_runnable_simps [where mode = 0 and lvl = 2]
  have "ready (mach (one_runnable 0 2))" "lock_free L_ptable (mach (one_runnable 0 2))"
    using k(1) by (simp_all add: idle_def ready_def)
  from priority_boosting_effect [OF this k(2)] k(5) show ?thesis by fastforce
qed

text \<open>The order of the monopoly queue: distinct tickets, all drawn from the counter.\<close>

definition moq_inv :: "ptable \<Rightarrow> bool" where
  "moq_inv t \<longleftrightarrow> (\<forall>i < NPROC. p_level (procs t ! i) = 99 \<longrightarrow> p_priority (procs t ! i) < moq_priority t) \<and>
     (\<forall>i < NPROC. \<forall>j < NPROC. i \<noteq> j \<and> p_level (procs t ! i) = 99 \<and> p_level (procs t ! j) = 99 \<longrightarrow>
        p_priority (procs t ! i) \<noteq> p_priority (procs t ! j))"

definition admit :: "nat \<Rightarrow> ptable \<Rightarrow> ptable" where
  "admit i t = t\<lparr>procs := upd_at i (\<lambda>p. p\<lparr>p_priority := moq_priority t, p_level := 99, p_state := RUNNABLE\<rparr>) (procs t),
     moq_priority := moq_priority t + 1, moq_cnt := moq_cnt t + 1\<rparr>"

lemma setmonopoly_ok:
  assumes "ready (mach k)" and "lock_free L_ptable (mach k)" and "wf_pt (pt k)"
    and "find_idx (\<lambda>p. p_pid p = pid) (procs (pt k)) = Some i"
  shows "setmonopoly pid 2020087801 k =
     Ok (moq_cnt (pt k) + 1) (k\<lparr>mach := sync_m (mach k), pt := admit i (pt k)\<rparr>)"
proof -
  have "i < length (procs (pt k))" using assms(4) by (auto simp: find_idx_Some_iff)
  moreover have "(p :: proc)\<lparr>p_priority := v, p_level := l, p_state := s\<rparr> = p\<lparr>p_state := s, p_level := l, p_priority := v\<rparr>" for p v l s
    by (rule proc.equality) simp_all
  ultimately show ?thesis using assms
    by (simp add: setmonopoly_def find_with_pid_ok admit_def)
qed

lemma admit_inv:
  assumes "wf_pt t" and "moq_inv t" and "i < NPROC"
  shows "moq_inv (admit i t)"
proof -
  have n: "procs (admit i t) ! j = (if j = i then (procs t ! i)\<lparr>p_priority := moq_priority t, p_level := 99, p_state := RUNNABLE\<rparr>
      else procs t ! j)" if "j < NPROC" for j
    using assms(1,3) that by (simp add: admit_def wf_pt_def)
  have b: "p_priority (procs t ! j) < moq_priority t" if "j < NPROC" "p_level (procs t ! j) = 99" for j
    using assms(2) that by (simp add: moq_inv_def)
  have d: "p_priority (procs t ! j) \<noteq> p_priority (procs t ! l)"
    if "j < NPROC" "l < NPROC" "j \<noteq> l" "p_level (procs t ! j) = 99" "p_level (procs t ! l) = 99" for j l
    using assms(2) that by (simp add: moq_inv_def)
  have m: "moq_priority (admit i t) = moq_priority t + 1" by (simp add: admit_def)
  show ?thesis
    unfolding moq_inv_def m
  proof (intro conjI allI impI)
    fix j assume "j < NPROC" "p_level (procs (admit i t) ! j) = 99"
    then show "p_priority (procs (admit i t) ! j) < moq_priority t + 1"
      using b [of j] by (cases "j = i") (simp_all add: n)
  next
    fix j l
    assume *: "j < NPROC" "l < NPROC"
      "j \<noteq> l \<and> p_level (procs (admit i t) ! j) = 99 \<and> p_level (procs (admit i t) ! l) = 99"
    then show "p_priority (procs (admit i t) ! j) \<noteq> p_priority (procs (admit i t) ! l)"
      using b [of j] b [of l] d [of j l] by (cases "j = i"; cases "l = i") (simp_all add: n)
  qed
qed



text \<open>C18: A free slot of the process table has pid 0, and \<^verbatim>\<open>setmonopoly(0, password)\<close> accepts it:
  in monopoly mode with no other member runnable the scheduler then chooses the free slot and the
  kernel panics in \<^verbatim>\<open>switchuvm()\<close>, because the slot has no kernel stack.\<close>

theorem setmonopoly_free_slot_panics:
  assumes "idle k" and "is_monopolized (pt k) = 1" and "\<forall>p \<in> set (procs (pt k)). \<not> elig 99 p"
    and "find_idx (\<lambda>p. p_pid p = 0) (procs (pt k)) = Some i" and "p_kstack (proc_at k i) = 0"
    and "c = the (here (mach k))"
  shows "\<exists>n k1 k2. setmonopoly 0 2020087801 k = Ok n k1 \<and> scheduler_choose k1 = Ok (Some (Some i)) k2 \<and>
     scheduler_dispatch c (Some i) k2 = Fault (Panic ''switchuvm: no kstack'')"
proof -
  have r: "ready (mach k)" "lock_free L_ptable (mach k)" "wf_pt (pt k)"
    using assms(1) by (simp_all add: idle_def ready_def)
  define k1 where "k1 = k\<lparr>mach := sync_m (mach k), pt := admit i (pt k)\<rparr>"
  have i: "i < NPROC" "i < length (procs (pt k))" using assms(4) r(3) by (auto simp: find_idx_Some_iff wf_pt_def)
  have 1: "setmonopoly 0 2020087801 k = Ok (moq_cnt (pt k) + 1) k1"
    unfolding k1_def by (rule setmonopoly_ok [OF r assms(4)])
  have wf1: "wf_pt (pt k1)" using r(3) by (simp add: k1_def admit_def wf_pt_def)
  have nth1: "proc_at k1 j = (if j = i then (proc_at k i)\<lparr>p_priority := moq_priority (pt k), p_level := 99, p_state := RUNNABLE\<rparr>
      else proc_at k j)" if "j < NPROC" for j
    using i by (simp add: k1_def admit_def)
  have "elig 99 (proc_at k1 i)" using i by (simp add: nth1 elig_def)
  moreover have "proc_at k1 i \<in> set (procs (pt k1))" using i wf1 by (intro nth_mem) (simp add: wf_pt_def)
  ultimately have "\<not> (\<forall>p \<in> set (procs (pt k1)). \<not> elig 99 p)" by blast
  with level_pick_None [OF wf1, of 99] obtain j where j: "level_pick (pt k1) 99 = Some j" by auto
  from level_pick_Some [OF wf1 j] assms(3) r(3) have "j = i"
    by (cases "j = i") (auto simp: nth1 wf_pt_def)
  define k2 where "k2 = k1\<lparr>mach := sync_m (sti_m (mach k1))\<rparr>"
  have idle1: "idle k1" using assms(1) wf1 by (simp add: idle_def k1_def)
  have 2: "scheduler_choose k1 = Ok (Some (Some i)) k2"
    using scheduler_choose_moq [OF idle1] j \<open>j = i\<close> assms(2) by (simp add: k2_def k1_def admit_def)
  have "ready (mach k2)" "lock_free L_ptable (mach k2)"
    using idle_sti [OF idle1] by (simp_all add: k2_def)
  moreover have "p_kstack (proc_at k2 i) = 0" using assms(5) i by (simp add: k2_def nth1)
  ultimately have "scheduler_dispatch c (Some i) k2 = Fault (Panic ''switchuvm: no kstack'')"
    by (simp add: scheduler_dispatch_def acquire_ok switchuvm_def set_cpu_def)
  with 1 2 show ?thesis by blast
qed

theorem setmonopoly_free_slot_panics_witness:
  "\<exists>n k1 k2. setmonopoly 0 2020087801 (one_runnable 1 2) = Ok n k1 \<and>
     scheduler_choose k1 = Ok (Some (Some 0)) k2 \<and>
     scheduler_dispatch 0 (Some 0) k2 = Fault (Panic ''switchuvm: no kstack'')"
proof (rule setmonopoly_free_slot_panics)
  note k = one_runnable_simps [where mode = 1 and lvl = 2]
  show "idle (one_runnable 1 2)" "is_monopolized (pt (one_runnable 1 2)) = 1" by (rule k)+
  have "\<not> elig 99 (proc_at (one_runnable 1 2) j)" if "j < NPROC" for j
    using one_runnable_only [OF that, of 1 2] k(5) by (auto simp: elig_def)
  then show "\<forall>p \<in> set (procs (pt (one_runnable 1 2))). \<not> elig 99 p"
    using k(2) by (auto simp: in_set_conv_nth wf_pt_def)
  show "find_idx (\<lambda>p. p_pid p = 0) (procs (pt (one_runnable 1 2))) = Some 0"
    by (simp add: find_idx_Some_iff) (simp add: one_runnable_def cold_defs)
  show "p_kstack (proc_at (one_runnable 1 2) 0) = 0" by (simp add: one_runnable_def cold_defs)
  show "0 = the (here (mach (one_runnable 1 2)))" by (simp add: one_runnable_def cold_defs here_def)
qed

section \<open>Two CPUs\<close>

lemma choose_level0:
  assumes "idle k" and "is_monopolized (pt k) \<noteq> 1" and "level_pick (pt k) 0 = Some i"
  shows "scheduler_choose k = Ok (Some (Some i)) (k\<lparr>pt := advance 0 i (pt k), mach := sync_m (sti_m (mach k))\<rparr>)"
  using scheduler_choose_mlfq [OF assms(1,2)] assms(3) by simp

text \<open>A machine with two CPUs and one process, in slot 3, whose kernel stack waits in yield.\<close>

definition smp :: "bool \<Rightarrow> uchar \<Rightarrow> cpu \<Rightarrow> cpu \<Rightarrow> nat option \<Rightarrow> machine" where
  "smp fl a x y held = \<lparr>lapicid = a, eflags_IF = fl, cpus = [x, y\<lparr>c_apicid := 1\<rparr>], ncpu = 2,
     locks = (case held of None \<Rightarrow> \<lambda>_. spinlock0
       | Some c \<Rightarrow> (\<lambda>_. spinlock0)(L_ptable := spinlock0\<lparr>lk_locked := True, lk_cpu := Some c\<rparr>))\<rparr>"

definition smp_pt :: "procstate \<Rightarrow> nat \<Rightarrow> ptable" where
  "smp_pt st q = ptable0\<lparr>procs := (replicate NPROC proc0)[3 := proc0\<lparr>p_state := st, p_kstack := 4096,
     p_pgdir := 8192, p_context := Ctx_sched True R_yield\<rparr>], queue_position := [q, 0, 0, 0]\<rparr>"

definition smp_kernel :: "machine \<Rightarrow> procstate \<Rightarrow> nat \<Rightarrow> kernel" where
  "smp_kernel m st q = kernel0\<lparr>mach := m, pt := smp_pt st q\<rparr>"

abbreviation idle_cpu :: cpu where
  "idle_cpu \<equiv> cpu0\<lparr>c_intena := True\<rparr>"

abbreviation busy_cpu :: "int \<Rightarrow> cpu" where
  "busy_cpu n \<equiv> cpu0\<lparr>c_intena := True, c_ncli := n, c_proc := Some 3, c_esp0 := 8192, c_cr3 := V2P 8192\<rparr>"

lemma smp_pick: "q < NPROC \<Longrightarrow> level_pick (smp_pt RUNNABLE q) 0 = Some 3"
proof -
  let ?t = "smp_pt RUNNABLE q"
  assume "q < NPROC"
  then have wf: "wf_pt ?t" by (simp add: wf_pt_def smp_pt_def)
  have "elig 0 (procs ?t ! 3)" by (simp add: elig_def smp_pt_def cold_defs)
  moreover have "procs ?t ! 3 \<in> set (procs ?t)" by (rule nth_mem) (simp add: smp_pt_def)
  ultimately have "level_pick ?t 0 \<noteq> None" using level_pick_None [OF wf, of 0] by blast
  then obtain i where i: "level_pick ?t 0 = Some i" by blast
  from level_pick_Some [OF wf i] have "i = 3" by (cases "i = 3") (simp_all add: smp_pt_def elig_def proc0_def)
  with i show ?thesis by simp
qed

lemma smp_choose0: "scheduler_choose (on_cpu 0 True (smp_kernel (smp fl a cpu0 cpu0 None) RUNNABLE 0)) =
  Ok (Some (Some 3)) (smp_kernel (smp True 0 idle_cpu cpu0 None) RUNNABLE 4)"
  using smp_pick [of 0]
  by (subst choose_level0 [where i = 3])
    (simp_all add: on_cpu_def smp_kernel_def smp_def idle_def here_def lock_free_def wf_pt_def sync_m_def
      advance_def smp_pt_def cpu0_def spinlock0_def, simp_all add: ptable0_def)

lemma smp_choose1: "scheduler_choose (on_cpu 1 True (smp_kernel (smp fl a idle_cpu cpu0 None) RUNNABLE 4)) =
  Ok (Some (Some 3)) (smp_kernel (smp True 1 idle_cpu idle_cpu None) RUNNABLE 4)"
  using smp_pick [of 4]
  by (subst choose_level0 [where i = 3])
    (simp_all add: on_cpu_def smp_kernel_def smp_def idle_def here_def lock_free_def wf_pt_def sync_m_def
      advance_def smp_pt_def cpu0_def spinlock0_def, simp_all add: ptable0_def)

lemmas smp_defs = on_cpu_def smp_kernel_def smp_def smp_pt_def cpu0_def spinlock0_def here_def

lemmas dispatch_defs = scheduler_dispatch_def set_cpu_def switchuvm_def pushcli_def popcli_def mycpu_def cli_def
  deref_def acq_m_def push_m_def ptable0_def proc0_def

lemma smp_ready:
  "ready (mach (on_cpu a fl (smp_kernel (smp fl' a' x y None) st q)))"
  "lock_free L_ptable (mach (on_cpu a fl (smp_kernel (smp fl' a' x y None) st q)))"
  if "a = 0 \<or> a = 1" "c_ncli x = 0" "c_ncli y = 0" "c_apicid x = 0"
  using that by (auto simp: ready_def lock_free_def smp_defs)

lemma smp_dispatch0: "scheduler_dispatch 0 (Some 3) (on_cpu 0 True (smp_kernel (smp fl a idle_cpu idle_cpu None) RUNNABLE 4)) =
  Swtch (smp_kernel (smp False 0 (busy_cpu 1) idle_cpu (Some 0)) RUNNING 4)"
  using acquire_ok [OF smp_ready, of 0 idle_cpu idle_cpu True fl a RUNNABLE 4]
  by (simp add: scheduler_dispatch_def cpu0_def) (simp add: smp_defs dispatch_defs)

lemma smp_dispatch1: "scheduler_dispatch 1 (Some 3) (on_cpu 1 True (smp_kernel (smp fl a (busy_cpu 0) idle_cpu None) RUNNING 4)) =
  Swtch (smp_kernel (smp False 1 (busy_cpu 0) (busy_cpu 1) (Some 1)) RUNNING 4)"
  using acquire_ok [OF smp_ready, of 1 "busy_cpu 0" idle_cpu True fl a RUNNING 4]
  by (simp add: scheduler_dispatch_def cpu0_def) (simp add: smp_defs dispatch_defs)

lemma smp_yield_resume: "yield_resume (smp_kernel (smp False 0 (busy_cpu 1) idle_cpu (Some 0)) RUNNING 4) =
   Ok () (smp_kernel (smp True 0 (busy_cpu 0) idle_cpu None) RUNNING 4)"
proof -
  let ?k = "smp_kernel (smp False 0 (busy_cpu 1) idle_cpu (Some 0)) RUNNING 4"
  have 1: "sched_resume ?k = Ok () ?k"
    by (simp add: sched_resume_def mycpu_def deref_def set_cpu_def smp_defs proc0_def ptable0_def)
  have "ready (mach ?k)" "holds L_ptable (mach ?k)" "nested (mach ?k)"
    by (simp_all add: ready_def holds_def nested_def smp_defs)
  from 1 release_ok [OF this] show ?thesis
    by (simp add: yield_resume_def rel_m_def pop_m_def)
      (rule kernel.equality; simp add: smp_defs fun_eq_iff)
qed

text \<open>C16: The scheduler gives up \<^verbatim>\<open>ptable.lock\<close> between choosing a process and marking it
  running.  On a machine with two CPUs both can therefore choose the same process and run it: here
  CPU 0 and CPU 1 choose slot 3 one after the other, CPU 0 dispatches it, the process leaves
  \<^verbatim>\<open>yield()\<close> and releases the lock, and CPU 1 dispatches it too.\<close>

theorem scheduler_double_dispatch:
  "\<exists>k1 k2 k3 k4 k5.
     scheduler_choose (on_cpu 0 True (smp_kernel (smp True 0 cpu0 cpu0 None) RUNNABLE 0)) = Ok (Some (Some 3)) k1 \<and>
     scheduler_choose (on_cpu 1 True k1) = Ok (Some (Some 3)) k2 \<and>
     scheduler_dispatch 0 (Some 3) (on_cpu 0 True k2) = Swtch k3 \<and>
     yield_resume k3 = Ok () k4 \<and>
     scheduler_dispatch 1 (Some 3) (on_cpu 1 True k4) = Swtch k5 \<and>
     c_proc (cpus (mach k5) ! 0) = Some 3 \<and> c_proc (cpus (mach k5) ! 1) = Some 3 \<and>
     p_state (proc_at k5 3) = RUNNING"
proof -
  let ?k5 = "smp_kernel (smp False 1 (busy_cpu 0) (busy_cpu 1) (Some 1)) RUNNING 4"
  have "c_proc (cpus (mach ?k5) ! 0) = Some 3 \<and> c_proc (cpus (mach ?k5) ! 1) = Some 3 \<and>
     p_state (proc_at ?k5 3) = RUNNING"
    by (simp add: smp_defs)
  then show ?thesis
    using smp_choose0 smp_choose1 smp_dispatch0 smp_yield_resume smp_dispatch1 by blast
qed

end
