(* ===== verification/Lifecycle.thy ===== *)
theory Lifecycle
  imports Ftable Vm Mlfq
begin

unbundle bit_operations_syntax

text \<open>
  The life of a process in \<^verbatim>\<open>proc.c\<close>: \<^verbatim>\<open>allocproc()\<close>, \<^verbatim>\<open>userinit()\<close>,
  \<^verbatim>\<open>growproc()\<close>, \<^verbatim>\<open>fork()\<close>, \<^verbatim>\<open>exit()\<close>, \<^verbatim>\<open>wait()\<close> and
  \<^verbatim>\<open>forkret()\<close>.  The trap frame that the code places on the kernel stack is a field of the
  process, and so is the saved context, of which the model keeps where the process resumes.
\<close>

section \<open>Creation\<close>

definition pinit :: "unit kop" where
  "pinit = initlock L_ptable ''ptable''"

definition allocproc_body :: "nat option kop" where
  "allocproc_body =
     bind (gets (\<lambda>k. procs (pt k))) (\<lambda>ps.
     case find_idx (\<lambda>p. p_state p = UNUSED) ps of
       None \<Rightarrow> ret None
     | Some i \<Rightarrow> seq (block
         [set_proc i (\<lambda>q. q\<lparr>p_state := EMBRYO\<rparr>),
          modify (\<lambda>k. k\<lparr>pt := pt k\<lparr>procs := upd_at i (\<lambda>q. q\<lparr>p_pid := nextpid (pt k)\<rparr>) (procs (pt k)),
             nextpid := nextpid (pt k) + 1\<rparr>\<rparr>),
          set_proc i (\<lambda>q. q\<lparr>p_level := 0\<rparr>),
          set_proc i (\<lambda>q. q\<lparr>p_quantum := 2\<rparr>),
          set_proc i (\<lambda>q. q\<lparr>p_priority := 0\<rparr>)])
         (ret (Some i)))"

definition allocproc :: "nat option kop" where
  "allocproc =
     bind (with_lock L_ptable allocproc_body) (\<lambda>r.
     case r of
       None \<Rightarrow> ret None
     | Some i \<Rightarrow>
        bind kalloc (\<lambda>kstack.
        seq (set_proc i (\<lambda>q. q\<lparr>p_kstack := kstack\<rparr>))
        (if kstack = 0 then seq (set_proc i (\<lambda>q. q\<lparr>p_state := UNUSED\<rparr>)) (ret None)
         else seq (set_proc i (\<lambda>q. q\<lparr>p_context := Ctx_forkret\<rparr>)) (ret (Some i)))))"

text \<open>\<^verbatim>\<open>safestrcpy()\<close> of \<^verbatim>\<open>string.c\<close> between two arrays given as lists.\<close>

definition safestrcpy_l :: "uchar list \<Rightarrow> uchar list \<Rightarrow> nat \<Rightarrow> uchar list" where
  "safestrcpy_l s t n = (let w = takeWhile (\<lambda>c. c \<noteq> 0) (take (n - 1) t) in w @ [0] @ drop (length w + 1) s)"

abbreviation FL_IF :: uint where "FL_IF \<equiv> 0x200"
abbreviation user_cs :: ushort where "user_cs \<equiv> 0x1B"
abbreviation user_ds :: ushort where "user_ds \<equiv> 0x23"

text \<open>The bytes of \<^verbatim>\<open>initcode.S\<close> are the argument \<open>initcode\<close>.\<close>

definition userinit :: "devsw \<Rightarrow> uint \<Rightarrow> uint \<Rightarrow> uchar list \<Rightarrow> unit kop" where
  "userinit dv kdata kend initcode =
     bind allocproc (\<lambda>p.
     seq (modify (\<lambda>k. k\<lparr>pt := pt k\<lparr>initproc := p\<rparr>\<rparr>))
     (deref p (\<lambda>i.
      bind (setupkvm kdata kend) (\<lambda>pgdir.
      seq (set_proc i (\<lambda>q. q\<lparr>p_pgdir := pgdir\<rparr>))
      (if pgdir = 0 then panic ''userinit: out of memory?''
       else block
         [inituvm pgdir initcode,
          set_proc i (\<lambda>q. q\<lparr>p_sz := PGSIZE\<rparr>),
          set_proc i (\<lambda>q. q\<lparr>p_tf := trapframe0\<lparr>tf_cs := user_cs, tf_ds := user_ds, tf_es := user_ds, tf_ss := user_ds,
            tf_eflags := FL_IF, tf_esp := PGSIZE, tf_eip := 0\<rparr>\<rparr>),
          set_proc i (\<lambda>q. q\<lparr>p_name := safestrcpy_l (p_name q) (map (\<lambda>c. of_nat (of_char c)) ''initcode'') 16\<rparr>),
          bind (namei dv [47]) (\<lambda>cwd. set_proc i (\<lambda>q. q\<lparr>p_cwd := cwd\<rparr>)),
          acquire L_ptable,
          set_proc i (\<lambda>q. q\<lparr>p_state := RUNNABLE\<rparr>),
          release L_ptable])))))"

definition growproc :: "uint \<Rightarrow> int \<Rightarrow> int kop" where
  "growproc kend n =
     bind myproc (\<lambda>p. deref p (\<lambda>i.
     bind (gets (\<lambda>k. proc_at k i)) (\<lambda>pr.
     let sz = p_sz pr in
     bind (if n > 0 then bind (allocuvm kend (p_pgdir pr) sz (sz + of_int n)) (\<lambda>r. ret (if r = 0 then None else Some r))
           else if n < 0 then bind (deallocuvm kend (p_pgdir pr) sz (sz + of_int n)) (\<lambda>r. ret (if r = 0 then None else Some r))
           else ret (Some sz)) (\<lambda>r.
     case r of
       None \<Rightarrow> ret (-1)
     | Some sz' \<Rightarrow> seq (block [set_proc i (\<lambda>q. q\<lparr>p_sz := sz'\<rparr>), switchuvm (Some i)]) (ret 0)))))"

section \<open>Fork\<close>

definition fork_file :: "nat \<Rightarrow> nat \<Rightarrow> nat \<Rightarrow> unit kop" where
  "fork_file cp np fd =
     bind (gets (\<lambda>k. p_ofile (proc_at k cp) ! fd)) (\<lambda>f.
     case f of
       None \<Rightarrow> ret ()
     | Some f \<Rightarrow> bind (filedup f) (\<lambda>f'. set_proc np (\<lambda>q. q\<lparr>p_ofile := (p_ofile q)[fd := Some f']\<rparr>)))"

definition fork :: "uint \<Rightarrow> uint \<Rightarrow> int kop" where
  "fork kdata kend =
     bind myproc (\<lambda>p. deref p (\<lambda>cp.
     bind allocproc (\<lambda>r.
     case r of
       None \<Rightarrow> ret (-1)
     | Some np \<Rightarrow>
        bind (gets (\<lambda>k. proc_at k cp)) (\<lambda>c.
        bind (copyuvm kdata kend (p_pgdir c) (p_sz c)) (\<lambda>pgdir.
        seq (set_proc np (\<lambda>q. q\<lparr>p_pgdir := pgdir\<rparr>))
        (if pgdir = 0 then
           seq (block
             [bind (gets (\<lambda>k. p_kstack (proc_at k np))) (kfree kend),
              set_proc np (\<lambda>q. q\<lparr>p_kstack := 0\<rparr>),
              set_proc np (\<lambda>q. q\<lparr>p_state := UNUSED\<rparr>)])
             (ret (-1))
         else
           seq (block
             [set_proc np (\<lambda>q. q\<lparr>p_sz := p_sz c\<rparr>),
              set_proc np (\<lambda>q. q\<lparr>p_parent := Some cp\<rparr>),
              set_proc np (\<lambda>q. q\<lparr>p_tf := (p_tf c)\<lparr>tf_eax := 0\<rparr>\<rparr>),
              for_each [0..<NOFILE] (fork_file cp np),
              deref (p_cwd c) (\<lambda>d. bind (idup d) (\<lambda>d'. set_proc np (\<lambda>q. q\<lparr>p_cwd := Some d'\<rparr>))),
              set_proc np (\<lambda>q. q\<lparr>p_name := safestrcpy_l (p_name q) (p_name c) 16\<rparr>)])
           (bind (gets (\<lambda>k. p_pid (proc_at k np))) (\<lambda>pid.
            seq (block
              [acquire L_ptable,
               set_proc np (\<lambda>q. q\<lparr>p_state := RUNNABLE\<rparr>),
               release L_ptable])
              (ret pid)))))))))"

section \<open>Exit and wait\<close>

definition exit_close :: "uint \<Rightarrow> nat \<Rightarrow> nat \<Rightarrow> unit kop" where
  "exit_close kend i fd =
     bind (gets (\<lambda>k. p_ofile (proc_at k i) ! fd)) (\<lambda>f.
     case f of
       None \<Rightarrow> ret ()
     | Some f \<Rightarrow> block [fileclose kend f, set_proc i (\<lambda>q. q\<lparr>p_ofile := (p_ofile q)[fd := None]\<rparr>)])"

definition exit_child :: "nat \<Rightarrow> nat \<Rightarrow> unit kop" where
  "exit_child i c =
     bind (gets (\<lambda>k. proc_at k c)) (\<lambda>p.
     do_if (p_parent p = Some i)
       (bind (gets (\<lambda>k. initproc (pt k))) (\<lambda>ini. block
         [set_proc c (\<lambda>q. q\<lparr>p_parent := ini\<rparr>),
          do_if (p_state p = ZOMBIE) (wakeup1 (map_option Ch_proc ini))])))"

text \<open>\<^verbatim>\<open>exit()\<close> from the moment it holds \<^verbatim>\<open>ptable.lock\<close>.\<close>

definition exit_last :: "nat \<Rightarrow> unit kop" where
  "exit_last i = block
     [bind (gets (\<lambda>k. p_parent (proc_at k i))) (\<lambda>par. wakeup1 (map_option Ch_proc par)),
      for_each [0..<NPROC] (exit_child i),
      set_proc i (\<lambda>q. q\<lparr>p_state := ZOMBIE\<rparr>),
      sched R_exit,
      panic ''zombie exit'']"

definition exit :: "uint \<Rightarrow> unit kop" where
  "exit kend =
     bind myproc (\<lambda>p.
     bind (gets (\<lambda>k. initproc (pt k))) (\<lambda>ini.
     if p = ini then panic ''init exiting''
     else deref p (\<lambda>i. block
       [bind (gets (\<lambda>k. p_level (proc_at k i))) (\<lambda>l.
          do_if (l = 99) (modify (\<lambda>k. k\<lparr>pt := pt k\<lparr>moq_cnt := moq_cnt (pt k) - 1\<rparr>\<rparr>))),
        for_each [0..<NOFILE] (exit_close kend i),
        begin_op,
        bind (gets (\<lambda>k. p_cwd (proc_at k i))) (\<lambda>cwd. deref cwd iput),
        end_op,
        set_proc i (\<lambda>q. q\<lparr>p_cwd := None\<rparr>),
        acquire L_ptable,
        exit_last i])))"

definition reap :: "uint \<Rightarrow> nat \<Rightarrow> int kop" where
  "reap kend c =
     bind (gets (\<lambda>k. proc_at k c)) (\<lambda>p. seq (block
       [kfree kend (p_kstack p),
        set_proc c (\<lambda>q. q\<lparr>p_kstack := 0\<rparr>),
        freevm kend (p_pgdir p),
        set_proc c (\<lambda>q. q\<lparr>p_pid := 0\<rparr>),
        set_proc c (\<lambda>q. q\<lparr>p_parent := None\<rparr>),
        set_proc c (\<lambda>q. q\<lparr>p_name := (p_name q)[0 := 0]\<rparr>),
        set_proc c (\<lambda>q. q\<lparr>p_killed := False\<rparr>),
        set_proc c (\<lambda>q. q\<lparr>p_state := UNUSED\<rparr>),
        release L_ptable])
       (ret (p_pid p)))"

text \<open>One round of the loop of \<^verbatim>\<open>wait()\<close>, with \<^verbatim>\<open>ptable.lock\<close> held.\<close>

definition wait_loop :: "uint \<Rightarrow> nat \<Rightarrow> int kop" where
  "wait_loop kend i =
     bind (gets (\<lambda>k. procs (pt k))) (\<lambda>ps.
     case find_idx (\<lambda>p. p_parent p = Some i \<and> p_state p = ZOMBIE) ps of
       Some c \<Rightarrow> reap kend c
     | None \<Rightarrow>
        if find_idx (\<lambda>p. p_parent p = Some i) ps = None \<or> p_killed (ps ! i) then seq (release L_ptable) (ret (-1))
        else seq (sleep (Ch_proc i) L_ptable) (ret 0))"

definition wait :: "uint \<Rightarrow> int kop" where
  "wait kend =
     bind myproc (\<lambda>p. deref p (\<lambda>i. seq (acquire L_ptable) (wait_loop kend i)))"

definition wait_resume :: "uint \<Rightarrow> int kop" where
  "wait_resume kend =
     seq (sleep_resume L_ptable) (bind myproc (\<lambda>p. deref p (wait_loop kend)))"

section \<open>The first scheduling of a process\<close>

definition forkret :: "unit kop" where
  "forkret = block
     [release L_ptable,
      bind (gets (\<lambda>k. forkret_first (pt k))) (\<lambda>b. do_if b (block
        [modify (\<lambda>k. k\<lparr>pt := pt k\<lparr>forkret_first := False\<rparr>\<rparr>),
         iinit ROOTDEV,
         initlog ROOTDEV]))]"

end
