(* ===== verification/Syscall.thy ===== *)
theory Syscall
  imports Lifecycle
begin

unbundle bit_operations_syntax

text \<open>
  The arguments of system calls, from \<^verbatim>\<open>syscall.c\<close>.  (The dispatch is in theory
  \<open>Trap\<close>, after the calls themselves.)

  The kernel reads and writes the memory of the current process through its page table; an access to
  an address that is not mapped traps in the kernel, where \<^verbatim>\<open>trap()\<close> panics.  A pointer argument
  that the code hands on as a buffer stays an address, and a string argument is passed on as the list
  of its characters, which the process cannot change while it is in the kernel.  The result \<^verbatim>\<open>-1\<close> of the argument routines is \<open>None\<close>.
\<close>

section \<open>User memory\<close>

text \<open>
  The page walk of the hardware: the kernel address of the byte at user address \<open>va\<close>.  The kernel
  runs with write protection on, so a store needs \<^verbatim>\<open>PTE_W\<close> at both levels.
\<close>

definition mmu :: "memory \<Rightarrow> uint \<Rightarrow> uint \<Rightarrow> uint \<Rightarrow> uint option" where
  "mmu m need pgdir va =
     (let pde = get32 m (pgdir + 4 * PDX va) in
      if pde AND need \<noteq> need then None
      else let pte = get32 m (P2V (PTE_ADDR pde) + 4 * PTX va) in
        if pte AND need \<noteq> need then None else Some (P2V (PTE_ADDR pte) + va mod PGSIZE))"

definition user_addr :: "uint \<Rightarrow> uint \<Rightarrow> uint kop" where
  "user_addr need va =
     bind (my p_pgdir) (\<lambda>pgdir.
     bind (gets (\<lambda>k. mmu (mem k) need pgdir va)) (\<lambda>a.
     case a of None \<Rightarrow> panic ''trap'' | Some ka \<Rightarrow> ret ka))"

definition load_user :: "uint \<Rightarrow> uchar kop" where
  "load_user va = bind (user_addr PTE_P va) (\<lambda>a. gets (\<lambda>k. mem k a))"

definition store_user :: "uint \<Rightarrow> uchar \<Rightarrow> unit kop" where
  "store_user va b = bind (user_addr (PTE_P OR PTE_W) va) (\<lambda>a. set_mem (\<lambda>m. m(a := b)))"

primrec load_bytes :: "nat \<Rightarrow> uint \<Rightarrow> uchar list kop" where
  "load_bytes 0 va = ret []"
| "load_bytes (Suc n) va = bind (load_user va) (\<lambda>b. bind (load_bytes n (va + 1)) (\<lambda>bs. ret (b # bs)))"

primrec store_bytes :: "uint \<Rightarrow> uchar list \<Rightarrow> unit kop" where
  "store_bytes va [] = ret ()"
| "store_bytes va (b # bs) = seq (store_user va b) (store_bytes (va + 1) bs)"

section \<open>Arguments\<close>

definition fetchint :: "uint \<Rightarrow> uint option kop" where
  "fetchint addr =
     bind (my p_sz) (\<lambda>sz.
     if addr \<ge> sz \<or> addr + 4 > sz then ret None
     else bind (load_bytes 4 addr) (\<lambda>bs. ret (Some (ld32 bs 0))))"

lemma unat_Suc_below:
  assumes "unat (s :: uint) < unat (ep :: uint)"
  shows "unat (s + 1) = unat s + 1"
proof -
  have "unat ep < 2 ^ LENGTH(32)" by (rule unsigned_less)
  with assms have "Suc (unat s) < 2 ^ LENGTH(32)" by linarith
  then show ?thesis by (simp add: unat_word_ariths)
qed

function fetchstr_loop :: "uint \<Rightarrow> uint \<Rightarrow> uchar list option kop" where
  "fetchstr_loop s ep =
     (if s < ep then
        bind (load_user s) (\<lambda>c.
        if c = 0 then ret (Some [])
        else bind (fetchstr_loop (s + 1) ep) (\<lambda>r. ret (map_option (Cons c) r)))
      else ret None)"
  by pat_completeness auto
termination
  by (relation "measure (\<lambda>(s, ep). unat ep - unat s)") (auto simp: word_less_nat_alt unat_Suc_below)

declare fetchstr_loop.simps [simp del]

definition fetchstr :: "uint \<Rightarrow> uchar list option kop" where
  "fetchstr addr =
     bind (my p_sz) (\<lambda>sz.
     if addr \<ge> sz then ret None else fetchstr_loop addr sz)"

definition argint :: "nat \<Rightarrow> uint option kop" where
  "argint n = bind (my (\<lambda>p. tf_esp (p_tf p))) (\<lambda>esp. fetchint (esp + 4 + 4 * of_nat n))"

definition argptr :: "nat \<Rightarrow> int \<Rightarrow> uint option kop" where
  "argptr n sz0 =
     bind (argint n) (\<lambda>r.
     case r of
       None \<Rightarrow> ret None
     | Some i \<Rightarrow>
        bind (my p_sz) (\<lambda>sz.
        if sz0 < 0 \<or> i \<ge> sz \<or> i + of_int sz0 > sz then ret None else ret (Some i)))"

definition argstr :: "nat \<Rightarrow> uchar list option kop" where
  "argstr n =
     bind (argint n) (\<lambda>r.
     case r of None \<Rightarrow> ret None | Some addr \<Rightarrow> fetchstr addr)"

text \<open>\<^verbatim>\<open>if(arg(...) < 0) return -1\<close>.\<close>

definition need :: "'a option kop \<Rightarrow> ('a \<Rightarrow> int kop) \<Rightarrow> int kop" where
  "need f g = bind f (\<lambda>r. case r of None \<Rightarrow> ret (-1) | Some x \<Rightarrow> g x)"

end
