(* ===== verification/Paging.thy ===== *)
theory Paging
  imports Syscall
begin

unbundle bit_operations_syntax

text \<open>
  What the page tables of \<^verbatim>\<open>vm.c\<close> mean.  A page directory and its tables live in the
  memory next to the free list; \<open>ptes m pg\<close> is the map from user addresses to page-table entries
  that the memory \<open>m\<close> holds for the directory \<open>pg\<close>.  \<^verbatim>\<open>walkpgdir()\<close> does not
  change it, \<^verbatim>\<open>mappages()\<close> updates it at the pages it is asked to map, and
  \<^verbatim>\<open>allocuvm()\<close> extends it by fresh zeroed pages.
\<close>

section \<open>Entries of a page\<close>

definition slot :: "uint \<Rightarrow> nat \<Rightarrow> uint" where
  "slot p i = p + 4 * of_nat i"

lemma unat_slot:
  assumes "page_ok kend p" and "i < 1024"
  shows "unat (slot p i) = unat p + 4 * i"
proof -
  have "slot p i = p + of_nat (4 * i)" by (simp add: slot_def)
  then show ?thesis using page_ok_bound(1) [OF assms(1)] assms(2) unat_plus_nat [of p "4 * i"] by simp
qed

lemma slot_bytes:
  assumes "page_ok kend p" and "i < 1024" and "a \<in> {slot p i, slot p i + 1, slot p i + 2, slot p i + 3}"
  shows "unat p + 4 * i \<le> unat a \<and> unat a < unat p + 4 * i + 4"
proof -
  have u: "unat (slot p i) = unat p + 4 * i" by (rule unat_slot [OF assms(1,2)])
  have "unat (slot p i + of_nat j) = unat p + 4 * i + j" if "j < 4" for j
    using page_ok_bound(1) [OF assms(1)] assms(2) unat_plus_nat [of "slot p i" j] u that by simp
  from this [of 0] this [of 1] this [of 2] this [of 3] assms(3) show ?thesis by auto
qed

lemma slot_in_page:
  assumes "page_ok kend p" and "i < 1024" and "a \<in> {slot p i, slot p i + 1, slot p i + 2, slot p i + 3}"
  shows "a \<in> page p"
  using slot_bytes [OF assms] assms(2) by (auto simp: page_def word_le_nat_alt)

lemma slot_get_other:
  assumes "page_ok kend p" and "i < 1024" and "\<And>a. a \<in> page p \<Longrightarrow> m' a = m a"
  shows "get32 m' (slot p i) = get32 m (slot p i)"
  using slot_in_page [OF assms(1,2)] assms(3) by (intro get32_cong) auto

lemma put_slot_outside:
  assumes "page_ok kend p" and "i < 1024" and "a \<notin> page p"
  shows "put32 m (slot p i) v a = m a"
  using slot_in_page [OF assms(1,2), of a] assms(3) by (intro put32_frame) auto

lemma get_put_slot:
  assumes p: "page_ok kend p" "i < 1024" and q: "page_ok kend q" "j < 1024"
  shows "get32 (put32 m (slot p i) v) (slot q j) = (if p = q \<and> i = j then v else get32 m (slot q j))"
proof (cases "p = q \<and> i = j")
  case False
  have "put32 m (slot p i) v a = m a" if a: "a \<in> {slot q j, slot q j + 1, slot q j + 2, slot q j + 3}" for a
  proof (cases "p = q")
    case True
    then have "i + 1 \<le> j \<or> j + 1 \<le> i" using False by auto
    then show ?thesis
      using slot_bytes [OF p, of a] slot_bytes [OF q a] True by (intro put32_frame) fastforce
  next
    case False
    then have "a \<notin> page p" using page_disjoint [OF p(1) q(1)] slot_in_page [OF q a] by blast
    then show ?thesis by (rule put_slot_outside [OF p])
  qed
  then show ?thesis using False by (auto intro: get32_cong)
qed simp

lemma memset_page:
  assumes "page_ok kend p"
  shows "memset m p c 4096 a = (if a \<in> page p then ucast c else m a)"
  using page_ok_bound(1) [OF assms] by (simp add: memset_stosb stosb_spec page_def)

lemma get_memset_slot:
  assumes "page_ok kend p" and q: "page_ok kend q" "j < 1024"
  shows "get32 (memset m p 0 4096) (slot q j) = (if p = q then 0 else get32 m (slot q j))"
proof (cases "p = q")
  case True
  then show ?thesis using slot_in_page [OF q] memset_page [OF assms(1)] by (simp add: get32_def)
next
  case False
  then have "memset m p 0 4096 a = m a" if "a \<in> page q" for a
    using page_disjoint [OF assms(1) q(1)] that memset_page [OF assms(1)] by auto
  from slot_get_other [OF q this] False show ?thesis by simp
qed

section \<open>Indices\<close>

lemma and_0x3FF: "x AND 0x3FF = take_bit 10 (x :: uint)"
  by (simp add: take_bit_eq_mask mask_eq_exp_minus_1)

lemma unat_index: "unat (drop_bit n va AND 0x3FF :: uint) = unat va div 2 ^ n mod 1024"
  unfolding and_0x3FF take_bit_eq_mod unat_mod unat_drop_bit_eq by (simp add: drop_bit_eq_div)

definition pdx :: "uint \<Rightarrow> nat" where
  "pdx va = unat va div 2 ^ 22"

definition ptx :: "uint \<Rightarrow> nat" where
  "ptx va = unat va div 4096 mod 1024"

definition vpn :: "uint \<Rightarrow> nat" where
  "vpn va = unat va div 4096"

lemma index_bounds [simp]: "pdx va < 1024" "ptx va < 1024"
proof -
  have "unat va < 2 ^ LENGTH(32)" by (rule unsigned_less)
  then show "pdx va < 1024" by (simp add: pdx_def less_mult_imp_div_less)
qed (simp add: ptx_def)

lemma PDX_slot: "p + 4 * PDX va = slot p (pdx va)"
proof -
  have "unat (PDX va) = pdx va" using index_bounds(1) [of va] by (simp add: PDX_def unat_index pdx_def)
  then have "PDX va = of_nat (pdx va)" by (metis of_nat_unat ucast_id)
  then show ?thesis by (simp add: slot_def)
qed

lemma PTX_slot: "p + 4 * PTX va = slot p (ptx va)"
proof -
  have "unat (PTX va) = ptx va" by (simp add: PTX_def unat_index ptx_def)
  then have "PTX va = of_nat (ptx va)" by (metis of_nat_unat ucast_id)
  then show ?thesis by (simp add: slot_def)
qed

lemma vpn_index: "vpn u = vpn v \<longleftrightarrow> pdx u = pdx v \<and> ptx u = ptx v"
proof -
  have "pdx x = vpn x div 1024" "ptx x = vpn x mod 1024" for x
    by (simp_all add: pdx_def ptx_def vpn_def flip: div_mult2_eq)
  then show ?thesis by (metis div_mult_mod_eq)
qed

section \<open>Directories\<close>

definition dir_on :: "memory \<Rightarrow> uint \<Rightarrow> nat \<Rightarrow> bool" where
  "dir_on m pg i \<longleftrightarrow> get32 m (slot pg i) AND PTE_P \<noteq> 0"

definition tab :: "memory \<Rightarrow> uint \<Rightarrow> nat \<Rightarrow> uint" where
  "tab m pg i = P2V (PTE_ADDR (get32 m (slot pg i)))"

text \<open>The entry for an address; 0, which is not present, where the directory has no table.\<close>

definition ptes :: "memory \<Rightarrow> uint \<Rightarrow> uint \<Rightarrow> uint" where
  "ptes m pg va = (if dir_on m pg (pdx va) then get32 m (slot (tab m pg (pdx va)) (ptx va)) else 0)"

definition tables :: "memory \<Rightarrow> uint \<Rightarrow> uint set" where
  "tables m pg = insert pg (tab m pg ` {i. i < 1024 \<and> dir_on m pg i})"

definition pgdir_ok :: "uint \<Rightarrow> uint list \<Rightarrow> memory \<Rightarrow> uint \<Rightarrow> bool" where
  "pgdir_ok kend ps m pg \<longleftrightarrow> page_ok kend pg \<and> pg \<notin> set ps \<and>
     (\<forall>i < 1024. dir_on m pg i \<longrightarrow> page_ok kend (tab m pg i) \<and> tab m pg i \<noteq> pg \<and> tab m pg i \<notin> set ps \<and>
        get32 m (slot pg i) AND 7 = 7) \<and>
     (\<forall>i < 1024. \<forall>j < 1024. dir_on m pg i \<longrightarrow> dir_on m pg j \<longrightarrow> tab m pg i = tab m pg j \<longrightarrow> i = j)"

lemma pgdir_okD:
  assumes "pgdir_ok kend ps m pg"
  shows "page_ok kend pg" "pg \<notin> set ps"
    "i < 1024 \<Longrightarrow> dir_on m pg i \<Longrightarrow> page_ok kend (tab m pg i) \<and> tab m pg i \<noteq> pg \<and> tab m pg i \<notin> set ps \<and> get32 m (slot pg i) AND 7 = 7"
    "i < 1024 \<Longrightarrow> j < 1024 \<Longrightarrow> dir_on m pg i \<Longrightarrow> dir_on m pg j \<Longrightarrow> tab m pg i = tab m pg j \<Longrightarrow> i = j"
  using assms unfolding pgdir_ok_def by blast+

lemma mask12: "(0xFFF :: uint) = mask 12"
  by (simp add: mask_eq_exp_minus_1)

lemma low_bits: "take_bit 12 (x :: uint) = 0 \<Longrightarrow> n < 12 \<Longrightarrow> \<not> bit x n"
  by (metis bit_take_bit_iff bit_0_eq bot_apply bot_bool_def)

lemma entry_addr:
  assumes "take_bit 12 x = 0" and "take_bit 12 f = f"
  shows "PTE_ADDR (x OR f) = x"
proof (rule bit_word_eqI)
  fix n
  have "bit f n \<Longrightarrow> n < 12" using assms(2) by (metis bit_take_bit_iff)
  then show "bit (PTE_ADDR (x OR f)) n = bit x n" if "n < LENGTH(32)"
    using low_bits [OF assms(1), of n] that unfolding PTE_ADDR_def mask12 by (auto simp: bit_simps)
qed

lemma entry_flags:
  assumes "take_bit 12 (x :: uint) = 0" and "take_bit 12 g = g"
  shows "(x OR f) AND g = f AND g"
proof (rule bit_word_eqI)
  fix n
  have "bit g n \<Longrightarrow> n < 12" using assms(2) by (metis bit_take_bit_iff)
  then show "bit ((x OR f) AND g) n = bit (f AND g) n"
    using low_bits [OF assms(1), of n] by (auto simp: bit_simps)
qed

lemma aligned_V2P:
  assumes "page_ok kend p"
  shows "take_bit 12 (V2P p) = 0"
proof -
  obtain c where "unat p = 4096 * c" using page_ok_bound(2) [OF assms] by (auto elim!: dvdE simp: mod_eq_0_iff_dvd)
  then have u: "unat p + 0x80000000 = 4096 * (c + 0x80000)" by simp
  have "unat (p + KERNBASE) = (unat p + 0x80000000) mod 2 ^ 32" by (simp add: unat_word_ariths)
  then have "unat (p + KERNBASE) mod 4096 = (unat p + 0x80000000) mod 4096" by (simp add: mod_mod_cancel)
  also have "\<dots> = 0" unfolding u by simp
  finally have "unat ((p + KERNBASE) mod PGSIZE) = 0" by (simp add: unat_mod)
  moreover have "p + KERNBASE = V2P p + (KERNBASE + KERNBASE)" unfolding V2P_def by (simp only: diff_add_cancel flip: add.assoc)
  moreover have "KERNBASE + KERNBASE = 0" by simp
  ultimately have "unat (V2P p mod PGSIZE) = 0" by (metis add.right_neutral)
  then show ?thesis by (simp add: take_bit_eq_mod unat_eq_zero)
qed

lemma dir_entry:
  assumes "page_ok kend p" and "e = V2P p OR PTE_P OR PTE_W OR PTE_U"
  shows "P2V (PTE_ADDR e) = p" "e AND 7 = 7" "e AND PTE_P \<noteq> 0"
proof -
  have e: "e = V2P p OR 7" using assms(2) by (simp add: or.assoc)
  have t: "take_bit 12 (7 :: uint) = 7" "take_bit 12 (1 :: uint) = 1" by simp_all
  show "P2V (PTE_ADDR e) = p" unfolding e entry_addr [OF aligned_V2P [OF assms(1)] t(1)] by (simp add: P2V_def V2P_def)
  show "e AND 7 = 7" "e AND PTE_P \<noteq> 0" unfolding e entry_flags [OF aligned_V2P [OF assms(1)] t(1)]
      entry_flags [OF aligned_V2P [OF assms(1)] t(2)] by simp_all
qed

section \<open>Changes to the tables\<close>

text \<open>A fresh table for a directory entry that had none.\<close>

definition new_table :: "memory \<Rightarrow> uint \<Rightarrow> nat \<Rightarrow> uint \<Rightarrow> memory" where
  "new_table m pg d p = put32 (memset m p 0 4096) (slot pg d) (V2P p OR PTE_P OR PTE_W OR PTE_U)"

definition can_add :: "uint \<Rightarrow> uint \<Rightarrow> uint \<Rightarrow> uint list \<Rightarrow> memory \<Rightarrow> nat \<Rightarrow> bool" where
  "can_add kend pg p qs m d \<longleftrightarrow> pgdir_ok kend (p # qs) m pg \<and> page_ok kend p \<and> p \<notin> set qs \<and> d < 1024 \<and> \<not> dir_on m pg d"

lemma can_addD:
  assumes "can_add kend pg p qs m d"
  shows "pgdir_ok kend (p # qs) m pg" "page_ok kend p" "p \<notin> set qs" "d < 1024" "\<not> dir_on m pg d" "page_ok kend pg" "pg \<noteq> p"
  using assms pgdir_okD(1,2) [of kend "p # qs" m pg] by (auto simp: can_add_def)

lemma new_table_dir:
  assumes "can_add kend pg p qs m d" and "i < 1024"
  shows "get32 (new_table m pg d p) (slot pg i) = (if i = d then V2P p OR PTE_P OR PTE_W OR PTE_U else get32 m (slot pg i))"
    "dir_on (new_table m pg d p) pg i = (i = d \<or> dir_on m pg i)"
    "tab (new_table m pg d p) pg i = (if i = d then p else tab m pg i)"
proof -
  note c = can_addD [OF assms(1)]
  show g: "get32 (new_table m pg d p) (slot pg i) = (if i = d then V2P p OR PTE_P OR PTE_W OR PTE_U else get32 m (slot pg i))"
    unfolding new_table_def using get_put_slot [OF c(6,4) c(6)] get_memset_slot [OF c(2,6)] c(7) assms(2) by auto
  show "dir_on (new_table m pg d p) pg i = (i = d \<or> dir_on m pg i)"
    "tab (new_table m pg d p) pg i = (if i = d then p else tab m pg i)"
    using dir_entry [OF c(2) refl] by (auto simp: dir_on_def tab_def g)
qed

lemma new_table_other:
  assumes "can_add kend pg p qs m d" and "page_ok kend q" "q \<noteq> pg" "j < 1024"
  shows "get32 (new_table m pg d p) (slot q j) = (if q = p then 0 else get32 m (slot q j))"
  unfolding new_table_def using get_put_slot [OF can_addD(6,4) [OF assms(1)] assms(2,4)]
    get_memset_slot [OF can_addD(2) [OF assms(1)] assms(2,4)] assms(3) by auto

lemma new_table_ptes:
  assumes "can_add kend pg p qs m d"
  shows "ptes (new_table m pg d p) pg = ptes m pg"
proof
  fix va
  note c = can_addD [OF assms] and n = new_table_dir [OF assms]
  have "ptes (new_table m pg d p) pg va = 0" if "pdx va = d"
    using that c(4) new_table_other [OF assms c(2) c(7) [symmetric]] by (simp add: ptes_def n)
  moreover have "ptes (new_table m pg d p) pg va = ptes m pg va" if "pdx va \<noteq> d"
    using that pgdir_okD(3) [OF c(1), of "pdx va"] new_table_other [OF assms, of "tab m pg (pdx va)" "ptx va"]
    by (auto simp: ptes_def n)
  ultimately show "ptes (new_table m pg d p) pg va = ptes m pg va" using c(5) by (cases "pdx va = d") (simp_all add: ptes_def)
qed

lemma new_table_ok:
  assumes "can_add kend pg p qs m d"
  shows "pgdir_ok kend qs (new_table m pg d p) pg" "tables (new_table m pg d p) pg = insert p (tables m pg)"
proof -
  note c = can_addD [OF assms] and n = new_table_dir [OF assms]
  show "pgdir_ok kend qs (new_table m pg d p) pg"
    unfolding pgdir_ok_def using pgdir_okD [OF c(1)] c dir_entry(2) [OF c(2) refl] by (auto simp: n split: if_splits)
  show "tables (new_table m pg d p) pg = insert p (tables m pg)"
    using c(4,5) by (auto simp: tables_def n image_def split: if_splits)
qed

lemma new_table_frame:
  assumes "can_add kend pg p qs m d" and "a \<notin> page pg" and "a \<notin> page p"
  shows "new_table m pg d p a = m a"
  unfolding new_table_def using put_slot_outside [OF can_addD(6,4) [OF assms(1)]] memset_page [OF can_addD(2) [OF assms(1)]] assms(2,3)
  by simp

text \<open>A new entry in a table.\<close>

definition set_pte :: "memory \<Rightarrow> uint \<Rightarrow> uint \<Rightarrow> uint \<Rightarrow> memory" where
  "set_pte m pg va e = put32 m (slot (tab m pg (pdx va)) (ptx va)) e"

lemma set_pte_dir:
  assumes "pgdir_ok kend ps m pg" and "dir_on m pg (pdx va)" and "i < 1024"
  shows "get32 (set_pte m pg va e) (slot pg i) = get32 m (slot pg i)"
  unfolding set_pte_def using pgdir_okD(1,3) [OF assms(1)] assms(2,3) get_put_slot [of kend "tab m pg (pdx va)" "ptx va" pg i] by auto

lemma set_pte_ok:
  assumes "pgdir_ok kend ps m pg" and "dir_on m pg (pdx va)"
  shows "pgdir_ok kend ps (set_pte m pg va e) pg" "tables (set_pte m pg va e) pg = tables m pg"
    "i < 1024 \<Longrightarrow> dir_on (set_pte m pg va e) pg i = dir_on m pg i" "i < 1024 \<Longrightarrow> tab (set_pte m pg va e) pg i = tab m pg i"
proof -
  note g = set_pte_dir [OF assms, of _ e]
  show dir: "dir_on (set_pte m pg va e) pg i = dir_on m pg i" "tab (set_pte m pg va e) pg i = tab m pg i" if "i < 1024" for i
    using g that by (simp_all add: dir_on_def tab_def)
  show "pgdir_ok kend ps (set_pte m pg va e) pg" using assms(1) unfolding pgdir_ok_def by (simp add: dir g)
  show "tables (set_pte m pg va e) pg = tables m pg" by (auto simp: tables_def dir image_def)
qed

lemma set_pte_ptes:
  assumes "pgdir_ok kend ps m pg" and "dir_on m pg (pdx va)"
  shows "ptes (set_pte m pg va e) pg = (\<lambda>v. if vpn v = vpn va then e else ptes m pg v)"
proof
  fix v
  note d = set_pte_ok(3,4) [OF assms, of _ e] and t = pgdir_okD(3) [OF assms(1) index_bounds(1)]
  show "ptes (set_pte m pg va e) pg v = (if vpn v = vpn va then e else ptes m pg v)"
  proof (cases "dir_on m pg (pdx v)")
    case True
    have "get32 (set_pte m pg va e) (slot (tab m pg (pdx v)) (ptx v)) =
        (if tab m pg (pdx va) = tab m pg (pdx v) \<and> ptx va = ptx v then e else get32 m (slot (tab m pg (pdx v)) (ptx v)))"
      unfolding set_pte_def using t [OF assms(2)] t [OF True] by (intro get_put_slot [of kend]) auto
    moreover have "tab m pg (pdx va) = tab m pg (pdx v) \<longleftrightarrow> pdx va = pdx v"
      using pgdir_okD(4) [OF assms(1), of "pdx va" "pdx v"] assms(2) True by auto
    ultimately show ?thesis using True by (auto simp: ptes_def d vpn_index)
  next
    case False
    then have "pdx v \<noteq> pdx va" using assms(2) by auto
    then show ?thesis using False by (simp add: ptes_def d vpn_index)
  qed
qed

lemma set_pte_frame:
  assumes "pgdir_ok kend ps m pg" and "dir_on m pg (pdx va)" and "a \<notin> page (tab m pg (pdx va))"
  shows "set_pte m pg va e a = m a"
  unfolding set_pte_def using pgdir_okD(3) [OF assms(1) index_bounds(1) assms(2)] assms(3) by (intro put_slot_outside) auto

section \<open>The routines on well-formed tables\<close>

definition vm_ok :: "uint \<Rightarrow> uint \<Rightarrow> uint list \<Rightarrow> kernel \<Rightarrow> bool" where
  "vm_ok kend pg ps k \<longleftrightarrow> kmem_ok kend ps k \<and> pgdir_ok kend ps (mem k) pg"

text \<open>
  A step of the memory management on the address space \<open>pg\<close>: pages are taken from the free list,
  only the tables and the pages that were free are written, and the process table and the current
  process stay as they are.
\<close>

definition vm_step :: "uint \<Rightarrow> uint \<Rightarrow> uint list \<Rightarrow> kernel \<Rightarrow> uint list \<Rightarrow> kernel \<Rightarrow> bool" where
  "vm_step kend pg ps k ps' k' \<longleftrightarrow> vm_ok kend pg ps' k' \<and> set ps' \<subseteq> set ps \<and>
     tables (mem k') pg \<union> set ps' \<subseteq> tables (mem k) pg \<union> set ps \<and> pt k' = pt k \<and> cur k' = cur k \<and>
     (\<forall>a. (\<forall>q \<in> tables (mem k) pg \<union> set ps. a \<notin> page q) \<longrightarrow> mem k' a = mem k a)"

lemma vm_step_trans:
  assumes "vm_step kend pg ps k ps1 k1" and "vm_step kend pg ps1 k1 ps2 k2"
  shows "vm_step kend pg ps k ps2 k2"
proof -
  have "mem k2 a = mem k a" if a: "\<forall>q \<in> tables (mem k) pg \<union> set ps. a \<notin> page q" for a
  proof -
    have "\<forall>q \<in> tables (mem k1) pg \<union> set ps1. a \<notin> page q" using assms(1) a unfolding vm_step_def by blast
    then show ?thesis using assms a unfolding vm_step_def by metis
  qed
  moreover have "pt k2 = pt k" "cur k2 = cur k" using assms unfolding vm_step_def by simp_all
  ultimately show ?thesis using assms unfolding vm_step_def by blast
qed

lemma vm_step_refl: "vm_ok kend pg ps k \<Longrightarrow> vm_step kend pg ps k ps k"
  by (simp add: vm_step_def)

lemma kmem_ok_mem:
  assumes "kmem_ok kend ps k" and "\<And>p a. p \<in> set ps \<Longrightarrow> a \<in> page p \<Longrightarrow> m a = mem k a"
  shows "kmem_ok kend ps (k\<lparr>mem := m\<rparr>)"
  using assms chain_frame [of ps kend m "mem k" "freelist (km k)"] by (auto simp: kmem_ok_def)

lemma tab_in_tables: "dir_on m pg (pdx va) \<Longrightarrow> tab m pg (pdx va) \<in> tables m pg"
  by (auto simp: tables_def)

lemma slot_nonzero: "page_ok kend p \<Longrightarrow> i < 1024 \<Longrightarrow> slot p i \<noteq> 0"
  using unat_slot [of kend p i] page_ok_bound(3) [of kend p] by auto

lemma walk_present:
  assumes "dir_on (mem k) pg (pdx va)"
  shows "walkpgdir pg va alloc k = Ok (slot (tab (mem k) pg (pdx va)) (ptx va)) k"
  using assms by (simp add: walkpgdir_def Let_def PDX_slot PTX_slot load32_def dir_on_def tab_def)

lemma kalloc_step:
  assumes "kmem_ok kend ps k"
  shows "\<exists>k'. kalloc k = Ok (case ps of [] \<Rightarrow> 0 | p # _ \<Rightarrow> p) k' \<and> kmem_ok kend (tl ps) k' \<and> mem k' = mem k \<and>
    pt k' = pt k \<and> cur k' = cur k"
  using kmem_ok_kalloc [OF assms] kalloc_ok [of k] assms by (auto simp: kmem_ok_def kl_m_def)

lemma walk_fresh:
  assumes "vm_ok kend pg ps k" and "\<not> dir_on (mem k) pg (pdx va)"
  shows "case ps of [] \<Rightarrow> \<exists>k'. walkpgdir pg va True k = Ok 0 k' \<and> vm_step kend pg ps k ps k' \<and> mem k' = mem k
    | p # qs \<Rightarrow> \<exists>k'. walkpgdir pg va True k = Ok (slot p (ptx va)) k' \<and> vm_step kend pg ps k qs k' \<and>
        mem k' = new_table (mem k) pg (pdx va) p"
proof -
  from kalloc_step [of kend ps k] assms(1) obtain k1 where
    k1: "kalloc k = Ok (case ps of [] \<Rightarrow> 0 | p # _ \<Rightarrow> p) k1" "kmem_ok kend (tl ps) k1" "mem k1 = mem k"
      "pt k1 = pt k" "cur k1 = cur k" by (auto simp: vm_ok_def)
  show ?thesis
  proof (cases ps)
    case Nil
    with k1 assms show ?thesis
      by (auto simp: walkpgdir_def Let_def PDX_slot PTX_slot load32_def dir_on_def vm_step_def vm_ok_def)
  next
    case (Cons p qs)
    let ?m = "new_table (mem k) pg (pdx va) p"
    have c: "can_add kend pg p qs (mem k) (pdx va)" using assms Cons by (auto simp: can_add_def vm_ok_def kmem_ok_def)
    have "kmem_ok kend qs (k1\<lparr>mem := ?m\<rparr>)"
    proof (rule kmem_ok_mem)
      show "kmem_ok kend qs k1" using k1(2) Cons by simp
      fix q a assume q: "q \<in> set qs" "a \<in> page q"
      then have "page_ok kend q" "q \<noteq> p" "q \<noteq> pg"
        using k1(2) Cons can_addD(1,3) [OF c] pgdir_okD(2) [OF can_addD(1) [OF c]] by (auto simp: kmem_ok_def)
      then show "?m a = mem k1 a" using q page_disjoint [of kend q] can_addD(2,6) [OF c] k1(3) by (subst new_table_frame [OF c]) auto
    qed
    then have "vm_step kend pg ps k qs (k1\<lparr>mem := ?m\<rparr>)"
      using new_table_ok [OF c] new_table_frame [OF c] Cons k1(4,5) by (auto simp: vm_step_def vm_ok_def tables_def)
    moreover have "walkpgdir pg va True k = Ok (slot p (ptx va)) (k1\<lparr>mem := ?m\<rparr>)"
      using k1 Cons assms(2) page_ok_bound(4) [OF can_addD(2) [OF c]]
      by (simp add: walkpgdir_def Let_def PDX_slot PTX_slot load32_def store32_def dir_on_def new_table_def)
    ultimately show ?thesis using Cons by auto
  qed
qed

text \<open>\<^verbatim>\<open>walkpgdir()\<close> finds the entry, with at most one page for a table, and changes no mapping.\<close>

lemma walk_ok:
  assumes "vm_ok kend pg ps k"
  shows "\<exists>r k' ps'. walkpgdir pg va True k = Ok r k' \<and> vm_step kend pg ps k ps' k' \<and> ptes (mem k') pg = ptes (mem k) pg \<and>
    length ps \<le> length ps' + 1 \<and>
    (if r = 0 then ps = [] else dir_on (mem k') pg (pdx va) \<and> r = slot (tab (mem k') pg (pdx va)) (ptx va))"
proof (cases "dir_on (mem k) pg (pdx va)")
  case True
  have "page_ok kend (tab (mem k) pg (pdx va))" using pgdir_okD(3) [OF _ index_bounds(1) True] assms by (auto simp: vm_ok_def)
  with True walk_present [OF True, of True] vm_step_refl [OF assms] slot_nonzero show ?thesis by fastforce
next
  case False
  show ?thesis
  proof (cases ps)
    case Nil
    with walk_fresh [OF assms False] show ?thesis by auto
  next
    case (Cons p qs)
    have c: "can_add kend pg p qs (mem k) (pdx va)" using assms Cons False by (auto simp: can_add_def vm_ok_def kmem_ok_def)
    from walk_fresh [OF assms False] Cons obtain k' where
      "walkpgdir pg va True k = Ok (slot p (ptx va)) k'" "vm_step kend pg ps k qs k'" "mem k' = new_table (mem k) pg (pdx va) p" by auto
    moreover have "slot p (ptx va) \<noteq> 0" by (rule slot_nonzero [OF can_addD(2) [OF c]]) simp
    ultimately show ?thesis using new_table_ptes [OF c] new_table_dir(2,3) [OF c index_bounds(1)] Cons by auto
  qed
qed

section \<open>Mapping\<close>

text \<open>The map after \<open>n\<close> pages from address \<open>a\<close> are mapped to the physical pages from \<open>pa\<close>.\<close>

definition map_upd :: "nat \<Rightarrow> uint \<Rightarrow> uint \<Rightarrow> uint \<Rightarrow> (uint \<Rightarrow> uint) \<Rightarrow> uint \<Rightarrow> uint" where
  "map_upd n a pa perm f v =
     (if vpn a \<le> vpn v \<and> vpn v < vpn a + n then (pa + of_nat (4096 * (vpn v - vpn a))) OR perm OR PTE_P else f v)"

lemma store_entry:
  assumes "vm_ok kend pg ps k" and d: "dir_on (mem k) pg (pdx va)"
  shows "\<exists>k'. store32 (slot (tab (mem k) pg (pdx va)) (ptx va)) e k = Ok () k' \<and> vm_step kend pg ps k ps k' \<and>
    ptes (mem k') pg = (\<lambda>v. if vpn v = vpn va then e else ptes (mem k) pg v)"
proof -
  let ?t = "tab (mem k) pg (pdx va)" and ?m = "set_pte (mem k) pg va e"
  have ok: "kmem_ok kend ps k" "pgdir_ok kend ps (mem k) pg" using assms(1) by (simp_all add: vm_ok_def)
  note t = pgdir_okD(3) [OF ok(2) index_bounds(1) d]
  have "kmem_ok kend ps (k\<lparr>mem := ?m\<rparr>)"
  proof (rule kmem_ok_mem [OF ok(1)])
    fix q a assume "q \<in> set ps" "a \<in> page q"
    then have "a \<notin> page ?t" using t ok(1) page_disjoint [of kend q ?t] by (auto simp: kmem_ok_def)
    then show "?m a = mem k a" by (rule set_pte_frame [OF ok(2) d])
  qed
  then have "vm_step kend pg ps k ps (k\<lparr>mem := ?m\<rparr>)"
    using set_pte_ok(1,2) [OF ok(2) d, of e] set_pte_frame [OF ok(2) d] tab_in_tables [OF d] by (auto simp: vm_step_def vm_ok_def)
  then show ?thesis using set_pte_ptes [OF ok(2) d, of e] by (simp add: store32_def set_pte_def)
qed

lemma ptes_load: "dir_on (mem k) pg (pdx va) \<Longrightarrow> load32 (slot (tab (mem k) pg (pdx va)) (ptx va)) k = Ok (ptes (mem k) pg va) k"
  by (simp add: load32_def ptes_def)

text \<open>One page of the loop.\<close>

lemma map_one:
  assumes "vm_ok kend pg ps k" and "ptes (mem k) pg a AND PTE_P = 0"
  obtains (full) k' where "walkpgdir pg a True k = Ok 0 k'" "ps = []" "vm_step kend pg ps k [] k'" "ptes (mem k') pg = ptes (mem k) pg"
  | (mapped) r k1 k2 ps' where "walkpgdir pg a True k = Ok r k1" "r \<noteq> 0" "load32 r k1 = Ok (ptes (mem k) pg a) k1"
      "store32 r (pa OR perm OR PTE_P) k1 = Ok () k2" "vm_step kend pg ps k ps' k2" "length ps \<le> length ps' + 1"
      "ptes (mem k2) pg = map_upd 1 a pa perm (ptes (mem k) pg)"
proof -
  from walk_ok [OF assms(1), of a] obtain r k1 ps1 where w: "walkpgdir pg a True k = Ok r k1" "vm_step kend pg ps k ps1 k1"
      "ptes (mem k1) pg = ptes (mem k) pg" "length ps \<le> length ps1 + 1"
      "if r = 0 then ps = [] else dir_on (mem k1) pg (pdx a) \<and> r = slot (tab (mem k1) pg (pdx a)) (ptx a)" by blast
  show thesis
  proof (cases "r = 0")
    case True
    moreover have "ps1 = []" using True w(2,5) by (simp add: vm_step_def)
    ultimately show thesis using w full by simp
  next
    case False
    then have d: "dir_on (mem k1) pg (pdx a)" and r: "r = slot (tab (mem k1) pg (pdx a)) (ptx a)" using w(5) by auto
    have ok: "vm_ok kend pg ps1 k1" using w(2) by (simp add: vm_step_def)
    from store_entry [OF ok d, of "pa OR perm OR PTE_P"] obtain k2 where
      k2: "store32 r (pa OR perm OR PTE_P) k1 = Ok () k2" "vm_step kend pg ps1 k1 ps1 k2"
        "ptes (mem k2) pg = (\<lambda>v. if vpn v = vpn a then pa OR perm OR PTE_P else ptes (mem k1) pg v)" unfolding r by blast
    have "ptes (mem k2) pg = map_upd 1 a pa perm (ptes (mem k) pg)" unfolding k2(3) w(3) by (auto simp: map_upd_def fun_eq_iff)
    then show thesis
      using mapped [OF w(1) False _ k2(1) vm_step_trans [OF w(2) k2(2)] w(4)] ptes_load [OF d] w(3) r by simp
  qed
qed

lemma vpn_next: "unat a + 4096 < 2 ^ 32 \<Longrightarrow> vpn (a + PGSIZE) = vpn a + 1" "unat a + 4096 < 2 ^ 32 \<Longrightarrow> unat (a + PGSIZE) = unat a + 4096"
  using unat_plus_nat [of a 4096] by (simp_all add: vpn_def)

lemma map_upd_Suc:
  assumes "unat a + 4096 < 2 ^ 32"
  shows "map_upd n (a + PGSIZE) (pa + PGSIZE) perm (map_upd 1 a pa perm f) = map_upd (Suc n) a pa perm f"
proof
  fix v
  have "pa + PGSIZE + of_nat (4096 * (vpn v - (vpn a + 1))) = pa + of_nat (4096 * (vpn v - vpn a))" if "vpn a + 1 \<le> vpn v"
  proof -
    have "4096 * (vpn v - vpn a) = 4096 + 4096 * (vpn v - (vpn a + 1))" using that by simp
    then show ?thesis by (simp del: of_nat_mult)
  qed
  then show "map_upd n (a + PGSIZE) (pa + PGSIZE) perm (map_upd 1 a pa perm f) v = map_upd (Suc n) a pa perm f v"
    by (cases "vpn a + 1 \<le> vpn v"; cases "vpn a = vpn v") (auto simp: map_upd_def vpn_next [OF assms])
qed

lemma map_loop_ok:
  assumes "vm_ok kend pg ps k" and "unat a + 4096 * n < 2 ^ 32"
    and "\<And>v. vpn a \<le> vpn v \<Longrightarrow> vpn v \<le> vpn a + n \<Longrightarrow> ptes (mem k) pg v AND PTE_P = 0"
  shows "\<exists>r k' ps'. mappages_loop n pg a pa perm k = Ok r k' \<and> vm_step kend pg ps k ps' k' \<and> length ps \<le> length ps' + (n + 1) \<and>
    (r = 0 \<and> ptes (mem k') pg = map_upd (n + 1) a pa perm (ptes (mem k) pg) \<or> r = -1 \<and> length ps \<le> n)"
  using assms
proof (induction n arbitrary: a pa ps k)
  case 0
  from 0(3) [of a] have z: "ptes (mem k) pg a AND PTE_P = 0" by simp
  from 0(1) z show ?case
  proof (cases rule: map_one [where pa = pa and perm = perm])
    case (full k')
    then show ?thesis by auto
  next
    case (mapped r k1 k2 ps')
    then show ?thesis using z by auto
  qed
next
  case (Suc n)
  from Suc(4) [of a] have z: "ptes (mem k) pg a AND PTE_P = 0" by simp
  from Suc(2) z show ?case
  proof (cases rule: map_one [where pa = pa and perm = perm])
    case (full k')
    then show ?thesis by auto
  next
    case (mapped r k1 k2 ps1)
    have b: "unat a + 4096 < 2 ^ 32" using Suc(3) by simp
    have f: "ptes (mem k2) pg v AND PTE_P = 0" if "vpn (a + PGSIZE) \<le> vpn v" "vpn v \<le> vpn (a + PGSIZE) + n" for v
      using that Suc(4) [of v] mapped(7) by (simp add: vpn_next [OF b] map_upd_def)
    have ok: "vm_ok kend pg ps1 k2" using mapped(5) by (simp add: vm_step_def)
    have "unat (a + PGSIZE) + 4096 * n < 2 ^ 32" using Suc(3) by (simp add: vpn_next [OF b])
    from Suc(1) [OF ok this f, of "pa + PGSIZE"] obtain r' k' ps' where
      i: "mappages_loop n pg (a + PGSIZE) (pa + PGSIZE) perm k2 = Ok r' k'" "vm_step kend pg ps1 k2 ps' k'"
        "length ps1 \<le> length ps' + (n + 1)"
        "r' = 0 \<and> ptes (mem k') pg = map_upd (n + 1) (a + PGSIZE) (pa + PGSIZE) perm (ptes (mem k2) pg) \<or> r' = -1 \<and> length ps1 \<le> n"
      by blast
    have "mappages_loop (Suc n) pg a pa perm k = Ok r' k'" using mapped(1-4) i(1) z by simp
    moreover have "length ps \<le> length ps' + (Suc n + 1)" using mapped(6) i(3) by simp
    ultimately show ?thesis using vm_step_trans [OF mapped(5) i(2)] i(4) mapped(6,7) map_upd_Suc [OF b, of "n + 1"] by auto
  qed
qed

section \<open>The hardware's view\<close>

lemma mmu_ptes:
  assumes "pgdir_ok kend ps m pg" and "req AND PTE_P \<noteq> 0" and "req AND 7 = req"
  shows "mmu m req pg va = (if ptes m pg va AND req \<noteq> req then None else Some (P2V (PTE_ADDR (ptes m pg va)) + va mod PGSIZE))"
proof (cases "dir_on m pg (pdx va)")
  case True
  let ?e = "get32 m (slot pg (pdx va))"
  have r: "7 AND req = req" using assms(3) by (simp only: and.commute)
  then have "?e AND req = (?e AND 7) AND req" by (simp only: and.assoc)
  also have "\<dots> = req" using pgdir_okD(3) [OF assms(1) index_bounds(1) True] r by (simp only:)
  finally show ?thesis using True by (simp add: mmu_def PDX_slot PTX_slot ptes_def tab_def)
next
  case False
  then have "get32 m (slot pg (pdx va)) AND PTE_P = 0" by (simp add: dir_on_def)
  moreover have "(get32 m (slot pg (pdx va)) AND req) AND PTE_P = (get32 m (slot pg (pdx va)) AND PTE_P) AND req"
    by (simp only: and.assoc and.commute [of req])
  ultimately have "(get32 m (slot pg (pdx va)) AND req) AND PTE_P = 0" by simp
  then have "get32 m (slot pg (pdx va)) AND req \<noteq> req" using assms(2) by auto
  moreover have "req \<noteq> 0" using assms(2) by auto
  ultimately show ?thesis using False by (simp add: mmu_def PDX_slot ptes_def)
qed

lemma unat_rounddown: "unat (PGROUNDDOWN a) = 4096 * vpn a"
proof -
  have "unat (a mod PGSIZE) = unat a mod 4096" by (simp add: unat_mod)
  moreover have "unat (a - a mod PGSIZE) = unat a - unat (a mod PGSIZE)"
    by (rule unat_sub) (simp add: word_le_nat_alt unat_mod)
  ultimately show ?thesis unfolding PGROUNDDOWN_mod vpn_def by (simp add: minus_mod_eq_mult_div)
qed

lemma vpn_rounddown: "vpn (PGROUNDDOWN a) = vpn a"
  using unat_rounddown [of a] by (simp add: vpn_def)

lemma map_upd_rounddown: "map_upd n (PGROUNDDOWN a) = map_upd n a"
  by (simp add: map_upd_def fun_eq_iff vpn_rounddown)

lemma vpn_mono: "unat u \<le> unat v \<Longrightarrow> vpn u \<le> vpn v"
  by (simp add: vpn_def div_le_mono)

lemma mappages_pages:
  assumes "sz \<noteq> 0" and "unat va + unat sz \<le> 2 ^ 32"
  shows "unat (va + sz - 1) = unat va + unat sz - 1" "vpn va \<le> vpn (va + sz - 1)"
    "unat ((PGROUNDDOWN (va + sz - 1) - PGROUNDDOWN va) div PGSIZE) = vpn (va + sz - 1) - vpn va"
    "unat (PGROUNDDOWN va) + 4096 * (vpn (va + sz - 1) - vpn va) < 2 ^ 32"
proof -
  have "0 < unat sz" using assms(1) by (simp add: unat_gt_0)
  then have s: "unat (sz - 1) = unat sz - 1" by (subst unat_sub) (auto simp: word_le_nat_alt)
  have "va + sz - 1 = va + of_nat (unat (sz - 1))" by (simp add: algebra_simps)
  then show u: "unat (va + sz - 1) = unat va + unat sz - 1"
    using assms(2) unat_plus_nat [of va "unat (sz - 1)"] \<open>0 < unat sz\<close> unfolding s by (simp add: add_diff_eq)
  then show v: "vpn va \<le> vpn (va + sz - 1)" using \<open>0 < unat sz\<close> by (intro vpn_mono) simp
  then have "unat (PGROUNDDOWN (va + sz - 1) - PGROUNDDOWN va) = 4096 * (vpn (va + sz - 1) - vpn va)"
    by (subst unat_sub) (simp_all add: word_le_nat_alt unat_rounddown diff_mult_distrib2)
  then show "unat ((PGROUNDDOWN (va + sz - 1) - PGROUNDDOWN va) div PGSIZE) = vpn (va + sz - 1) - vpn va" by (simp add: unat_div)
  have "4096 * vpn (va + sz - 1) \<le> unat (va + sz - 1)" by (simp add: vpn_def)
  moreover have "unat (va + sz - 1) < 2 ^ LENGTH(32)" by (rule unsigned_less)
  ultimately show "unat (PGROUNDDOWN va) + 4096 * (vpn (va + sz - 1) - vpn va) < 2 ^ 32"
    using v by (simp add: unat_rounddown diff_mult_distrib2)
qed

lemma mappages_ok:
  assumes "vm_ok kend pg ps k" and "sz \<noteq> 0" and "unat va + unat sz \<le> 2 ^ 32" and "n = vpn (va + sz - 1) - vpn va"
    and "\<And>v. vpn va \<le> vpn v \<Longrightarrow> vpn v \<le> vpn (va + sz - 1) \<Longrightarrow> ptes (mem k) pg v AND PTE_P = 0"
  shows "\<exists>r k' ps'. mappages pg va sz pa perm k = Ok r k' \<and> vm_step kend pg ps k ps' k' \<and> length ps \<le> length ps' + (n + 1) \<and>
    (r = 0 \<and> ptes (mem k') pg = map_upd (n + 1) va pa perm (ptes (mem k) pg) \<or> r = -1 \<and> length ps \<le> n)"
proof -
  note m = mappages_pages [OF assms(2,3)]
  have "ptes (mem k) pg v AND PTE_P = 0" if "vpn (PGROUNDDOWN va) \<le> vpn v" "vpn v \<le> vpn (PGROUNDDOWN va) + n" for v
    using that m(2) assms(4) by (intro assms(5)) (simp_all add: vpn_rounddown)
  from map_loop_ok [OF assms(1) m(4) [folded assms(4)] this] show ?thesis
    unfolding mappages_def Let_def m(3) map_upd_rounddown assms(4) [symmetric] .
qed

section \<open>Fresh pages\<close>

lemma pgdir_frame:
  assumes "pgdir_ok kend ps m pg" and "\<And>q a. q \<in> tables m pg \<Longrightarrow> a \<in> page q \<Longrightarrow> m' a = m a"
  shows "pgdir_ok kend ps m' pg" "ptes m' pg = ptes m pg" "tables m' pg = tables m pg"
proof -
  have g: "get32 m' (slot pg i) = get32 m (slot pg i)" if "i < 1024" for i
    by (rule slot_get_other [OF pgdir_okD(1) [OF assms(1)] that assms(2)]) (simp_all add: tables_def)
  then have d: "dir_on m' pg i = dir_on m pg i" "tab m' pg i = tab m pg i" if "i < 1024" for i
    using that by (simp_all add: dir_on_def tab_def)
  show "pgdir_ok kend ps m' pg" using assms(1) unfolding pgdir_ok_def by (simp add: d g)
  show "tables m' pg = tables m pg" by (auto simp: tables_def d image_def)
  show "ptes m' pg = ptes m pg"
  proof
    fix va
    have "get32 m' (slot (tab m pg (pdx va)) (ptx va)) = get32 m (slot (tab m pg (pdx va)) (ptx va))" if "dir_on m pg (pdx va)"
      by (rule slot_get_other [of kend]) (use pgdir_okD(3) [OF assms(1) _ that] assms(2) tab_in_tables [OF that] in auto)
    then show "ptes m' pg va = ptes m pg va" by (simp add: ptes_def d)
  qed
qed

lemma tables_page_ok: "pgdir_ok kend ps m pg \<Longrightarrow> q \<in> tables m pg \<Longrightarrow> page_ok kend q \<and> q \<notin> set ps"
  using pgdir_okD(1,2,3) [of kend ps m pg] by (auto simp: tables_def)

text \<open>A page from the free list, zeroed: the address space does not see it yet.\<close>

lemma fresh_page:
  assumes "vm_ok kend pg (p # qs) k"
  obtains k1 where "kalloc k = Ok p k1" "vm_ok kend pg qs (k1\<lparr>mem := memset (mem k) p 0 4096\<rparr>)" "mem k1 = mem k"
    "ptes (memset (mem k) p 0 4096) pg = ptes (mem k) pg" "tables (memset (mem k) p 0 4096) pg = tables (mem k) pg"
    "page_ok kend p" "p \<notin> set qs" "p \<notin> tables (mem k) pg" "pt k1 = pt k" "cur k1 = cur k"
proof -
  have ok: "kmem_ok kend (p # qs) k" "pgdir_ok kend (p # qs) (mem k) pg" using assms by (simp_all add: vm_ok_def)
  then have p: "page_ok kend p" "p \<notin> set qs" "p \<notin> tables (mem k) pg" and qs: "\<forall>q \<in> set qs. page_ok kend q"
    using tables_page_ok [OF ok(2)] by (auto simp: kmem_ok_def)
  from kalloc_step [OF ok(1)] obtain k1 where
    k1: "kalloc k = Ok p k1" "kmem_ok kend qs k1" "mem k1 = mem k" "pt k1 = pt k" "cur k1 = cur k" by auto
  have away: "memset (mem k) p 0 4096 a = mem k a" if "page_ok kend q" "q \<noteq> p" "a \<in> page q" for q a
    using that page_disjoint [OF p(1) that(1)] memset_page [OF p(1)] by auto
  have m: "kmem_ok kend qs (k1\<lparr>mem := memset (mem k) p 0 4096\<rparr>)"
    using qs p(2) k1(3) by (intro kmem_ok_mem [OF k1(2)]) (auto intro: away)
  have qs_ok: "pgdir_ok kend qs (mem k) pg" using ok(2) by (auto simp: pgdir_ok_def)
  have "memset (mem k) p 0 4096 a = mem k a" if "q \<in> tables (mem k) pg" "a \<in> page q" for q a
    using that tables_page_ok [OF ok(2)] by (intro away [of q]) auto
  note f = pgdir_frame [OF qs_ok this]
  show thesis using that [OF k1(1) _ k1(3) f(2,3) p k1(4,5)] m f(1) by (simp add: vm_ok_def)
qed

definition user_pte :: "uint \<Rightarrow> uint" where
  "user_pte p = V2P p OR (PTE_W OR PTE_U) OR PTE_P"

lemma ptes_vpn: "vpn u = vpn v \<Longrightarrow> ptes m pg u = ptes m pg v"
  by (simp add: ptes_def vpn_index)

lemma aligned_unat: "a mod PGSIZE = 0 \<Longrightarrow> unat a = 4096 * vpn a"
proof -
  assume "a mod PGSIZE = 0"
  then have "unat (a mod PGSIZE) = 0" by simp
  then have "unat a mod 4096 = 0" by (simp add: unat_mod)
  then show ?thesis by (auto simp: vpn_def mod_eq_0_iff_dvd)
qed

lemma map_page:
  assumes "vm_ok kend pg ps k" and "a mod PGSIZE = 0" and "unat a + 4096 \<le> 2 ^ 32" and "ptes (mem k) pg a AND PTE_P = 0"
  shows "\<exists>r k' ps'. mappages pg a PGSIZE pa perm k = Ok r k' \<and> vm_step kend pg ps k ps' k' \<and> length ps \<le> length ps' + 1 \<and>
    (r = 0 \<and> ptes (mem k') pg = map_upd 1 a pa perm (ptes (mem k) pg) \<or> r = -1 \<and> ps = [])"
proof -
  have b: "PGSIZE \<noteq> 0" "unat a + unat PGSIZE \<le> 2 ^ 32" using assms(3) by simp_all
  have v: "vpn (a + PGSIZE - 1) = vpn a"
    unfolding vpn_def mappages_pages(1) [OF b] using aligned_unat [OF assms(2)] by simp
  have "ptes (mem k) pg v AND PTE_P = 0" if "vpn a \<le> vpn v" "vpn v \<le> vpn (a + PGSIZE - 1)" for v
    using that v assms(4) ptes_vpn [of v a] by simp
  from mappages_ok [OF assms(1) b _ this, where n = 0 and pa = pa and perm = perm] v show ?thesis by auto
qed

text \<open>One round of \<^verbatim>\<open>allocuvm()\<close>.\<close>

lemma alloc_round:
  assumes "vm_ok kend pg (p # qs) k" and "a mod PGSIZE = 0" and "unat a + 4096 \<le> 2 ^ 32" and "ptes (mem k) pg a AND PTE_P = 0" and "qs \<noteq> []"
  obtains k1 k3 ps3 where "kalloc k = Ok p k1" "mem k1 = mem k" "p \<noteq> 0"
    "mappages pg a PGSIZE (V2P p) (PTE_W OR PTE_U) (k1\<lparr>mem := memset (mem k) p 0 4096\<rparr>) = Ok 0 k3"
    "vm_step kend pg (p # qs) k ps3 k3" "length qs \<le> length ps3 + 1" "set ps3 \<subseteq> set qs" "p \<notin> set qs" "page_ok kend p"
    "p \<notin> tables (mem k3) pg \<union> set ps3" "\<forall>x \<in> page p. mem k3 x = 0"
    "ptes (mem k3) pg = (\<lambda>v. if vpn v = vpn a then user_pte p else ptes (mem k) pg v)"
proof -
  from fresh_page [OF assms(1)] obtain k1 where
    k1: "kalloc k = Ok p k1" "vm_ok kend pg qs (k1\<lparr>mem := memset (mem k) p 0 4096\<rparr>)" "mem k1 = mem k"
      "ptes (memset (mem k) p 0 4096) pg = ptes (mem k) pg" "tables (memset (mem k) p 0 4096) pg = tables (mem k) pg"
      "page_ok kend p" "p \<notin> set qs" "p \<notin> tables (mem k) pg" "pt k1 = pt k" "cur k1 = cur k" by blast
  let ?k2 = "k1\<lparr>mem := memset (mem k) p 0 4096\<rparr>"
  have "ptes (mem ?k2) pg a AND PTE_P = 0" using k1(4) assms(4) by simp
  from map_page [OF k1(2) assms(2,3) this, of "V2P p" "PTE_W OR PTE_U"] assms(5) obtain k3 ps3 where
    k3: "mappages pg a PGSIZE (V2P p) (PTE_W OR PTE_U) ?k2 = Ok 0 k3" "vm_step kend pg qs ?k2 ps3 k3" "length qs \<le> length ps3 + 1"
      "ptes (mem k3) pg = map_upd 1 a (V2P p) (PTE_W OR PTE_U) (ptes (mem ?k2) pg)" by blast
  have own: "p \<notin> tables (mem ?k2) pg \<union> set qs" using k1(5,7,8) by simp
  have "mem k3 x = 0" if "x \<in> page p" for x
  proof -
    have "x \<notin> page q" if "q \<in> tables (mem ?k2) pg \<union> set qs" for q
    proof -
      have "page_ok kend q" using that k1(2) tables_page_ok [of kend qs "mem ?k2" pg] by (auto simp: vm_ok_def kmem_ok_def)
      then show ?thesis using page_disjoint [OF k1(6), of q] \<open>x \<in> page p\<close> own that by blast
    qed
    then have "mem k3 x = mem ?k2 x" using k3(2) unfolding vm_step_def by blast
    then show ?thesis using memset_page [OF k1(6)] that by simp
  qed
  moreover have "ptes (mem k3) pg = (\<lambda>v. if vpn v = vpn a then user_pte p else ptes (mem k) pg v)"
    unfolding k3(4) by (auto simp: map_upd_def user_pte_def k1(4) fun_eq_iff)
  moreover have "p \<notin> tables (mem k3) pg \<union> set ps3" "set ps3 \<subseteq> set qs" using own k3(2) unfolding vm_step_def by auto
  moreover have "vm_step kend pg (p # qs) k ps3 k3"
    using k3(2) memset_page [OF k1(6)] unfolding vm_step_def by (auto simp: k1(5,9,10))
  ultimately show thesis using that [OF k1(1,3) page_ok_bound(4) [OF k1(6)] k3(1) _ k3(3)] k1(6,7) by blast
qed

text \<open>
  \<open>fresh\<close>: the pages \<open>lo\<close> to \<open>hi\<close> are mapped, writable for the user, each to
  a page of its own that was free, is no table, and holds zeros; the other entries are unchanged.
\<close>

definition fresh :: "uint \<Rightarrow> uint \<Rightarrow> uint list \<Rightarrow> kernel \<Rightarrow> uint list \<Rightarrow> kernel \<Rightarrow> nat \<Rightarrow> nat \<Rightarrow> bool" where
  "fresh kend pg ps k ps' k' lo hi \<longleftrightarrow> vm_step kend pg ps k ps' k' \<and>
     (\<exists>f. inj_on f {lo..<hi} \<and> (\<forall>i \<in> {lo..<hi}. f i \<in> set ps \<and> f i \<notin> tables (mem k') pg \<union> set ps' \<and> page_ok kend (f i) \<and>
        (\<forall>x \<in> page (f i). mem k' x = 0)) \<and>
      ptes (mem k') pg = (\<lambda>v. if lo \<le> vpn v \<and> vpn v < hi then user_pte (f (vpn v)) else ptes (mem k) pg v))"

lemma fresh_Cons:
  assumes r: "vm_step kend pg (p # qs) k ps3 k3" "set ps3 \<subseteq> set qs" "p \<notin> set qs" "page_ok kend p"
    "p \<notin> tables (mem k3) pg \<union> set ps3" "\<forall>x \<in> page p. mem k3 x = 0"
    "ptes (mem k3) pg = (\<lambda>v. if vpn v = lo then user_pte p else ptes (mem k) pg v)"
    and f: "fresh kend pg ps3 k3 ps' k' (Suc lo) hi" and "lo < hi"
  shows "fresh kend pg (p # qs) k ps' k' lo hi"
proof -
  from f obtain g where s: "vm_step kend pg ps3 k3 ps' k'" and i: "inj_on g {Suc lo..<hi}"
    and g: "\<forall>i \<in> {Suc lo..<hi}. g i \<in> set ps3 \<and> g i \<notin> tables (mem k') pg \<union> set ps' \<and> page_ok kend (g i) \<and> (\<forall>x \<in> page (g i). mem k' x = 0)"
    and t: "ptes (mem k') pg = (\<lambda>v. if Suc lo \<le> vpn v \<and> vpn v < hi then user_pte (g (vpn v)) else ptes (mem k3) pg v)"
    unfolding fresh_def by blast
  let ?f = "g(lo := p)"
  have ok: "vm_ok kend pg ps3 k3" using r(1) by (simp add: vm_step_def)
  have "mem k' x = 0" if "x \<in> page p" for x
  proof -
    have "x \<notin> page q" if q: "q \<in> tables (mem k3) pg \<union> set ps3" for q
    proof -
      have "page_ok kend q" using q ok tables_page_ok [of kend ps3 "mem k3" pg] by (auto simp: vm_ok_def kmem_ok_def)
      then show ?thesis using page_disjoint [OF r(4), of q] \<open>x \<in> page p\<close> r(5) q by blast
    qed
    then show ?thesis using s r(6) that unfolding vm_step_def by metis
  qed
  moreover have "p \<notin> tables (mem k') pg \<union> set ps'" using s r(5) unfolding vm_step_def by blast
  moreover have "{lo..<hi} = insert lo {Suc lo..<hi}" using \<open>lo < hi\<close> by auto
  moreover have "inj_on ?f (insert lo {Suc lo..<hi})" using i g r(2,3) by (auto simp: inj_on_def)
  moreover have "ptes (mem k') pg = (\<lambda>v. if lo \<le> vpn v \<and> vpn v < hi then user_pte (?f (vpn v)) else ptes (mem k) pg v)"
    unfolding t r(7) using \<open>lo < hi\<close> by (auto simp: fun_eq_iff)
  ultimately show ?thesis
    unfolding fresh_def using vm_step_trans [OF r(1) s] g r(2,4) by (intro conjI exI [of _ ?f]) auto
qed

lemma fresh_none: "vm_ok kend pg ps k \<Longrightarrow> fresh kend pg ps k ps k lo lo"
  by (auto simp: fresh_def vm_step_refl fun_eq_iff)

lemma alloc_loop_ok:
  assumes "vm_ok kend pg ps k" and "a mod PGSIZE = 0" and "unat newsz \<le> unat a + 4096 * n" and "n \<noteq> 0 \<Longrightarrow> unat a + 4096 * (n - 1) < unat newsz"
    and "newsz \<le> KERNBASE" and "\<And>v. vpn a \<le> vpn v \<Longrightarrow> vpn v < vpn a + n \<Longrightarrow> ptes (mem k) pg v AND PTE_P = 0"
    and "2 * n \<le> length ps"
  shows "\<exists>k' ps'. allocuvm_loop kend pg a oldsz newsz k = Ok newsz k' \<and> fresh kend pg ps k ps' k' (vpn a) (vpn a + n)"
  using assms
proof (induction n arbitrary: a ps k)
  case 0
  then have "allocuvm_loop kend pg a oldsz newsz k = Ok newsz k"
    by (subst allocuvm_loop.simps) (simp add: word_less_nat_alt)
  then show ?case using fresh_none [OF 0(1)] by auto
next
  case (Suc n)
  from Suc(8) obtain p qs where ps: "ps = p # qs" "qs \<noteq> []" "2 * n + 1 \<le> length qs" by (cases ps; cases "tl ps") auto
  have top: "unat newsz \<le> 0x80000000" using Suc(6) by (simp add: word_le_nat_alt)
  have lt: "unat a < unat newsz" using Suc(5) by simp
  have z: "ptes (mem k) pg a AND PTE_P = 0" using Suc(7) [of a] by simp
  have b: "unat a + 4096 < 2 ^ 32" using lt top by simp
  note nx = vpn_next [OF b]
  obtain k1 k3 ps3 where
    r: "kalloc k = Ok p k1" "mem k1 = mem k" "p \<noteq> 0"
      "mappages pg a PGSIZE (V2P p) (PTE_W OR PTE_U) (k1\<lparr>mem := memset (mem k) p 0 4096\<rparr>) = Ok 0 k3"
      "vm_step kend pg (p # qs) k ps3 k3" "length qs \<le> length ps3 + 1" "set ps3 \<subseteq> set qs" "p \<notin> set qs" "page_ok kend p"
      "p \<notin> tables (mem k3) pg \<union> set ps3" "\<forall>x \<in> page p. mem k3 x = 0"
      "ptes (mem k3) pg = (\<lambda>v. if vpn v = vpn a then user_pte p else ptes (mem k) pg v)"
    by (rule alloc_round [OF Suc(2) [unfolded ps(1)] Suc(3) less_imp_le [OF b] z ps(2)])
  have al: "(a + PGSIZE) mod PGSIZE = 0" using aligned_unat [OF Suc(3)] by (simp add: word_unat_eq_iff unat_mod nx(2))
  have "\<exists>k' ps'. allocuvm_loop kend pg (a + PGSIZE) oldsz newsz k3 = Ok newsz k' \<and>
      fresh kend pg ps3 k3 ps' k' (vpn (a + PGSIZE)) (vpn (a + PGSIZE) + n)"
  proof (rule Suc(1) [OF _ al])
    show "vm_ok kend pg ps3 k3" using r(5) by (simp add: vm_step_def)
    show "unat newsz \<le> unat (a + PGSIZE) + 4096 * n" using Suc(4) nx(2) by simp
    show "unat (a + PGSIZE) + 4096 * (n - 1) < unat newsz" if "n \<noteq> 0" using Suc(5) nx(2) that by (cases n) simp_all
    show "ptes (mem k3) pg v AND PTE_P = 0" if "vpn (a + PGSIZE) \<le> vpn v" "vpn v < vpn (a + PGSIZE) + n" for v
      using that Suc(7) [of v] by (simp add: r(12) nx(1))
    show "2 * n \<le> length ps3" using r(6) ps(3) by simp
  qed (rule Suc(6))
  then obtain k' ps' where i: "allocuvm_loop kend pg (a + PGSIZE) oldsz newsz k3 = Ok newsz k'"
    "fresh kend pg ps3 k3 ps' k' (Suc (vpn a)) (vpn a + Suc n)" by (auto simp: nx(1))
  have "\<not> a + PGSIZE \<le> a" by (simp add: word_le_nat_alt nx(2))
  then have "allocuvm_loop kend pg a oldsz newsz k = Ok newsz k'"
    using lt r(1-4) i(1) by (subst allocuvm_loop.simps) (simp add: word_less_nat_alt)
  then show ?case unfolding ps(1) using fresh_Cons [OF r(5,7-12) i(2)] by auto
qed

section \<open>Properties\<close>

lemma and_P_cases: "(x :: uint) AND PTE_P = 0 \<or> x AND PTE_P = PTE_P"
  by (simp add: and_one_eq mod_2_eq_odd)

lemma unmapped_iff: "pgdir_ok kend ps m pg \<Longrightarrow> mmu m PTE_P pg v = None \<longleftrightarrow> ptes m pg v AND PTE_P = 0"
  using and_P_cases [of "ptes m pg v"] by (auto simp: mmu_ptes)

lemma aligned_add:
  assumes "take_bit 12 x = 0"
  shows "take_bit 12 (x + of_nat (4096 * n) :: uint) = 0"
proof -
  have "x mod PGSIZE = 0" using assms by (simp add: take_bit_eq_mod)
  then have "unat x mod 4096 = 0" using aligned_unat [of x] by simp
  then have "(unat x + 4096 * n) mod 4096 = 0" by simp
  moreover have "unat (x + of_nat (4096 * n)) = (unat x + 4096 * n) mod 2 ^ 32" by (simp add: unat_word_ariths unat_of_nat mod_simps)
  ultimately have "unat (x + of_nat (4096 * n)) mod 4096 = 0" by (simp add: mod_mod_cancel)
  then have "unat ((x + of_nat (4096 * n)) mod PGSIZE) = 0" by (simp add: unat_mod del: of_nat_mult)
  then show ?thesis by (simp add: take_bit_eq_mod unat_eq_zero del: of_nat_mult)
qed

lemma user_pte_bits:
  assumes "page_ok kend p"
  shows "P2V (PTE_ADDR (user_pte p)) = p" "user_pte p AND 7 = 7"
  using dir_entry(1,2) [OF assms refl] by (simp_all add: user_pte_def or.assoc or.commute or.left_commute)

lemma page_offset:
  assumes "page_ok kend p"
  shows "p + v mod PGSIZE \<in> page p" "unat (p + v mod PGSIZE) = unat p + unat v mod 4096"
proof -
  have "v mod PGSIZE = of_nat (unat v mod 4096)" by (simp add: word_unat_eq_iff unat_mod unat_of_nat)
  then show u: "unat (p + v mod PGSIZE) = unat p + unat v mod 4096"
    using unat_plus_nat [of p "unat v mod 4096"] page_ok_bound(1) [OF assms] by (simp add: less_le_trans)
  then show "p + v mod PGSIZE \<in> page p" by (simp add: page_def word_le_nat_alt)
qed

lemma low_flags: "perm < PGSIZE \<Longrightarrow> take_bit 12 (perm OR PTE_P) = perm OR PTE_P"
proof -
  assume "perm < PGSIZE"
  then have "take_bit 12 perm = perm" by (simp add: take_bit_eq_mod word_unat_eq_iff unat_mod word_less_nat_alt)
  then show ?thesis by simp
qed

lemma low_req: "req AND 7 = req \<Longrightarrow> take_bit 12 req = (req :: uint)"
proof -
  assume "req AND 7 = req"
  moreover have "(req AND 7) AND mask 12 = req AND (7 AND mask 12)" by (rule and.assoc)
  ultimately show ?thesis by (simp add: take_bit_eq_mask mask_eq_exp_minus_1)
qed

text \<open>C6: \<^verbatim>\<open>mappages()\<close> refines an update of the address map.  On well-formed page tables and a range
  that is not mapped it returns; with a free page for every page of the range it succeeds; and then the
  page walk of the hardware translates every address of the range to the physical page asked for, if the
  permissions allow the access, and every other address as before.\<close>

theorem mappages_translation:
  assumes "vm_ok kend pg ps k" and "sz \<noteq> 0" and "unat va + unat sz \<le> 2 ^ 32" and "pa mod PGSIZE = 0"
    and "req AND PTE_P \<noteq> 0" and "req AND 7 = req"
    and "\<forall>v. vpn va \<le> vpn v \<and> vpn v \<le> vpn (va + sz - 1) \<longrightarrow> mmu (mem k) PTE_P pg v = None"
    and "perm < PGSIZE"
  shows "\<exists>r k' ps'. mappages pg va sz pa perm k = Ok r k' \<and> vm_ok kend pg ps' k' \<and>
    (vpn (va + sz - 1) - vpn va < length ps \<longrightarrow> r = 0) \<and>
    (r = 0 \<longrightarrow> (\<forall>v. mmu (mem k') req pg v =
       (if vpn va \<le> vpn v \<and> vpn v \<le> vpn (va + sz - 1)
        then if (perm OR PTE_P) AND req = req then Some (P2V (pa + of_nat (4096 * (vpn v - vpn va))) + v mod PGSIZE) else None
        else mmu (mem k) req pg v)))"
proof -
  let ?n = "vpn (va + sz - 1) - vpn va"
  have ok: "pgdir_ok kend ps (mem k) pg" using assms(1) by (simp add: vm_ok_def)
  have "ptes (mem k) pg v AND PTE_P = 0" if "vpn va \<le> vpn v" "vpn v \<le> vpn (va + sz - 1)" for v
    using assms(7) that unmapped_iff [OF ok] by blast
  from mappages_ok [OF assms(1-3) refl this] obtain r k' ps' where
    r: "mappages pg va sz pa perm k = Ok r k'" "vm_step kend pg ps k ps' k'"
      "r = 0 \<and> ptes (mem k') pg = map_upd (?n + 1) va pa perm (ptes (mem k) pg) \<or> r = -1 \<and> length ps \<le> ?n" by blast
  have ok': "pgdir_ok kend ps' (mem k') pg" using r(2) by (simp add: vm_step_def vm_ok_def)
  have p12: "take_bit 12 (perm OR PTE_P) = perm OR PTE_P" and r12: "take_bit 12 req = req"
    using low_flags [OF assms(8)] low_req [OF assms(6)] by simp_all
  have "mmu (mem k') req pg v = (if vpn va \<le> vpn v \<and> vpn v \<le> vpn (va + sz - 1)
      then if (perm OR PTE_P) AND req = req then Some (P2V (pa + of_nat (4096 * (vpn v - vpn va))) + v mod PGSIZE) else None
      else mmu (mem k) req pg v)" if r0: "r = 0" for v
  proof (cases "vpn va \<le> vpn v \<and> vpn v \<le> vpn (va + sz - 1)")
    case True
    let ?p = "pa + of_nat (4096 * (vpn v - vpn va))"
    have al: "take_bit 12 ?p = 0" by (rule aligned_add) (use assms(4) in \<open>simp add: take_bit_eq_mod\<close>)
    have "ptes (mem k') pg v = ?p OR (perm OR PTE_P)"
      using True r(3) r0 by (simp add: map_upd_def or.assoc del: of_nat_mult)
    then show ?thesis unfolding mmu_ptes [OF ok' assms(5,6)] using True entry_addr [OF al p12] entry_flags [OF al r12]
      by (simp del: of_nat_mult)
  next
    case False
    then have "ptes (mem k') pg v = ptes (mem k) pg v"
      using r(3) r0 mappages_pages(2) [OF assms(2,3)] by (simp add: map_upd_def) linarith
    then show ?thesis unfolding if_not_P [OF False] mmu_ptes [OF ok' assms(5,6)] mmu_ptes [OF ok assms(5,6)] by (simp only:)
  qed
  then show ?thesis using r(1,3) r(2) unfolding vm_step_def by (intro exI [of _ r] exI [of _ k'] exI [of _ ps']) auto
qed

lemma PGROUNDUP_pages:
  assumes "n = (unat newsz - unat (PGROUNDUP oldsz) + 4095) div 4096"
  shows "unat newsz \<le> unat (PGROUNDUP oldsz) + 4096 * n" "n \<noteq> 0 \<Longrightarrow> unat (PGROUNDUP oldsz) + 4096 * (n - 1) < unat newsz"
    "n \<noteq> 0 \<Longrightarrow> v < newsz \<Longrightarrow> vpn v < vpn (PGROUNDUP oldsz) + n"
proof -
  let ?d = "unat newsz - unat (PGROUNDUP oldsz)"
  have "?d + 4095 = 4096 * n + (?d + 4095) mod 4096" "(?d + 4095) mod 4096 < 4096" unfolding assms by simp_all
  then have n: "?d \<le> 4096 * n" "n \<noteq> 0 \<Longrightarrow> 4096 * (n - 1) < ?d" by (linarith, cases n, simp_all)
  then show a: "unat newsz \<le> unat (PGROUNDUP oldsz) + 4096 * n" "n \<noteq> 0 \<Longrightarrow> unat (PGROUNDUP oldsz) + 4096 * (n - 1) < unat newsz"
    by linarith+
  have "unat v < 4096 * (vpn (PGROUNDUP oldsz) + n)" if "v < newsz"
    using that a(1) aligned_unat [OF PGROUNDUP_aligned, of oldsz] by (simp add: word_less_nat_alt)
  then show "vpn v < vpn (PGROUNDUP oldsz) + n" if "n \<noteq> 0" "v < newsz"
    using that unfolding vpn_def by (metis less_mult_imp_div_less mult.commute)
qed

lemma page_of: "page_ok kend p \<Longrightarrow> PGROUNDDOWN (p + v mod PGSIZE) = p"
proof -
  assume p: "page_ok kend p"
  obtain c where "unat p = 4096 * c" using page_ok_bound(2) [OF p] by (auto elim!: dvdE simp: mod_eq_0_iff_dvd)
  then have "unat (PGROUNDDOWN (p + v mod PGSIZE)) = unat p"
    unfolding unat_rounddown vpn_def page_offset(2) [OF p] by simp
  then show ?thesis by (simp add: word_unat_eq_iff)
qed

lemma fresh_mapped:
  assumes f: "fresh kend pg ps k ps' k' lo hi" and ok: "pgdir_ok kend ps (mem k) pg"
    and range: "\<forall>v. a \<le> v \<and> v < newsz \<longrightarrow> lo \<le> vpn v \<and> vpn v < hi" "\<forall>v. v < a \<longrightarrow> \<not> lo \<le> vpn v"
  shows "\<exists>ps' f. vm_ok kend pg ps' k' \<and>
    (\<forall>v. a \<le> v \<and> v < newsz \<longrightarrow>
       mmu (mem k') (PTE_P OR PTE_W OR PTE_U) pg v = Some (f v) \<and> mem k' (f v) = 0 \<and> PGROUNDDOWN (f v) \<in> set ps) \<and>
    inj_on f {v. a \<le> v \<and> v < newsz} \<and>
    (\<forall>v req. v < a \<and> req AND PTE_P \<noteq> 0 \<and> req AND 7 = req \<longrightarrow> mmu (mem k') req pg v = mmu (mem k) req pg v)"
proof -
  have new: "lo \<le> vpn v \<and> vpn v < hi" if "a \<le> v" "v < newsz" for v using range(1) that by blast
  have old: "\<not> lo \<le> vpn v" if "v < a" for v using range(2) that by blast
  from f obtain g where ok': "vm_ok kend pg ps' k'" and i: "inj_on g {lo..<hi}"
    and g: "\<And>i. i \<in> {lo..<hi} \<Longrightarrow> g i \<in> set ps \<and> page_ok kend (g i) \<and> (\<forall>x \<in> page (g i). mem k' x = 0)"
    and t: "ptes (mem k') pg = (\<lambda>v. if lo \<le> vpn v \<and> vpn v < hi then user_pte (g (vpn v)) else ptes (mem k) pg v)"
    unfolding fresh_def vm_step_def by blast
  have dir: "pgdir_ok kend ps' (mem k') pg" using ok' by (simp add: vm_ok_def)
  let ?f = "\<lambda>v. g (vpn v) + v mod PGSIZE"
  have "mmu (mem k') 7 pg v = Some (?f v) \<and> mem k' (?f v) = 0 \<and> PGROUNDDOWN (?f v) \<in> set ps" if "a \<le> v" "v < newsz" for v
  proof -
    have r: "lo \<le> vpn v \<and> vpn v < hi" by (rule new [OF that])
    then have p: "g (vpn v) \<in> set ps" "page_ok kend (g (vpn v))" "\<forall>x \<in> page (g (vpn v)). mem k' x = 0" using g by auto
    have "mmu (mem k') 7 pg v = Some (?f v)"
      using r user_pte_bits [OF p(2)] by (subst mmu_ptes [OF dir]) (simp_all add: t)
    then show ?thesis using p page_offset(1) [OF p(2)] page_of [OF p(2)] by simp
  qed
  moreover have "inj_on ?f {v. a \<le> v \<and> v < newsz}"
  proof (rule inj_onI)
    fix u v assume u: "u \<in> {v. a \<le> v \<and> v < newsz}" and v: "v \<in> {v. a \<le> v \<and> v < newsz}" and e: "?f u = ?f v"
    have p: "page_ok kend (g (vpn u))" "page_ok kend (g (vpn v))" using g new u v by auto
    have "g (vpn u) = g (vpn v)" using page_of [OF p(1), of u] page_of [OF p(2), of v] e by simp
    then have "vpn u = vpn v" using i new u v by (auto simp: inj_on_def)
    moreover from e have "unat (?f u) = unat (?f v)" by simp
    ultimately show "u = v" unfolding page_offset(2) [OF p(1)] page_offset(2) [OF p(2)]
      by (metis add_left_cancel div_mult_mod_eq vpn_def word_unat_eq_iff)
  qed
  moreover have "mmu (mem k') req pg v = mmu (mem k) req pg v" if "v < a" "req AND PTE_P \<noteq> 0" "req AND 7 = req" for v req
    unfolding mmu_ptes [OF dir that(2,3)] mmu_ptes [OF ok that(2,3)] t using old [OF that(1)] by simp
  ultimately show ?thesis using ok' by (intro exI [of _ ps'] exI [of _ ?f]) simp
qed

lemma allocuvm_ok:
  assumes "vm_ok kend pg ps k" and "oldsz \<le> newsz" and "newsz < KERNBASE"
    and "\<forall>v. PGROUNDUP oldsz \<le> v \<and> v < newsz \<longrightarrow> mmu (mem k) PTE_P pg v = None"
    and "2 * ((unat newsz - unat (PGROUNDUP oldsz) + 4095) div 4096) \<le> length ps"
  shows "\<exists>k' ps'. allocuvm kend pg oldsz newsz k = Ok newsz k' \<and> fresh kend pg ps k ps' k' (vpn (PGROUNDUP oldsz))
    (vpn (PGROUNDUP oldsz) + (unat newsz - unat (PGROUNDUP oldsz) + 4095) div 4096)"
proof -
  define a where "a = PGROUNDUP oldsz"
  define n where "n = (unat newsz - unat a + 4095) div 4096"
  have al: "a mod PGSIZE = 0" unfolding a_def by (rule PGROUNDUP_aligned)
  note n = PGROUNDUP_pages [OF n_def [unfolded a_def], folded a_def]
  have ok: "pgdir_ok kend ps (mem k) pg" using assms(1) by (simp add: vm_ok_def)
  have free: "ptes (mem k) pg v AND PTE_P = 0" if v: "vpn a \<le> vpn v" "vpn v < vpn a + n" for v
  proof -
    have "n \<noteq> 0" "4096 * vpn v \<le> 4096 * vpn a + 4096 * (n - 1)" using v by (cases n; simp)+
    then have "a \<le> PGROUNDDOWN v" "PGROUNDDOWN v < newsz"
      using n(2) v(1) unfolding word_le_nat_alt word_less_nat_alt unat_rounddown aligned_unat [OF al] by auto
    then have "mmu (mem k) PTE_P pg (PGROUNDDOWN v) = None" using assms(4) unfolding a_def by blast
    then show ?thesis unfolding unmapped_iff [OF ok] using ptes_vpn [OF vpn_rounddown, of "mem k" pg v] by simp
  qed
  have "2 * n \<le> length ps" using assms(5) unfolding n_def a_def .
  from alloc_loop_ok [OF assms(1) al n(1,2) less_imp_le [OF assms(3)] free this, of oldsz] obtain k' ps' where
    l: "allocuvm_loop kend pg a oldsz newsz k = Ok newsz k'" "fresh kend pg ps k ps' k' (vpn a) (vpn a + n)" by blast
  have "\<not> KERNBASE \<le> newsz" "\<not> newsz < oldsz" using assms(2,3) by (simp_all only: not_le not_less)
  then have "allocuvm kend pg oldsz newsz k = Ok newsz k'" using l(1) unfolding allocuvm_def a_def by simp
  then show ?thesis using l(2) unfolding n_def a_def by blast
qed

lemma grown_range:
  assumes "n = (unat newsz - unat (PGROUNDUP oldsz) + 4095) div 4096"
  shows "\<forall>v. PGROUNDUP oldsz \<le> v \<and> v < newsz \<longrightarrow> vpn (PGROUNDUP oldsz) \<le> vpn v \<and> vpn v < vpn (PGROUNDUP oldsz) + n"
    "\<forall>v. v < PGROUNDUP oldsz \<longrightarrow> \<not> vpn (PGROUNDUP oldsz) \<le> vpn v"
proof -
  let ?a = "PGROUNDUP oldsz"
  note n = PGROUNDUP_pages [OF assms] and al = PGROUNDUP_aligned [of oldsz]
  have "vpn ?a \<le> vpn v \<and> vpn v < vpn ?a + n" if "?a \<le> v" "v < newsz" for v
  proof -
    have "unat ?a < unat newsz" using that by (simp add: word_le_nat_alt word_less_nat_alt)
    then have "n \<noteq> 0" using n(1) by (cases n) simp_all
    then show ?thesis using n(3) that vpn_mono [of ?a v] by (simp add: word_le_nat_alt)
  qed
  then show "\<forall>v. ?a \<le> v \<and> v < newsz \<longrightarrow> vpn ?a \<le> vpn v \<and> vpn v < vpn ?a + n" by blast
  have "\<not> vpn ?a \<le> vpn v" if "v < ?a" for v
  proof -
    have "unat v < vpn ?a * 4096" using that unfolding word_less_nat_alt by (subst mult.commute) (simp only: aligned_unat [OF al])
    then have "vpn v < vpn ?a" unfolding vpn_def [of v] by (rule less_mult_imp_div_less)
    then show ?thesis by simp
  qed
  then show "\<forall>v. v < ?a \<longrightarrow> \<not> vpn ?a \<le> vpn v" by blast
qed


text \<open>An empty page directory, and two free pages.\<close>

lemma vm_example:
  obtains k where "vm_ok 0x80100000 0x80110000 [0x80112000, 0x80111000] k" "\<And>v. ptes (mem k) 0x80110000 v = 0"
proof -
  have ok: "page_ok 0x80100000 0x80110000" "page_ok 0x80100000 0x80111000" "page_ok 0x80100000 0x80112000"
    by (simp_all add: page_ok_def V2P_def)
  have n: "(0x80111000 :: uint) \<notin> set []" "(0x80112000 :: uint) \<notin> set [0x80111000]" "(0x80110000 :: uint) \<noteq> 0x80111000"
    "(0x80110000 :: uint) \<noteq> 0x80112000" by simp_all
  from kmem_ok_kfree [OF kernel0_kmem_ok ok(2) n(1)] obtain k1 where
    k1: "kmem_ok 0x80100000 [0x80111000] k1" "\<forall>a. a \<notin> page 0x80111000 \<longrightarrow> mem k1 a = mem kernel0 a" by blast
  from kmem_ok_kfree [OF k1(1) ok(3) n(2)] obtain k where
    k: "kmem_ok 0x80100000 [0x80112000, 0x80111000] k" "\<forall>a. a \<notin> page 0x80112000 \<longrightarrow> mem k a = mem k1 a" by blast
  note d = page_disjoint [OF ok(1,2) n(3)] page_disjoint [OF ok(1,3) n(4)]
  have "mem k a = 0" if "a \<in> page 0x80110000" for a
  proof -
    have "a \<notin> page 0x80112000" "a \<notin> page 0x80111000" using that d by blast+
    then show ?thesis using k(2) k1(2) by (simp add: kernel0_def)
  qed
  then have "get32 (mem k) (slot 0x80110000 i) = 0" if "i < 1024" for i
    using slot_in_page [OF ok(1) that] unfolding get32_def by simp
  then have off: "\<not> dir_on (mem k) 0x80110000 i" if "i < 1024" for i using that by (simp add: dir_on_def)
  then have "pgdir_ok 0x80100000 [0x80112000, 0x80111000] (mem k) 0x80110000" using ok(1) by (simp add: pgdir_ok_def)
  then have "vm_ok 0x80100000 0x80110000 [0x80112000, 0x80111000] k" using k(1) unfolding vm_ok_def by blast
  moreover have "ptes (mem k) 0x80110000 v = 0" for v unfolding ptes_def using off [OF index_bounds(1)] by simp
  ultimately show thesis by (rule that)
qed

theorem mappages_translation_witness:
  "\<exists>k r k'. vm_ok 0x80100000 0x80110000 [0x80112000, 0x80111000] k \<and>
     mappages 0x80110000 0x4000 PGSIZE 0x150000 PTE_W k = Ok r k' \<and> r = 0 \<and>
     mmu (mem k') (PTE_P OR PTE_W) 0x80110000 0x4321 = Some 0x80150321 \<and> mmu (mem k') (PTE_P OR PTE_U) 0x80110000 0x4321 = None"
proof -
  obtain k where k: "vm_ok 0x80100000 0x80110000 [0x80112000, 0x80111000] k" "\<And>v. ptes (mem k) 0x80110000 v = 0"
    using vm_example by blast
  have ok: "pgdir_ok 0x80100000 [0x80112000, 0x80111000] (mem k) 0x80110000" using k(1) by (simp add: vm_ok_def)
  have un: "mmu (mem k) PTE_P 0x80110000 v = None" for v using unmapped_iff [OF ok] k(2) by simp
  have v: "vpn (0x4000 + PGSIZE - 1) = 4" "vpn 0x4000 = 4" "vpn 0x4321 = 4" by (simp_all add: vpn_def)
  have t: "\<exists>r k'. mappages 0x80110000 0x4000 PGSIZE 0x150000 PTE_W k = Ok r k' \<and> r = 0 \<and> mmu (mem k') req 0x80110000 0x4321 =
      (if (PTE_W OR PTE_P) AND req = req then Some 0x80150321 else None)" if "req AND PTE_P \<noteq> 0" "req AND 7 = req" for req
  proof -
    have p: "P2V (0x150000 + of_nat (4096 * (vpn 0x4321 - vpn 0x4000))) + 0x4321 mod PGSIZE = 0x80150321" by (simp add: v P2V_def)
    have h: "PGSIZE \<noteq> 0" "unat (0x4000 :: uint) + unat PGSIZE \<le> 2 ^ 32" "(0x150000 :: uint) mod PGSIZE = 0" "PTE_W < PGSIZE"
      by simp_all
    have "\<forall>v. vpn 0x4000 \<le> vpn v \<and> vpn v \<le> vpn (0x4000 + PGSIZE - 1) \<longrightarrow> mmu (mem k) PTE_P 0x80110000 v = None" using un by simp
    from mappages_translation [OF k(1) h(1-3) that this h(4)] obtain r k' where
      r: "mappages 0x80110000 0x4000 PGSIZE 0x150000 PTE_W k = Ok r k'"
        "vpn (0x4000 + PGSIZE - 1) - vpn 0x4000 < length [0x80112000, 0x80111000 :: uint] \<longrightarrow> r = 0"
        "r = 0 \<longrightarrow> (\<forall>v. mmu (mem k') req 0x80110000 v = (if vpn 0x4000 \<le> vpn v \<and> vpn v \<le> vpn (0x4000 + PGSIZE - 1)
           then if (PTE_W OR PTE_P) AND req = req then Some (P2V (0x150000 + of_nat (4096 * (vpn v - vpn 0x4000))) + v mod PGSIZE) else None
           else mmu (mem k) req 0x80110000 v))" by blast
    have r0: "r = 0" using r(2) unfolding v by simp
    from mp [OF r(3) r0, rule_format, of "0x4321"] have
      "mmu (mem k') req 0x80110000 0x4321 = (if (PTE_W OR PTE_P) AND req = req then Some 0x80150321 else None)"
      unfolding p unfolding v by (simp only: order.refl if_True simp_thms)
    then show ?thesis using r(1) r0 by blast
  qed
  have b: "(PTE_P OR PTE_W) AND PTE_P \<noteq> 0" "(PTE_P OR PTE_W) AND 7 = PTE_P OR PTE_W" "(PTE_W OR PTE_P) AND (PTE_P OR PTE_W) = PTE_P OR PTE_W"
    "(PTE_P OR PTE_U) AND PTE_P \<noteq> 0" "(PTE_P OR PTE_U) AND 7 = PTE_P OR PTE_U" "(PTE_W OR PTE_P) AND (PTE_P OR PTE_U) \<noteq> PTE_P OR PTE_U"
    by simp_all
  from t [OF b(1,2), unfolded if_P [OF b(3)]] t [OF b(4,5), unfolded if_not_P [OF b(6)]] obtain r k' r' k'' where
    "mappages 0x80110000 0x4000 PGSIZE 0x150000 PTE_W k = Ok r k'" "r = 0" "mmu (mem k') (PTE_P OR PTE_W) 0x80110000 0x4321 = Some 0x80150321"
    "mappages 0x80110000 0x4000 PGSIZE 0x150000 PTE_W k = Ok r' k''" "mmu (mem k'') (PTE_P OR PTE_U) 0x80110000 0x4321 = None" by blast
  moreover from this(1,4) have "k'' = k'" by simp
  ultimately show ?thesis using k(1) by blast
qed


end
