(* ===== verification/UserMem.thy ===== *)
theory UserMem
  imports Paging
begin

unbundle bit_operations_syntax

text \<open>
  System-call arguments and the memory of the process.  \<^verbatim>\<open>argptr()\<close> and the others
  check an address against \<^verbatim>\<open>p->sz\<close> only; that the kernel may then use it rests on the
  page table, which maps every address below \<^verbatim>\<open>p->sz\<close>.  \<^verbatim>\<open>growproc()\<close> keeps it so.
\<close>

section \<open>Reading below the size\<close>

definition mapped :: "kernel \<Rightarrow> uint \<Rightarrow> uint \<Rightarrow> bool" where
  "mapped k pg sz \<longleftrightarrow> (\<forall>v < sz. mmu (mem k) (PTE_P OR PTE_W) pg v \<noteq> None)"

definition user_ok :: "nat \<Rightarrow> kernel \<Rightarrow> bool" where
  "user_ok i k \<longleftrightarrow> ready (mach k) \<and> cur k = Some i \<and> p_sz (proc_at k i) \<le> KERNBASE \<and>
     mapped k (p_pgdir (proc_at k i)) (p_sz (proc_at k i))"

abbreviation syn :: "kernel \<Rightarrow> kernel" where
  "syn k \<equiv> k\<lparr>mach := sync_m (mach k)\<rparr>"

lemma user_ok_syn [simp]: "user_ok i (syn k) = user_ok i k"
  by (simp add: user_ok_def mapped_def)

lemma my_user: "user_ok i k \<Longrightarrow> my f k = Ok (f (proc_at k i)) (syn k)"
  by (simp add: user_ok_def my_ok)

lemma and_weaken: "(e :: uint) AND (PTE_P OR PTE_W) = PTE_P OR PTE_W \<Longrightarrow> e AND PTE_P = PTE_P"
proof -
  assume e: "e AND (PTE_P OR PTE_W) = PTE_P OR PTE_W"
  have "e AND PTE_P = (e AND (PTE_P OR PTE_W)) AND PTE_P" by (simp add: and.assoc)
  then show ?thesis unfolding e by simp
qed

lemma mmu_weaken: "mmu m (PTE_P OR PTE_W) pg v \<noteq> None \<Longrightarrow> mmu m PTE_P pg v \<noteq> None"
  by (auto simp: mmu_def Let_def and_weaken split: if_splits)

lemma mmu_weaken_user: "mmu m (PTE_P OR PTE_W OR PTE_U) pg v \<noteq> None \<Longrightarrow> mmu m (PTE_P OR PTE_W) pg v \<noteq> None"
proof -
  have e: "e AND (PTE_P OR PTE_W) = PTE_P OR PTE_W" if "e AND (PTE_P OR PTE_W OR PTE_U) = PTE_P OR PTE_W OR PTE_U" for e :: uint
  proof -
    have "e AND (PTE_P OR PTE_W) = (e AND (PTE_P OR PTE_W OR PTE_U)) AND (PTE_P OR PTE_W)" by (simp add: and.assoc)
    then show ?thesis unfolding that by simp
  qed
  show "mmu m (PTE_P OR PTE_W OR PTE_U) pg v \<noteq> None \<Longrightarrow> mmu m (PTE_P OR PTE_W) pg v \<noteq> None"
    unfolding mmu_def Let_def using e by (simp split: if_splits)
qed

lemma load_user_ok:
  assumes "user_ok i k" and "v < p_sz (proc_at k i)"
  shows "\<exists>b. load_user v k = Ok b (syn k)"
proof -
  have "mmu (mem k) PTE_P (p_pgdir (proc_at k i)) v \<noteq> None"
    using assms by (intro mmu_weaken) (simp add: user_ok_def mapped_def)
  then show ?thesis by (auto simp: load_user_def user_addr_def my_user [OF assms(1)])
qed

lemma load_bytes_ok:
  assumes "user_ok i k" and "unat v + n \<le> unat (p_sz (proc_at k i))"
  shows "\<exists>bs. load_bytes n v k = Ok bs (if n = 0 then k else syn k) \<and> length bs = n"
  using assms
proof (induction n arbitrary: k v)
  case (Suc n)
  have "v < p_sz (proc_at k i)" using Suc(3) by (simp add: word_less_nat_alt)
  from load_user_ok [OF Suc(2) this] obtain b where b: "load_user v k = Ok b (syn k)" ..
  have "unat (v + 1) = unat v + 1" by (rule unat_Suc_below [of v "p_sz (proc_at k i)"]) (use Suc(3) in simp)
  then have "\<exists>bs. load_bytes n (v + 1) (syn k) = Ok bs (if n = 0 then syn k else syn (syn k)) \<and> length bs = n"
    using Suc(2,3) by (intro Suc(1)) simp_all
  then show ?case using b by auto
qed simp

lemma fetchint_ok:
  assumes "user_ok i k"
  shows "\<exists>r. fetchint a k = Ok r (syn k) \<and> (r \<noteq> None \<longrightarrow> unat a + 4 \<le> unat (p_sz (proc_at k i)))"
proof (cases "a \<ge> p_sz (proc_at k i) \<or> a + 4 > p_sz (proc_at k i)")
  case True
  then show ?thesis by (auto simp: fetchint_def my_user [OF assms])
next
  case False
  then have "unat a < unat (p_sz (proc_at k i))" "unat (p_sz (proc_at k i)) \<le> 0x80000000"
    using assms by (simp_all add: not_le word_less_nat_alt user_ok_def word_le_nat_alt)
  then have "unat (a + 4) = unat a + 4" using unat_plus_nat [of a 4] by simp
  then have b: "unat a + 4 \<le> unat (p_sz (proc_at k i))" using False by (simp add: not_less word_le_nat_alt)
  then have "\<exists>bs. load_bytes 4 a (syn k) = Ok bs (if (4 :: nat) = 0 then syn k else syn (syn k)) \<and> length bs = 4"
    using assms by (intro load_bytes_ok [of i]) simp_all
  then show ?thesis using False b by (auto simp: fetchint_def my_user [OF assms])
qed

lemma fetchstr_loop_ok:
  assumes "user_ok i k" and "ep = p_sz (proc_at k i)"
  shows "\<exists>r. (fetchstr_loop s ep k = Ok r k \<or> fetchstr_loop s ep k = Ok r (syn k)) \<and>
    (\<forall>cs. r = Some cs \<longrightarrow> 0 \<notin> set cs \<and> unat s + length cs < unat ep)"
  using assms
proof (induction s ep arbitrary: k rule: fetchstr_loop.induct)
  case (1 s ep)
  show ?case
  proof (cases "s < ep")
    case False
    then have "fetchstr_loop s ep k = Ok None k" by (subst fetchstr_loop.simps) simp
    then show ?thesis by auto
  next
    case True
    from load_user_ok [OF 1(2), of s] True 1(3) obtain c where c: "load_user s k = Ok c (syn k)" by blast
    show ?thesis
    proof (cases "c = 0")
      case True
      then have "fetchstr_loop s ep k = Ok (Some []) (syn k)" using c \<open>s < ep\<close> by (subst fetchstr_loop.simps) simp
      then show ?thesis using \<open>s < ep\<close> by (auto simp: word_less_nat_alt)
    next
      case False
      have u: "unat (s + 1) = unat s + 1" by (rule unat_Suc_below [of s ep]) (use \<open>s < ep\<close> in \<open>simp add: word_less_nat_alt\<close>)
      from 1(1) [OF \<open>s < ep\<close> False, of "syn k"] 1(2,3) obtain r where
        r: "fetchstr_loop (s + 1) ep (syn k) = Ok r (syn k)" "\<forall>cs. r = Some cs \<longrightarrow> 0 \<notin> set cs \<and> unat (s + 1) + length cs < unat ep" by auto
      have "fetchstr_loop s ep k = Ok (map_option (Cons c) r) (syn k)"
        using c r(1) False \<open>s < ep\<close> by (subst fetchstr_loop.simps) simp
      then show ?thesis using r(2) u False by (intro exI [of _ "map_option (Cons c) r"]) auto
    qed
  qed
qed

section \<open>Arguments\<close>

lemma argint_ok: "user_ok i k \<Longrightarrow> \<exists>r. argint n k = Ok r (syn k)"
  using fetchint_ok [of i "syn k"] by (fastforce simp: argint_def my_user)

lemma my_user_syn: "user_ok i k \<Longrightarrow> my f (syn k) = Ok (f (proc_at k i)) (syn k)"
  using my_user [of i "syn k" f] by simp

lemma argptr_ok:
  assumes "user_ok i k" and "sz0 < 2 ^ 31"
  shows "\<exists>r. argptr n sz0 k = Ok r (syn k) \<and>
      (\<forall>p. r = Some p \<longrightarrow> 0 \<le> sz0 \<and> unat p + nat sz0 \<le> unat (p_sz (proc_at k i)))"
proof -
  let ?sz = "p_sz (proc_at k i)"
  note my = my_user_syn [OF assms(1)]
  from argint_ok [OF assms(1)] obtain a where a: "argint n k = Ok a (syn k)" by blast
  show ?thesis
  proof (cases "\<exists>p. a = Some p \<and> \<not> (sz0 < 0 \<or> p \<ge> ?sz \<or> p + of_int sz0 > ?sz)")
    case True
    then obtain p where p: "a = Some p" "0 \<le> sz0" "p < ?sz" "p + of_int sz0 \<le> ?sz" by (auto simp: not_le not_less)
    have "unat p < 0x80000000" using p(3) assms(1) by (simp add: user_ok_def word_less_nat_alt word_le_nat_alt)
    moreover have "nat sz0 < 2 ^ 31" using assms(2) p(2) by (simp add: nat_less_iff)
    ultimately have "unat (p + of_nat (nat sz0)) = unat p + nat sz0" by (intro unat_plus_nat) simp
    then have b: "unat p + nat sz0 \<le> unat ?sz" using p(2,4) by (simp add: word_le_nat_alt)
    have "argptr n sz0 k = Ok (Some p) (syn k)" using a p by (auto simp: argptr_def not_le not_less my)
    then show ?thesis using p(2) b by auto
  next
    case False
    then have "argptr n sz0 k = Ok None (syn k)" using a by (cases a) (auto simp: argptr_def my)
    then show ?thesis by simp
  qed
qed

lemma argstr_ok:
  assumes "user_ok i k"
  shows "\<exists>r. argstr n k = Ok r (syn k) \<and> (\<forall>cs. r = Some cs \<longrightarrow> 0 \<notin> set cs \<and> length cs < unat (p_sz (proc_at k i)))"
proof -
  note my = my_user_syn [OF assms]
  from argint_ok [OF assms] obtain a where a: "argint n k = Ok a (syn k)" by blast
  show ?thesis
  proof (cases a)
    case None
    then show ?thesis using a by (auto simp: argstr_def)
  next
    case (Some s)
    from fetchstr_loop_ok [of i "syn k" "p_sz (proc_at k i)" s] assms obtain r where
      r: "fetchstr_loop s (p_sz (proc_at k i)) (syn k) = Ok r (syn k)"
        "\<forall>cs. r = Some cs \<longrightarrow> 0 \<notin> set cs \<and> unat s + length cs < unat (p_sz (proc_at k i))" by auto
    then show ?thesis using a Some by (cases "s \<ge> p_sz (proc_at k i)") (fastforce simp: argstr_def fetchstr_def my)+
  qed
qed


section \<open>Growing\<close>

lemma mmu_vpn:
  assumes "pgdir_ok kend ps m pg" and "vpn u = vpn v" and "mmu m (PTE_P OR PTE_W) pg u \<noteq> None"
  shows "mmu m (PTE_P OR PTE_W) pg v \<noteq> None"
  using assms(3) ptes_vpn [OF assms(2), of m pg] by (simp add: mmu_ptes [OF assms(1)] split: if_splits)

lemma roundup_same_page:
  assumes "unat sz + 4096 < 2 ^ 32" and "v < PGROUNDUP sz" and "\<not> v < sz"
  shows "0 < unat sz \<and> vpn v = vpn (sz - 1)"
proof -
  have up: "PGROUNDUP sz = PGROUNDDOWN (sz + PGSIZE - 1)" by (simp add: PGROUNDUP_def PGROUNDDOWN_def)
  have "unat (sz + PGSIZE - 1) = unat sz + 4095" using mappages_pages(1) [of PGSIZE sz] assms(1) by simp
  then have "unat (PGROUNDUP sz) = 4096 * ((unat sz + 4095) div 4096)" unfolding up unat_rounddown by (simp add: vpn_def)
  then have b: "unat v < 4096 * ((unat sz + 4095) div 4096)" "unat sz \<le> unat v" using assms(2,3) by (simp_all add: word_less_nat_alt)
  then have z: "0 < unat sz" by (cases "unat sz") auto
  then have m: "unat (sz - 1) = unat sz - 1" by (subst unat_sub) (auto simp: word_le_nat_alt)
  have e: "unat sz + 4095 = (unat sz - 1) + 4096" using z by simp
  have q: "(unat sz - 1 + 4096) div 4096 = (unat sz - 1) div 4096 + 1" by (rule div_add_self2) simp
  have "unat v < ((unat sz - 1) div 4096 + 1) * 4096" using b(1) unfolding e q by (simp only: mult.commute)
  then have "unat v div 4096 < (unat sz - 1) div 4096 + 1" by (rule less_mult_imp_div_less)
  moreover have "(unat sz - 1) div 4096 \<le> unat v div 4096" by (rule div_le_mono) (use b(2) in simp)
  ultimately show ?thesis using z unfolding vpn_def m by simp
qed

lemma mapped_grow:
  assumes f: "fresh kend pg ps k ps' k' (vpn (PGROUNDUP oldsz))
      (vpn (PGROUNDUP oldsz) + (unat newsz - unat (PGROUNDUP oldsz) + 4095) div 4096)"
    and ok: "pgdir_ok kend ps (mem k) pg" and old: "mapped k pg oldsz" and b: "oldsz \<le> newsz" "newsz < KERNBASE"
  shows "mapped k' pg newsz"
  unfolding mapped_def
proof (intro allI impI)
  fix v assume v: "v < newsz"
  from fresh_mapped [OF f ok grown_range [OF refl]] obtain g where
    g: "\<forall>v. PGROUNDUP oldsz \<le> v \<and> v < newsz \<longrightarrow> mmu (mem k') (PTE_P OR PTE_W OR PTE_U) pg v = Some (g v)"
    and same: "\<forall>v req. v < PGROUNDUP oldsz \<and> req AND PTE_P \<noteq> 0 \<and> req AND 7 = req \<longrightarrow> mmu (mem k') req pg v = mmu (mem k) req pg v" by blast
  show "mmu (mem k') (PTE_P OR PTE_W) pg v \<noteq> None"
  proof (cases "PGROUNDUP oldsz \<le> v")
    case True
    then have "mmu (mem k') (PTE_P OR PTE_W OR PTE_U) pg v \<noteq> None" using g v by simp
    then show ?thesis by (rule mmu_weaken_user)
  next
    case False
    then have "mmu (mem k') (PTE_P OR PTE_W) pg v = mmu (mem k) (PTE_P OR PTE_W) pg v" using same by (simp add: not_le)
    moreover have "mmu (mem k) (PTE_P OR PTE_W) pg v \<noteq> None"
    proof (cases "v < oldsz")
      case True
      then show ?thesis using old by (simp add: mapped_def)
    next
      case nlt: False
      have "unat oldsz + 4096 < 2 ^ 32" using b by (simp add: word_le_nat_alt word_less_nat_alt)
      from roundup_same_page [OF this _ nlt] False have p: "0 < unat oldsz" "vpn v = vpn (oldsz - 1)" by (auto simp: not_le)
      then have "unat (oldsz - 1) = unat oldsz - 1" by (subst unat_sub) (auto simp: word_le_nat_alt)
      then have "oldsz - 1 < oldsz" using p(1) by (simp add: word_less_nat_alt)
      then show ?thesis using mmu_vpn [OF ok p(2) [symmetric]] old by (simp add: mapped_def)
    qed
    ultimately show ?thesis by simp
  qed
qed

lemma switchuvm_ok:
  assumes "ready (mach k)" and "p_kstack (proc_at k i) \<noteq> 0" and "p_pgdir (proc_at k i) \<noteq> 0"
  shows "\<exists>m. switchuvm (Some i) k = Ok () (k\<lparr>mach := m\<rparr>) \<and> ready m \<and> cur (k\<lparr>mach := m\<rparr>) = cur k"
proof -
  from ready_here [OF assms(1)] obtain c where c: "here (mach k) = Some c" "c < length (cpus (mach k))" by blast
  define f where "f = (\<lambda>x :: cpu. x\<lparr>c_esp0 := p_kstack (proc_at k i) + KSTACKSIZE, c_cr3 := V2P (p_pgdir (proc_at k i))\<rparr>)"
  define m where "m = (mach k)\<lparr>cpus := upd_at c f (cpus (mach k))\<rparr>"
  have h: "here m = Some c" unfolding m_def f_def using c by simp
  have r: "ready m" using assms(1) c h unfolding ready_def by (simp add: m_def f_def)
  have e: "(push_m (mach k))\<lparr>cpus := upd_at c f (cpus (push_m (mach k)))\<rparr> = push_m m"
    using c h by (simp add: push_m_def)
      (auto simp: m_def f_def intro!: machine.equality arg_cong [where f = "\<lambda>x. (cpus (mach k))[c := x]"] cpu.equality)
  have "popcli (k\<lparr>mach := push_m m\<rparr>) = Ok () (k\<lparr>mach := sync_m m\<rparr>)" using popcli_after_push [of "k\<lparr>mach := m\<rparr>" "k\<lparr>mach := push_m m\<rparr>"] r by simp
  then have "switchuvm (Some i) k = Ok () (k\<lparr>mach := sync_m m\<rparr>)"
    using assms(2,3) c pushcli_ok [OF c(1)] e by (simp add: switchuvm_def mycpu_ok set_cpu_def flip: f_def)
  moreover have "cur (k\<lparr>mach := sync_m m\<rparr>) = cur k" using c h by simp (simp add: m_def f_def)
  ultimately show ?thesis using r by auto
qed

text \<open>C8: \<^verbatim>\<open>growproc()\<close> keeps the memory of a process usable: with enough free pages it returns 0, the size has
  grown by the argument, and every address below the new size is mapped, so the arguments of the next system call
  are safe again.\<close>

theorem growproc_keeps_mapped:
  assumes "user_ok i k" and "vm_ok kend (p_pgdir (proc_at k i)) ps k" and "i < length (procs (pt k))" and "p_kstack (proc_at k i) \<noteq> 0"
    and "0 < n" and "unat (p_sz (proc_at k i)) + nat n < 0x80000000" and "newsz = p_sz (proc_at k i) + of_int n"
    and "\<forall>v. PGROUNDUP (p_sz (proc_at k i)) \<le> v \<and> v < newsz \<longrightarrow> mmu (mem k) PTE_P (p_pgdir (proc_at k i)) v = None"
    and "2 * ((unat newsz - unat (PGROUNDUP (p_sz (proc_at k i))) + 4095) div 4096) \<le> length ps"
  shows "\<exists>k'. growproc kend n k = Ok 0 k' \<and> user_ok i k' \<and> p_sz (proc_at k' i) = newsz \<and>
    proc_at k' i = (proc_at k i)\<lparr>p_sz := newsz\<rparr>"
proof -
  let ?pr = "proc_at k i"
  have un: "unat newsz = unat (p_sz ?pr) + nat n"
    using assms(5,6) unat_plus_nat [of "p_sz ?pr" "nat n"] unfolding assms(7) by simp
  then have sz: "p_sz ?pr \<le> newsz" "newsz < KERNBASE" "newsz \<noteq> 0" using assms(5,6) by (auto simp: word_le_nat_alt word_less_nat_alt)
  have ok: "vm_ok kend (p_pgdir ?pr) ps (syn k)" "mmu (mem (syn k)) = mmu (mem k)"
    using assms(2) by (simp_all add: vm_ok_def kmem_ok_def)
  from allocuvm_ok [OF ok(1) sz(1,2), unfolded ok(2), OF assms(8,9)] obtain k1 ps' where
    k1: "allocuvm kend (p_pgdir ?pr) (p_sz ?pr) newsz (syn k) = Ok newsz k1"
      "fresh kend (p_pgdir ?pr) ps (syn k) ps' k1 (vpn (PGROUNDUP (p_sz ?pr)))
        (vpn (PGROUNDUP (p_sz ?pr)) + (unat newsz - unat (PGROUNDUP (p_sz ?pr)) + 4095) div 4096)" by blast
  have m: "mapped k1 (p_pgdir ?pr) newsz"
    by (rule mapped_grow [OF k1(2)]) (use ok(1) assms(1) sz in \<open>simp_all add: vm_ok_def user_ok_def mapped_def\<close>)
  have v: "vm_ok kend (p_pgdir ?pr) ps' k1" "pt k1 = pt k" "cur k1 = cur (syn k)" using k1(2) unfolding fresh_def vm_step_def by simp_all
  let ?k2 = "k1\<lparr>pt := pt k1\<lparr>procs := upd_at i (\<lambda>q. q\<lparr>p_sz := newsz\<rparr>) (procs (pt k1))\<rparr>\<rparr>"
  have pr: "proc_at ?k2 i = ?pr\<lparr>p_sz := newsz\<rparr>" using assms(3) v(2) by simp
  have "ready (mach k1)" "p_pgdir ?pr \<noteq> 0"
    using v(1) page_ok_bound(4) [of kend "p_pgdir ?pr"] by (auto simp: vm_ok_def kmem_ok_def pgdir_ok_def)
  with switchuvm_ok [of ?k2 i] pr assms(4) obtain m3 where
    m3: "switchuvm (Some i) ?k2 = Ok () (?k2\<lparr>mach := m3\<rparr>)" "ready m3" "cur (?k2\<lparr>mach := m3\<rparr>) = cur k1" by auto
  have "growproc kend n k = Ok 0 (?k2\<lparr>mach := m3\<rparr>)"
    using assms(1,5,7) k1(1) m3(1) sz(3) by (simp add: growproc_def myproc_ok user_ok_def Let_def)
  moreover have "user_ok i (?k2\<lparr>mach := m3\<rparr>)"
    unfolding user_ok_def using m3 pr m sz(2) v(3) assms(1,3) by (simp add: user_ok_def mapped_def)
  ultimately show ?thesis using pr by (intro exI [of _ "?k2\<lparr>mach := m3\<rparr>"]) simp
qed

section \<open>An example\<close>

text \<open>One process with an empty page directory, and two free pages.\<close>

definition grow_base :: "memory \<Rightarrow> kmem \<Rightarrow> uint \<Rightarrow> kernel" where
  "grow_base m x sz = kernel0\<lparr>mach := machine0\<lparr>cpus := [cpu0\<lparr>c_proc := Some 0\<rparr>]\<rparr>, mem := m, km := x,
     pt := ptable0\<lparr>procs := (procs ptable0)[0 := proc0\<lparr>p_pgdir := 0x80110000, p_kstack := 0x80120000, p_sz := sz\<rparr>]\<rparr>\<rparr>"

lemma grow_base_simps [simp]:
  "mem (grow_base m x sz) = m" "km (grow_base m x sz) = x" "cur (grow_base m x sz) = Some 0" "ready (mach (grow_base m x sz))"
  "lock_free l (mach (grow_base m x sz))" "procs (pt (grow_base m x sz)) \<noteq> []"
  "proc_at (grow_base m x sz) 0 = proc0\<lparr>p_pgdir := 0x80110000, p_kstack := 0x80120000, p_sz := sz\<rparr>"
  by (simp_all add: grow_base_def cold_defs ready_def here_def lock_free_def)

lemma grow_example:
  obtains m x where "vm_ok 0x80100000 0x80110000 [0x80112000, 0x80111000] (grow_base m x 0)" "\<And>v. mmu m PTE_P 0x80110000 v = None"
    "user_ok 0 (grow_base m x 0)"
proof -
  obtain k where k: "vm_ok 0x80100000 0x80110000 [0x80112000, 0x80111000] k" "\<And>v. ptes (mem k) 0x80110000 v = 0"
    using vm_example by blast
  have ok: "pgdir_ok 0x80100000 [0x80112000, 0x80111000] (mem k) 0x80110000" using k(1) by (simp add: vm_ok_def)
  show thesis
  proof (rule that)
    show "vm_ok 0x80100000 0x80110000 [0x80112000, 0x80111000] (grow_base (mem k) (km k) 0)"
      using k(1) unfolding vm_ok_def kmem_ok_def by simp
    show "mmu (mem k) PTE_P 0x80110000 v = None" for v using unmapped_iff [OF ok] k(2) by simp
    show "user_ok 0 (grow_base (mem k) (km k) 0)" by (simp add: user_ok_def mapped_def)
  qed
qed

theorem growproc_keeps_mapped_witness:
  "\<exists>k k'. growproc 0x80100000 100 k = Ok 0 k' \<and> user_ok 0 k' \<and> p_sz (proc_at k' 0) = 100"
proof -
  obtain m x where e: "vm_ok 0x80100000 0x80110000 [0x80112000, 0x80111000] (grow_base m x 0)" "\<And>v. mmu m PTE_P 0x80110000 v = None"
    "user_ok 0 (grow_base m x 0)" using grow_example by blast
  have up: "PGROUNDUP 0 = 0" by (simp add: PGROUNDUP_def)
  show ?thesis
    using growproc_keeps_mapped [OF e(3), of "0x80100000" "[0x80112000, 0x80111000]" 100 100] e(1,2) by (auto simp: up)
qed


end
