(* ===== verification/Timer.thy ===== *)
theory Timer
  imports Mlfq
begin

text \<open>
  The timer interrupt of \<^verbatim>\<open>trap.c\<close> and what \<^verbatim>\<open>trap()\<close> does to the running process
  after every interrupt: the demotion of a process that used up its quantum, and the boost every
  hundred ticks.  Each of the three demotion tests may end in \<^verbatim>\<open>yield()\<close>; the code after it
  runs when the process is scheduled again.
\<close>

section \<open>The timer interrupt\<close>

definition timer_intr :: "unit kop" where
  "timer_intr =
     bind cpuid (\<lambda>c.
     do_if (c = 0) (block
       [acquire L_ticks,
        modify (\<lambda>k. k\<lparr>ticks := ticks k + 1\<rparr>),
        bind (all_of [have_proc, my (\<lambda>p. p_state p = RUNNING)]) (\<lambda>b.
          do_if b (set_my (\<lambda>p. p\<lparr>p_quantum := p_quantum p - 1\<rparr>))),
        wakeup (Some Ch_ticks),
        release L_ticks]))"

section \<open>Demotion\<close>

definition demote0 :: "unit kop" where
  "demote0 =
     bind (all_of [have_proc, my (\<lambda>p. p_state p = RUNNING), my (\<lambda>p. p_level p = 0), my (\<lambda>p. p_quantum p \<le> 0)])
     (\<lambda>b. do_if b
       (bind (my (\<lambda>p. p_pid p mod 2 = 0)) (\<lambda>even.
        if even then block
          [set_my (\<lambda>p. p\<lparr>p_level := 2\<rparr>), set_my (\<lambda>p. p\<lparr>p_quantum := 6\<rparr>), yield]
        else block
          [set_my (\<lambda>p. p\<lparr>p_level := 1\<rparr>), set_my (\<lambda>p. p\<lparr>p_quantum := 4\<rparr>), yield])))"

definition demote12 :: "unit kop" where
  "demote12 =
     bind (all_of [have_proc, my (\<lambda>p. p_state p = RUNNING), my (\<lambda>p. p_level p = 1 \<or> p_level p = 2),
       my (\<lambda>p. p_quantum p \<le> 0)])
     (\<lambda>b. do_if b (block
        [set_my (\<lambda>p. p\<lparr>p_quantum := 8\<rparr>), set_my (\<lambda>p. p\<lparr>p_level := 3\<rparr>), yield]))"

definition demote3 :: "unit kop" where
  "demote3 =
     bind (all_of [have_proc, my (\<lambda>p. p_state p = RUNNING), my (\<lambda>p. p_level p = 3), my (\<lambda>p. p_quantum p \<le> 0)])
     (\<lambda>b. do_if b (block
        [set_my (\<lambda>p. p\<lparr>p_quantum := 8\<rparr>),
         set_my (\<lambda>p. p\<lparr>p_priority := p_priority p - 1\<rparr>),
         bind (my (\<lambda>p. p_priority p < 0)) (\<lambda>neg. do_if neg (set_my (\<lambda>p. p\<lparr>p_priority := 0\<rparr>))),
         yield]))"

definition tick_boost :: "unit kop" where
  "tick_boost = block
     [acquire L_ticks,
      bind (gets ticks) (\<lambda>t. do_if (t mod 100 = 0) (bind priority_boosting (\<lambda>_. ret ()))),
      release L_ticks]"

section \<open>The routines in a trap\<close>

text \<open>What an interrupt finds: interrupts off, no lock held by this CPU, a process or none running.\<close>

definition in_trap :: "kernel \<Rightarrow> bool" where
  "in_trap k \<longleftrightarrow> ready (mach k) \<and> c_ncli (this_cpu (mach k)) = 0 \<and> \<not> eflags_IF (mach k) \<and>
     lock_free L_ptable (mach k) \<and> lock_free L_ticks (mach k) \<and> wf_pt (pt k) \<and>
     (\<forall>i. cur k = Some i \<longrightarrow> i < NPROC)"

text \<open>The guard of the three demotions: one test of the running process.\<close>

lemma running_guard:
  assumes "ready (mach k)" and "cur k = Some i"
  shows "all_of [have_proc, my P, my Q, my R] k =
    Ok (P (proc_at k i) \<and> Q (proc_at k i) \<and> R (proc_at k i)) (k\<lparr>mach := sync_m (mach k)\<rparr>)"
  using assms by (simp add: my_simps)

lemma no_process_guard:
  assumes "ready (mach k)" and "cur k = None"
  shows "all_of (have_proc # cs) k = Ok False (k\<lparr>mach := sync_m (mach k)\<rparr>)"
  using assms by (simp add: my_simps)

lemma pt_mach: "k\<lparr>pt := t, mach := m\<rparr> = k\<lparr>mach := m, pt := t\<rparr>"
  by simp

text \<open>What one expiry of the quantum does to a process.\<close>

definition expire :: "proc \<Rightarrow> proc" where
  "expire p =
     (if p_level p = 0 then
        if p_pid p mod 2 = 0 then p\<lparr>p_level := 2, p_quantum := 6\<rparr> else p\<lparr>p_level := 1, p_quantum := 4\<rparr>
      else if p_level p = 1 \<or> p_level p = 2 then p\<lparr>p_quantum := 8, p_level := 3\<rparr>
      else p\<lparr>p_quantum := 8, p_priority := max 0 (p_priority p - 1)\<rparr>)"

definition switched :: "nat \<Rightarrow> (proc \<Rightarrow> proc) \<Rightarrow> kernel \<Rightarrow> kernel" where
  "switched i f k = k\<lparr>mach := acq_m L_ptable (sync_m (mach k)), pt := pt k\<lparr>procs :=
     upd_at i (\<lambda>q. (f q)\<lparr>p_state := RUNNABLE, p_context := Ctx_sched (eflags_IF (mach k)) R_yield\<rparr>) (procs (pt k))\<rparr>\<rparr>"

lemma yield_switched:
  assumes "in_trap k" and "cur k = Some i" and "i < NPROC"
  shows "yield (k\<lparr>mach := sync_m (mach k), pt := pt k\<lparr>procs := (procs (pt k))[i := f (proc_at k i)]\<rparr>\<rparr>) =
    Swtch (switched i f k)"
  using assms by (subst yield_ok [where i = i]) (simp_all add: in_trap_def switched_def wf_pt_def)

lemma demote0_ok:
  assumes "in_trap k" and "cur k = Some i"
  shows "demote0 k =
     (if p_state (proc_at k i) = RUNNING \<and> p_level (proc_at k i) = 0 \<and> p_quantum (proc_at k i) \<le> 0
      then Swtch (switched i expire k) else Ok () (k\<lparr>mach := sync_m (mach k)\<rparr>))"
  using assms yield_switched [OF assms, of "\<lambda>p. if p_pid p mod 2 = 0 then p\<lparr>p_level := 2, p_quantum := 6\<rparr> else p\<lparr>p_level := 1, p_quantum := 4\<rparr>"]
  by (auto simp: demote0_def in_trap_def running_guard my_simps wf_pt_def expire_def switched_def
      simp del: all_of.simps)

lemma demote12_ok:
  assumes "in_trap k" and "cur k = Some i"
  shows "demote12 k =
     (if p_state (proc_at k i) = RUNNING \<and> p_level (proc_at k i) \<in> {1, 2} \<and> p_quantum (proc_at k i) \<le> 0
      then Swtch (switched i expire k) else Ok () (k\<lparr>mach := sync_m (mach k)\<rparr>))"
  using assms yield_switched [OF assms, of "\<lambda>p. p\<lparr>p_quantum := 8, p_level := 3\<rparr>"]
  by (auto simp: demote12_def in_trap_def running_guard my_simps wf_pt_def expire_def switched_def
      simp del: all_of.simps)

lemma demote3_ok:
  assumes "in_trap k" and "cur k = Some i"
  shows "demote3 k =
     (if p_state (proc_at k i) = RUNNING \<and> p_level (proc_at k i) = 3 \<and> p_quantum (proc_at k i) \<le> 0
      then Swtch (switched i expire k) else Ok () (k\<lparr>mach := sync_m (mach k)\<rparr>))"
  using assms yield_switched [OF assms, of "\<lambda>p. p\<lparr>p_quantum := 8, p_priority := max 0 (p_priority p - 1)\<rparr>"]
  by (auto simp: demote3_def in_trap_def running_guard my_simps wf_pt_def expire_def switched_def max_def pt_mach
      simp del: all_of.simps)

lemma demote_none:
  assumes "in_trap k" and "cur k = None"
  shows "demote0 k = Ok () (k\<lparr>mach := sync_m (mach k)\<rparr>)" "demote12 k = Ok () (k\<lparr>mach := sync_m (mach k)\<rparr>)"
    "demote3 k = Ok () (k\<lparr>mach := sync_m (mach k)\<rparr>)"
  using assms by (simp_all add: demote0_def demote12_def demote3_def in_trap_def no_process_guard del: all_of.simps)

lemma in_trap_sync [simp]: "in_trap (k\<lparr>mach := sync_m (mach k)\<rparr>) = in_trap k"
  by (auto simp: in_trap_def)

lemma switched_sync [simp]: "switched i f (k\<lparr>mach := sync_m (mach k)\<rparr>) = switched i f k"
  by (simp add: switched_def)

section \<open>Properties\<close>


definition expiry_example :: kernel where
  "expiry_example = kernel0\<lparr>mach := machine0\<lparr>cpus := [cpu0\<lparr>c_proc := Some 0\<rparr>]\<rparr>,
     pt := ptable0\<lparr>procs := (replicate NPROC proc0)[0 := proc0\<lparr>p_state := RUNNING, p_pid := 4\<rparr>]\<rparr>\<rparr>"

lemma expiry_example_in_trap: "in_trap expiry_example" "cur expiry_example = Some 0"
  by (simp_all add: expiry_example_def in_trap_def cold_defs ready_def here_def lock_free_def wf_pt_def)


text \<open>C19: The timer interrupt on CPU 0 counts one tick (modulo \<open>2 ^ 32\<close>), charges it to the
  running process and wakes exactly the processes that sleep on \<^verbatim>\<open>ticks\<close>; on another CPU it
  changes nothing.  All locks are given back.\<close>

theorem timer_tick:
  assumes "in_trap k"
  shows "\<exists>k'. timer_intr k = Ok () k' \<and> locks (mach k') = locks (mach k) \<and>
     (if here (mach k) = Some 0
      then ticks k' = ticks k + 1 \<and>
        (\<forall>j < NPROC. proc_at k' j = wake_proc (Some Ch_ticks)
           (if cur k = Some j \<and> p_state (proc_at k j) = RUNNING
            then (proc_at k j)\<lparr>p_quantum := p_quantum (proc_at k j) - 1\<rparr> else proc_at k j))
      else k' = k)"
proof -
  from assms obtain c where c: "here (mach k) = Some c" and IF: "\<not> eflags_IF (mach k)"
    by (auto simp: in_trap_def ready_def)
  show ?thesis
  proof (cases "c = 0")
    case False
    then show ?thesis using c IF by (simp add: timer_intr_def cpuid_def mycpu_ok)
  next
    case True
    define k1 where "k1 = k\<lparr>mach := acq_m L_ticks (mach k), ticks := ticks k + 1\<rparr>"
    define k2 where "k2 = (case cur k of Some j \<Rightarrow> if p_state (proc_at k j) = RUNNING then
        k1\<lparr>pt := pt k\<lparr>procs := upd_at j (\<lambda>p. p\<lparr>p_quantum := p_quantum p - 1\<rparr>) (procs (pt k))\<rparr>\<rparr> else k1 | None \<Rightarrow> k1)"
    have m: "ready (mach k)" "lock_free L_ticks (mach k)" "lock_free L_ptable (mach k)"
      "length (procs (pt k)) = NPROC" "\<And>j. cur k = Some j \<Longrightarrow> j < NPROC"
      using assms by (auto simp: in_trap_def wf_pt_def)
    have acq: "acquire L_ticks k = Ok () (k\<lparr>mach := acq_m L_ticks (mach k)\<rparr>)" using m by (simp add: acquire_ok)
    have k1: "ready (mach k1)" "sync_m (mach k1) = mach k1" "cur k1 = cur k" "pt k1 = pt k"
      using m by (simp_all add: k1_def lock_simps)
    have quantum: "bind (all_of [have_proc, my (\<lambda>p. p_state p = RUNNING)])
        (\<lambda>b. do_if b (set_my (\<lambda>p. p\<lparr>p_quantum := p_quantum p - 1\<rparr>))) k1 = Ok () k2"
      using k1 by (cases "cur k") (auto simp: k2_def my_simps)
    have k2: "mach k2 = mach k1" by (simp add: k2_def split: option.split)
    have "wakeup (Some Ch_ticks) k2 =
        Ok () (k2\<lparr>pt := pt k2\<lparr>procs := map (wake_proc (Some Ch_ticks)) (procs (pt k2))\<rparr>, mach := mach k1\<rparr>)"
      using m k1 k2 by (subst wakeup_ok) (simp_all add: k1_def lock_simps)
    then have run: "timer_intr k = Ok () (k2\<lparr>pt := pt k2\<lparr>procs := map (wake_proc (Some Ch_ticks)) (procs (pt k2))\<rparr>,
        mach := sync_m (mach k)\<rparr>)"
      using c IF acq quantum m k1
      by (simp add: timer_intr_def cpuid_def mycpu_ok True k1_def [symmetric] del: all_of.simps)
        (simp add: k1_def lock_simps)
    have "\<forall>j < NPROC. proc_at k2 j = (if cur k = Some j \<and> p_state (proc_at k j) = RUNNING
            then (proc_at k j)\<lparr>p_quantum := p_quantum (proc_at k j) - 1\<rparr> else proc_at k j)"
      and "length (procs (pt k2)) = NPROC" and "ticks k2 = ticks k + 1"
      using m(4,5) by (auto simp: k2_def k1_def nth_list_update split: option.split)
    then show ?thesis using run c True by simp
  qed
qed

theorem timer_tick_witness:
  "\<exists>k'. timer_intr expiry_example = Ok () k' \<and> ticks k' = 1 \<and> p_quantum (proc_at k' 0) = -1"
proof -
  have "here (mach expiry_example) = Some 0" by (simp add: expiry_example_def cold_defs here_def)
  with timer_tick [OF expiry_example_in_trap(1)] expiry_example_in_trap(2) obtain k' where
    "timer_intr expiry_example = Ok () k'" "ticks k' = ticks expiry_example + 1"
    "proc_at k' 0 = wake_proc (Some Ch_ticks) (if p_state (proc_at expiry_example 0) = RUNNING
       then (proc_at expiry_example 0)\<lparr>p_quantum := p_quantum (proc_at expiry_example 0) - 1\<rparr> else proc_at expiry_example 0)"
    by auto
  then show ?thesis by (simp add: expiry_example_def cold_defs wake_proc_def)
qed



end
