(* ===== verification/Sysproc.thy ===== *)
theory Sysproc
  imports Syscall
begin

text \<open>
  \<^verbatim>\<open>sysproc.c\<close> and \<^verbatim>\<open>prac_syscall.c\<close>: the system calls on processes, the scheduler
  and the clock.  A call that waits is cut where it sleeps, and \<open>sys_sleep_resume\<close> is what runs
  when it wakes up.
\<close>

definition sys_fork :: "uint \<Rightarrow> uint \<Rightarrow> int kop" where
  "sys_fork kdata kend = fork kdata kend"

definition sys_exit :: "uint \<Rightarrow> int kop" where
  "sys_exit kend = seq (exit kend) (ret 0)"

definition sys_wait :: "uint \<Rightarrow> int kop" where
  "sys_wait kend = wait kend"

definition sys_kill :: "int kop" where
  "sys_kill = need (argint 0) (\<lambda>pid. kill (sint pid))"

definition sys_getpid :: "int kop" where
  "sys_getpid = my p_pid"

definition sys_getgpid :: "int kop" where
  "sys_getgpid =
     bind (my p_parent) (\<lambda>par. deref par (\<lambda>i.
     bind (gets (\<lambda>k. p_parent (proc_at k i))) (\<lambda>gp.
     case gp of None \<Rightarrow> ret (-1) | Some j \<Rightarrow> gets (\<lambda>k. p_pid (proc_at k j)))))"

definition sys_sbrk :: "uint \<Rightarrow> int kop" where
  "sys_sbrk kend =
     need (argint 0) (\<lambda>n.
     bind (my p_sz) (\<lambda>addr.
     bind (growproc kend (sint n)) (\<lambda>r. ret (if r < 0 then -1 else sint addr))))"

text \<open>One round of the loop of \<^verbatim>\<open>sys_sleep()\<close>, with \<^verbatim>\<open>tickslock\<close> held.\<close>

definition sys_sleep_loop :: "uint \<Rightarrow> uint \<Rightarrow> int kop" where
  "sys_sleep_loop n ticks0 =
     bind (gets ticks) (\<lambda>t.
     if t - ticks0 < n then
       bind (my p_killed) (\<lambda>killed.
       if killed then seq (release L_ticks) (ret (-1))
       else seq (sleep Ch_ticks L_ticks) (ret 0))
     else seq (release L_ticks) (ret 0))"

definition sys_sleep :: "int kop" where
  "sys_sleep =
     need (argint 0) (\<lambda>n.
     seq (acquire L_ticks) (bind (gets ticks) (\<lambda>t0. sys_sleep_loop n t0)))"

definition sys_sleep_resume :: "uint \<Rightarrow> uint \<Rightarrow> int kop" where
  "sys_sleep_resume n ticks0 = seq (sleep_resume L_ticks) (sys_sleep_loop n ticks0)"

definition sys_uptime :: "int kop" where
  "sys_uptime = bind (with_lock L_ticks (gets ticks)) (\<lambda>x. ret (sint x))"

definition sys_yield :: "int kop" where
  "sys_yield = seq yield (ret 0)"

definition sys_getlev :: "int kop" where
  "sys_getlev = getlev"

definition sys_setpriority :: "int kop" where
  "sys_setpriority =
     need (argint 0) (\<lambda>pid. need (argint 1) (\<lambda>priority. setpriority (sint pid) (sint priority)))"

definition sys_setmonopoly :: "int kop" where
  "sys_setmonopoly =
     need (argint 0) (\<lambda>pid. need (argint 1) (\<lambda>password. setmonopoly (sint pid) (sint password)))"

definition sys_monopolize :: "int kop" where
  "sys_monopolize = seq monopolize (ret 0)"

definition sys_unmonopolize :: "int kop" where
  "sys_unmonopolize = seq unmonopolize (ret 0)"

text \<open>\<^verbatim>\<open>myfunction()\<close> of \<^verbatim>\<open>prac_syscall.c\<close> prints its argument, a diagnostic message,
  and returns a constant.\<close>

definition myfunction :: "uchar list \<Rightarrow> int kop" where
  "myfunction str = ret (sint (0xABCDABCD :: uint))"

definition sys_myfunction :: "int kop" where
  "sys_myfunction = need (argstr 0) myfunction"

end
