(* ===== verification/Exec.thy ===== *)
theory Exec
  imports Lifecycle
begin

unbundle bit_operations_syntax

text \<open>
  \<^verbatim>\<open>exec.c\<close> and \<^verbatim>\<open>loaduvm()\<close> of \<^verbatim>\<open>vm.c\<close>: replacing the memory of a process by a
  program.  The headers of \<^verbatim>\<open>elf.h\<close> are read from the bytes of the file.
\<close>

abbreviation MAXARG :: nat where "MAXARG \<equiv> 32"
abbreviation ELF_MAGIC :: uint where "ELF_MAGIC \<equiv> 0x464C457F"

record elfhdr =
  eh_magic :: uint
  eh_entry :: uint
  eh_phoff :: uint
  eh_phnum :: ushort

record proghdr =
  ph_type :: uint
  ph_off :: uint
  ph_vaddr :: uint
  ph_filesz :: uint
  ph_memsz :: uint

definition elf_of_bytes :: "uchar list \<Rightarrow> elfhdr" where
  "elf_of_bytes d = \<lparr>eh_magic = ld32 d 0, eh_entry = ld32 d 24, eh_phoff = ld32 d 28, eh_phnum = ld16 d 44\<rparr>"

definition ph_of_bytes :: "uchar list \<Rightarrow> proghdr" where
  "ph_of_bytes d = \<lparr>ph_type = ld32 d 0, ph_off = ld32 d 4, ph_vaddr = ld32 d 8, ph_filesz = ld32 d 16, ph_memsz = ld32 d 20\<rparr>"

section \<open>Loading\<close>

function loaduvm_loop :: "devsw \<Rightarrow> uint \<Rightarrow> uint \<Rightarrow> nat \<Rightarrow> uint \<Rightarrow> uint \<Rightarrow> uint \<Rightarrow> int kop" where
  "loaduvm_loop dv pgdir addr ip offset i sz =
     (if i < sz then
        bind (walkpgdir pgdir (addr + i) False) (\<lambda>pte.
        if pte = 0 then panic ''loaduvm: address should exist''
        else bind (load32 pte) (\<lambda>e.
          let n = (if sz - i < PGSIZE then sz - i else PGSIZE) in
          bind (readi dv ip (offset + i) n) (\<lambda>r.
          case r of
            None \<Rightarrow> ret (-1)
          | Some bs \<Rightarrow>
             seq (set_mem (\<lambda>m. put_bytes m (P2V (PTE_ADDR e)) bs))
             (if length bs \<noteq> unat n then ret (-1)
              else if i + PGSIZE \<le> i then undef ''address wraps''
              else loaduvm_loop dv pgdir addr ip offset (i + PGSIZE) sz))))
      else ret 0)"
  by pat_completeness auto
termination
  by (relation "measure (\<lambda>(dv, pgdir, addr, ip, offset, i, sz). unat sz - unat i)")
     (auto simp: word_less_nat_alt word_le_nat_alt not_le)

declare loaduvm_loop.simps [simp del]

definition loaduvm :: "devsw \<Rightarrow> uint \<Rightarrow> uint \<Rightarrow> nat \<Rightarrow> uint \<Rightarrow> uint \<Rightarrow> int kop" where
  "loaduvm dv pgdir addr ip offset sz =
     (if addr mod PGSIZE \<noteq> 0 then panic ''loaduvm: addr must be page aligned''
      else loaduvm_loop dv pgdir addr ip offset 0 sz)"

text \<open>
  The loop over the program headers, with the size of the image so far; \<open>None\<close> is the jump to
  \<^verbatim>\<open>bad\<close>.
\<close>

primrec exec_load :: "devsw \<Rightarrow> uint \<Rightarrow> uint \<Rightarrow> nat \<Rightarrow> nat \<Rightarrow> uint \<Rightarrow> uint \<Rightarrow> uint option kop" where
  "exec_load dv kend pgdir ip 0 off sz = ret (Some sz)"
| "exec_load dv kend pgdir ip (Suc n) off sz =
     bind (readi dv ip off 32) (\<lambda>r.
     case r of
       None \<Rightarrow> ret None
     | Some bs \<Rightarrow>
        if length bs \<noteq> 32 then ret None
        else let ph = ph_of_bytes bs in
          if ph_type ph \<noteq> 1 then exec_load dv kend pgdir ip n (off + 32) sz
          else if ph_memsz ph < ph_filesz ph then ret None
          else if ph_vaddr ph + ph_memsz ph < ph_vaddr ph then ret None
          else bind (allocuvm kend pgdir sz (ph_vaddr ph + ph_memsz ph)) (\<lambda>sz'.
            if sz' = 0 then ret None
            else if ph_vaddr ph mod PGSIZE \<noteq> 0 then ret None
            else bind (loaduvm dv pgdir (ph_vaddr ph) ip (ph_off ph) (ph_filesz ph)) (\<lambda>l.
              if l < 0 then ret None else exec_load dv kend pgdir ip n (off + 32) sz')))"

text \<open>
  The loop that pushes the argument strings: the final stack pointer and the addresses of the
  strings, in order.
\<close>

primrec exec_push :: "uint \<Rightarrow> uint \<Rightarrow> nat \<Rightarrow> uchar list list \<Rightarrow> (uint \<times> uint list) option kop" where
  "exec_push pgdir sp argc [] = ret (Some (sp, []))"
| "exec_push pgdir sp argc (s # argv) =
     (if argc \<ge> MAXARG then ret None
      else let sp' = (sp - (of_nat (length s) + 1)) AND NOT 3 in
        bind (copyout pgdir sp' (s @ [0])) (\<lambda>r.
        if r < 0 then ret None
        else bind (exec_push pgdir sp' (argc + 1) argv) (\<lambda>q.
          ret (map_option (\<lambda>(sp'', us). (sp'', sp' # us)) q))))"

definition ustack :: "uint \<Rightarrow> uint list \<Rightarrow> uint list" where
  "ustack sp us = [0xFFFFFFFF, of_nat (length us), sp - (of_nat (length us) + 1) * 4] @ us @ [0]"

definition word_bytes :: "uint \<Rightarrow> uchar list" where
  "word_bytes w = [byte_of w 0, byte_of w 1, byte_of w 2, byte_of w 3]"

text \<open>The last element of the path, as the loop over \<^verbatim>\<open>last\<close> and \<^verbatim>\<open>s\<close> finds it.\<close>

primrec last_elem :: "uchar list \<Rightarrow> uchar list \<Rightarrow> uchar list" where
  "last_elem l [] = l"
| "last_elem l (c # s) = last_elem (if c = 47 then s else l) s"

section \<open>The image of a program\<close>

text \<open>The label \<^verbatim>\<open>bad\<close>, reached before and after the file was closed.\<close>

definition exec_bad :: "uint \<Rightarrow> uint \<Rightarrow> nat option \<Rightarrow> int kop" where
  "exec_bad kend pgdir ip =
     seq (block
       [do_if (pgdir \<noteq> 0) (freevm kend pgdir),
        case ip of Some ip \<Rightarrow> block [iunlockput ip, end_op] | None \<Rightarrow> ret ()])
       (ret (-1))"

text \<open>From the allocation of the stack on.\<close>

definition exec_stack :: "uint \<Rightarrow> uint \<Rightarrow> uint \<Rightarrow> uint \<Rightarrow> uchar list \<Rightarrow> uchar list list \<Rightarrow> int kop" where
  "exec_stack kend pgdir sz0 entry path argv =
     (let sz1 = PGROUNDUP sz0 in
      bind (allocuvm kend pgdir sz1 (sz1 + 2 * PGSIZE)) (\<lambda>sz.
      if sz = 0 then exec_bad kend pgdir None
      else seq (clearpteu pgdir (sz - 2 * PGSIZE))
        (bind (exec_push pgdir sz 0 argv) (\<lambda>q.
         case q of
           None \<Rightarrow> exec_bad kend pgdir None
         | Some (sp0, us) \<Rightarrow>
            let sp = sp0 - (3 + of_nat (length us) + 1) * 4 in
            bind (copyout pgdir sp (concat (map word_bytes (ustack sp0 us)))) (\<lambda>r.
            if r < 0 then exec_bad kend pgdir None
            else bind myproc (\<lambda>p. deref p (\<lambda>i.
              bind (gets (\<lambda>k. p_pgdir (proc_at k i))) (\<lambda>oldpgdir.
              seq (block
                [set_proc i (\<lambda>q. q\<lparr>p_name := safestrcpy_l (p_name q) (last_elem path path) 16\<rparr>),
                 set_proc i (\<lambda>q. q\<lparr>p_pgdir := pgdir\<rparr>),
                 set_proc i (\<lambda>q. q\<lparr>p_sz := sz\<rparr>),
                 set_proc i (\<lambda>q. q\<lparr>p_tf := (p_tf q)\<lparr>tf_eip := entry, tf_esp := sp\<rparr>\<rparr>),
                 switchuvm (Some i),
                 freevm kend oldpgdir])
                (ret 0)))))))))"

definition exec :: "devsw \<Rightarrow> uint \<Rightarrow> uint \<Rightarrow> uchar list \<Rightarrow> uchar list list \<Rightarrow> int kop" where
  "exec dv kdata kend path argv =
     seq begin_op
     (bind (namei dv path) (\<lambda>r.
      case r of
        None \<Rightarrow> seq end_op (ret (-1))
      | Some ip \<Rightarrow>
         seq (ilock ip)
         (bind (readi dv ip 0 52) (\<lambda>h.
          case h of
            None \<Rightarrow> exec_bad kend 0 (Some ip)
          | Some bs \<Rightarrow>
             if length bs \<noteq> 52 then exec_bad kend 0 (Some ip)
             else let elf = elf_of_bytes bs in
               if eh_magic elf \<noteq> ELF_MAGIC then exec_bad kend 0 (Some ip)
               else bind (setupkvm kdata kend) (\<lambda>pgdir.
                 if pgdir = 0 then exec_bad kend 0 (Some ip)
                 else bind (exec_load dv kend pgdir ip (unat (eh_phnum elf)) (eh_phoff elf) 0) (\<lambda>l.
                   case l of
                     None \<Rightarrow> exec_bad kend pgdir (Some ip)
                   | Some sz \<Rightarrow>
                      seq (block [iunlockput ip, end_op])
                        (exec_stack kend pgdir sz (eh_entry elf) path argv)))))))"

end
