(* ===== verification/Sysfile.thy ===== *)
theory Sysfile
  imports Syscall Exec
begin

unbundle bit_operations_syntax

text \<open>
  \<^verbatim>\<open>sysfile.c\<close>: the system calls on files.  A buffer argument of \<^verbatim>\<open>read()\<close> and
  \<^verbatim>\<open>write()\<close> is copied between the user memory and a list of bytes in one piece.  \<^verbatim>\<open>short\<close>
  fields are 16-bit words and are compared as signed numbers where the code does that.
\<close>

section \<open>File descriptors\<close>

definition argfd :: "nat \<Rightarrow> (nat \<times> nat) option kop" where
  "argfd n =
     bind (argint n) (\<lambda>r.
     case r of
       None \<Rightarrow> ret None
     | Some w \<Rightarrow>
        let fd = sint w in
        if fd < 0 \<or> fd \<ge> int NOFILE then ret None
        else bind (my (\<lambda>p. p_ofile p ! nat fd)) (\<lambda>f. ret (map_option (Pair (nat fd)) f)))"

definition fdalloc :: "nat \<Rightarrow> nat option kop" where
  "fdalloc f =
     bind (my p_ofile) (\<lambda>fs.
     case find_idx (\<lambda>x. x = None) (take NOFILE fs) of
       None \<Rightarrow> ret None
     | Some fd \<Rightarrow> seq (set_my (\<lambda>p. p\<lparr>p_ofile := (p_ofile p)[fd := Some f]\<rparr>)) (ret (Some fd)))"

definition sys_dup :: "int kop" where
  "sys_dup =
     need (argfd 0) (\<lambda>(_, f).
     need (fdalloc f) (\<lambda>fd.
     bind (filedup f) (\<lambda>_. ret (int fd))))"

definition sys_read :: "devsw \<Rightarrow> int kop" where
  "sys_read dv =
     need (argfd 0) (\<lambda>(_, f).
     need (argint 2) (\<lambda>n.
     need (argptr 1 (sint n)) (\<lambda>p.
     need (fileread dv f (unat n)) (\<lambda>bs.
     seq (store_bytes p bs) (ret (int (length bs)))))))"

definition sys_write :: "devsw \<Rightarrow> int kop" where
  "sys_write dv =
     need (argfd 0) (\<lambda>(_, f).
     need (argint 2) (\<lambda>n.
     need (argptr 1 (sint n)) (\<lambda>p.
     bind (load_bytes (unat n) p) (filewrite dv f))))"

definition sys_close :: "uint \<Rightarrow> int kop" where
  "sys_close kend =
     need (argfd 0) (\<lambda>(fd, f).
     seq (block
       [set_my (\<lambda>p. p\<lparr>p_ofile := (p_ofile p)[fd := None]\<rparr>),
        fileclose kend f])
       (ret 0))"

text \<open>
  The fields of \<^verbatim>\<open>struct stat\<close> in the order \<^verbatim>\<open>stati()\<close> assigns them; the two bytes of
  padding after each of the short fields are not written.
\<close>

definition store_stat :: "uint \<Rightarrow> stat \<Rightarrow> unit kop" where
  "store_stat p st = block
     [store_bytes (p + 4) (st32 (replicate 4 0) 0 (st_dev st)),
      store_bytes (p + 8) (st32 (replicate 4 0) 0 (st_ino st)),
      store_bytes p (st16 (replicate 2 0) 0 (st_type st)),
      store_bytes (p + 12) (st16 (replicate 2 0) 0 (st_nlink st)),
      store_bytes (p + 16) (st32 (replicate 4 0) 0 (st_size st))]"

definition sys_fstat :: "int kop" where
  "sys_fstat =
     need (argfd 0) (\<lambda>(_, f).
     need (argptr 1 20) (\<lambda>p.
     need (filestat f) (\<lambda>st. seq (store_stat p st) (ret 0))))"

section \<open>Links and names\<close>

text \<open>The jump to \<^verbatim>\<open>bad\<close> in \<^verbatim>\<open>sys_link()\<close>.\<close>

definition link_bad :: "nat \<Rightarrow> int kop" where
  "link_bad ip =
     seq (block
       [ilock ip,
        set_inode ip (\<lambda>i. i\<lparr>i_nlink := i_nlink i - 1\<rparr>),
        iupdate ip,
        iunlockput ip,
        end_op])
       (ret (-1))"

definition sys_link :: "devsw \<Rightarrow> int kop" where
  "sys_link dv =
     need (argstr 0) (\<lambda>old.
     need (argstr 1) (\<lambda>new.
     seq begin_op
     (bind (namei dv old) (\<lambda>r.
      case r of
        None \<Rightarrow> seq end_op (ret (-1))
      | Some ip \<Rightarrow>
         seq (ilock ip)
         (bind (gets (\<lambda>k. i_type (inode_at k ip))) (\<lambda>t.
          if t = T_DIR then seq (block [iunlockput ip, end_op]) (ret (-1))
          else
            seq (block
              [set_inode ip (\<lambda>i. i\<lparr>i_nlink := i_nlink i + 1\<rparr>),
               iupdate ip,
               iunlock ip])
            (bind (nameiparent dv new) (\<lambda>r2.
             case r2 of
               None \<Rightarrow> link_bad ip
             | Some (dp, name) \<Rightarrow>
                seq (ilock dp)
                (bind (gets (\<lambda>k. (i_dev (inode_at k dp), i_dev (inode_at k ip), i_inum (inode_at k ip)))) (\<lambda>(ddev, idev, inum).
                 bind (if ddev \<noteq> idev then ret (-1) else dirlink dv dp name inum) (\<lambda>l.
                 if l < 0 then seq (iunlockput dp) (link_bad ip)
                 else seq (block [iunlockput dp, iput ip, end_op]) (ret 0))))))))))))"

definition isdirempty :: "devsw \<Rightarrow> nat \<Rightarrow> bool kop" where
  "isdirempty dv dp =
     bind (gets (\<lambda>k. i_size (inode_at k dp))) (\<lambda>sz.
     bind (scan_dir dv ''isdirempty: readi'' dp sz (\<lambda>de. de_inum de \<noteq> 0) (2 * 16)) (\<lambda>(off, r).
     ret (r = None)))"

definition ch :: "char \<Rightarrow> uchar" where
  "ch c = of_nat (of_char c)"

definition unlink_bad :: "nat \<Rightarrow> int kop" where
  "unlink_bad dp = seq (block [iunlockput dp, end_op]) (ret (-1))"

definition sys_unlink :: "devsw \<Rightarrow> int kop" where
  "sys_unlink dv =
     need (argstr 0) (\<lambda>path.
     seq begin_op
     (bind (nameiparent dv path) (\<lambda>r.
      case r of
        None \<Rightarrow> seq end_op (ret (-1))
      | Some (dp, name) \<Rightarrow>
         seq (ilock dp)
         (if namecmp name (map ch ''.'') = 0 \<or> namecmp name (map ch ''..'') = 0 then unlink_bad dp
          else bind (dirlookup dv dp name) (\<lambda>r2.
          case r2 of
            None \<Rightarrow> unlink_bad dp
          | Some (ip, off) \<Rightarrow>
             seq (ilock ip)
             (bind (gets (\<lambda>k. inode_at k ip)) (\<lambda>i.
              if sint (i_nlink i) < 1 then panic ''unlink: nlink < 1''
              else bind (if i_type i = T_DIR then isdirempty dv ip else ret True) (\<lambda>e.
              if \<not> e then seq (iunlockput ip) (unlink_bad dp)
              else bind (writei dv dp off (replicate 16 0)) (\<lambda>n.
              if n \<noteq> 16 then panic ''unlink: writei''
              else
                seq (block
                  [do_if (i_type i = T_DIR) (block
                     [set_inode dp (\<lambda>d. d\<lparr>i_nlink := i_nlink d - 1\<rparr>),
                      iupdate dp]),
                   iunlockput dp,
                   set_inode ip (\<lambda>i. i\<lparr>i_nlink := i_nlink i - 1\<rparr>),
                   iupdate ip,
                   iunlockput ip,
                   end_op])
                (ret 0))))))))))"

definition create_new :: "devsw \<Rightarrow> nat \<Rightarrow> uchar list \<Rightarrow> ushort \<Rightarrow> ushort \<Rightarrow> ushort \<Rightarrow> nat kop" where
  "create_new dv dp name type major minor =
     bind (gets (\<lambda>k. i_dev (inode_at k dp))) (\<lambda>dev.
     bind (ialloc dev type) (\<lambda>ip.
     seq (block
       [ilock ip,
        set_inode ip (\<lambda>i. i\<lparr>i_major := major\<rparr>),
        set_inode ip (\<lambda>i. i\<lparr>i_minor := minor\<rparr>),
        set_inode ip (\<lambda>i. i\<lparr>i_nlink := 1\<rparr>),
        iupdate ip,
        do_if (type = T_DIR) (block
          [set_inode dp (\<lambda>d. d\<lparr>i_nlink := i_nlink d + 1\<rparr>),
           iupdate dp,
           bind (gets (\<lambda>k. (i_inum (inode_at k ip), i_inum (inode_at k dp)))) (\<lambda>(inum, dnum).
             bind (dirlink dv ip (map ch ''.'') inum) (\<lambda>r1.
             bind (if r1 < 0 then ret r1 else dirlink dv ip (map ch ''..'') dnum) (\<lambda>r2.
             unless_panic (r2 \<ge> 0) ''create dots'')))]),
        bind (gets (\<lambda>k. i_inum (inode_at k ip))) (\<lambda>inum.
          bind (dirlink dv dp name inum) (\<lambda>r. unless_panic (r \<ge> 0) ''create: dirlink'')),
        iunlockput dp])
       (ret ip)))"

definition create :: "devsw \<Rightarrow> uchar list \<Rightarrow> ushort \<Rightarrow> ushort \<Rightarrow> ushort \<Rightarrow> nat option kop" where
  "create dv path type major minor =
     bind (nameiparent dv path) (\<lambda>r.
     case r of
       None \<Rightarrow> ret None
     | Some (dp, name) \<Rightarrow>
        seq (ilock dp)
        (bind (dirlookup dv dp name) (\<lambda>r2.
         case r2 of
           Some (ip, off) \<Rightarrow>
             seq (block [iunlockput dp, ilock ip])
             (bind (gets (\<lambda>k. i_type (inode_at k ip))) (\<lambda>t.
              if type = T_FILE \<and> t = T_FILE then ret (Some ip)
              else seq (iunlockput ip) (ret None)))
         | None \<Rightarrow> bind (create_new dv dp name type major minor) (\<lambda>ip. ret (Some ip)))))"

abbreviation O_WRONLY :: uint where "O_WRONLY \<equiv> 1"
abbreviation O_RDWR :: uint where "O_RDWR \<equiv> 2"
abbreviation O_CREATE :: uint where "O_CREATE \<equiv> 0x200"

text \<open>The inode that \<^verbatim>\<open>sys_open()\<close> opens, locked; \<open>None\<close> after the early returns.\<close>

definition open_inode :: "devsw \<Rightarrow> uchar list \<Rightarrow> uint \<Rightarrow> nat option kop" where
  "open_inode dv path omode =
     (if omode AND O_CREATE \<noteq> 0 then
        bind (create dv path T_FILE 0 0) (\<lambda>r.
        case r of None \<Rightarrow> seq end_op (ret None) | Some ip \<Rightarrow> ret (Some ip))
      else bind (namei dv path) (\<lambda>r.
        case r of
          None \<Rightarrow> seq end_op (ret None)
        | Some ip \<Rightarrow>
           seq (ilock ip)
           (bind (gets (\<lambda>k. i_type (inode_at k ip))) (\<lambda>t.
            if t = T_DIR \<and> omode \<noteq> 0 then seq (block [iunlockput ip, end_op]) (ret None)
            else ret (Some ip)))))"

definition sys_open :: "devsw \<Rightarrow> uint \<Rightarrow> int kop" where
  "sys_open dv kend =
     need (argstr 0) (\<lambda>path.
     need (argint 1) (\<lambda>omode.
     seq begin_op
     (need (open_inode dv path omode) (\<lambda>ip.
      bind filealloc (\<lambda>rf.
      bind (case rf of None \<Rightarrow> ret None | Some f \<Rightarrow> fdalloc f) (\<lambda>rfd.
      case rfd of
        None \<Rightarrow>
          seq (block
            [case rf of Some f \<Rightarrow> fileclose kend f | None \<Rightarrow> ret (),
             iunlockput ip,
             end_op])
            (ret (-1))
      | Some fd \<Rightarrow>
          seq (block
            [iunlock ip,
             end_op,
             set_file (the rf) (\<lambda>y. y\<lparr>f_type := FD_INODE, f_ip := Some ip, f_off := 0,
               f_readable := (omode AND O_WRONLY = 0),
               f_writable := (omode AND O_WRONLY \<noteq> 0 \<or> omode AND O_RDWR \<noteq> 0)\<rparr>)])
            (ret (int fd))))))))"

definition sys_mkdir :: "devsw \<Rightarrow> int kop" where
  "sys_mkdir dv =
     seq begin_op
     (bind (argstr 0) (\<lambda>a.
      bind (case a of None \<Rightarrow> ret None | Some path \<Rightarrow> create dv path T_DIR 0 0) (\<lambda>r.
      case r of
        None \<Rightarrow> seq end_op (ret (-1))
      | Some ip \<Rightarrow> seq (block [iunlockput ip, end_op]) (ret 0))))"

definition sys_mknod :: "devsw \<Rightarrow> int kop" where
  "sys_mknod dv =
     seq begin_op
     (bind (argstr 0) (\<lambda>a.
      bind (case a of None \<Rightarrow> ret None
        | Some path \<Rightarrow> bind (argint 1) (\<lambda>mj. case mj of None \<Rightarrow> ret None
            | Some major \<Rightarrow> bind (argint 2) (\<lambda>mn. case mn of None \<Rightarrow> ret None
                | Some minor \<Rightarrow> create dv path T_DEV (ucast major) (ucast minor)))) (\<lambda>r.
      case r of
        None \<Rightarrow> seq end_op (ret (-1))
      | Some ip \<Rightarrow> seq (block [iunlockput ip, end_op]) (ret 0))))"

definition sys_chdir :: "devsw \<Rightarrow> int kop" where
  "sys_chdir dv =
     seq begin_op
     (bind (argstr 0) (\<lambda>a.
      bind (case a of None \<Rightarrow> ret None | Some path \<Rightarrow> namei dv path) (\<lambda>r.
      case r of
        None \<Rightarrow> seq end_op (ret (-1))
      | Some ip \<Rightarrow>
         seq (ilock ip)
         (bind (gets (\<lambda>k. i_type (inode_at k ip))) (\<lambda>t.
          if t \<noteq> T_DIR then seq (block [iunlockput ip, end_op]) (ret (-1))
          else seq (block
            [iunlock ip,
             bind (my p_cwd) (\<lambda>cwd. deref cwd iput),
             end_op,
             set_my (\<lambda>p. p\<lparr>p_cwd := Some ip\<rparr>)])
            (ret 0))))))"

text \<open>The loop that fetches the argument vector; \<open>None\<close> stands for its early returns.\<close>

function fetch_argv :: "uint \<Rightarrow> nat \<Rightarrow> uchar list list option kop" where
  "fetch_argv uargv i =
     (if i \<ge> MAXARG then ret None
      else bind (fetchint (uargv + 4 * of_nat i)) (\<lambda>r.
      case r of
        None \<Rightarrow> ret None
      | Some uarg \<Rightarrow>
         if uarg = 0 then ret (Some [])
         else bind (fetchstr uarg) (\<lambda>r2.
         case r2 of
           None \<Rightarrow> ret None
         | Some s \<Rightarrow> bind (fetch_argv uargv (i + 1)) (\<lambda>rest_args. ret (map_option (Cons s) rest_args)))))"
  by pat_completeness auto
termination
  by (relation "measure (\<lambda>(uargv, i). MAXARG - i)") auto

declare fetch_argv.simps [simp del]

definition sys_exec :: "devsw \<Rightarrow> uint \<Rightarrow> uint \<Rightarrow> int kop" where
  "sys_exec dv kdata kend =
     need (argstr 0) (\<lambda>path.
     need (argint 1) (\<lambda>uargv.
     need (fetch_argv uargv 0) (\<lambda>argv. exec dv kdata kend path argv)))"

definition sys_pipe :: "uint \<Rightarrow> int kop" where
  "sys_pipe kend =
     need (argptr 0 8) (\<lambda>fd.
     need (pipealloc kend) (\<lambda>(rf, wf).
     bind (fdalloc rf) (\<lambda>r0.
     bind (case r0 of None \<Rightarrow> ret None | Some fd0 \<Rightarrow> fdalloc wf) (\<lambda>r1.
     case r1 of
       None \<Rightarrow>
         seq (block
           [case r0 of Some fd0 \<Rightarrow> set_my (\<lambda>p. p\<lparr>p_ofile := (p_ofile p)[fd0 := None]\<rparr>) | None \<Rightarrow> ret (),
            fileclose kend rf,
            fileclose kend wf])
           (ret (-1))
     | Some fd1 \<Rightarrow>
         seq (block
           [store_bytes fd (st32 [0, 0, 0, 0] 0 (of_nat (the r0))),
            store_bytes (fd + 4) (st32 [0, 0, 0, 0] 0 (of_nat fd1))])
           (ret 0)))))"

end
