(* ===== verification/Console.thy ===== *)
theory Console
  imports Fs Ring
begin

unbundle bit_operations_syntax

text \<open>
  \<^verbatim>\<open>console.c\<close>, with \<^verbatim>\<open>uartputc()\<close> and \<^verbatim>\<open>uartintr()\<close> of \<^verbatim>\<open>uart.c\<close>:
  output to the screen and the serial port, and the input line that the keyboard and the serial port
  fill.  What a device delivers during one interrupt is the list of values its \<^verbatim>\<open>getc\<close> returns
  before it returns \<^verbatim>\<open>-1\<close>.  The time \<^verbatim>\<open>uartputc()\<close> waits for the port is not modelled, and
  \<^verbatim>\<open>procdump()\<close>, which only prints, is left out.
\<close>

section \<open>Output\<close>

abbreviation BACKSPACE :: int where "BACKSPACE \<equiv> 256"

definition set_cons :: "(console \<Rightarrow> console) \<Rightarrow> unit kop" where
  "set_cons f = modify (\<lambda>k. k\<lparr>cons := f (cons k)\<rparr>)"

lemma set_cons_apply [simp, op_simps]: "set_cons f k = Ok () (k\<lparr>cons := f (cons k)\<rparr>)"
  by (simp add: set_cons_def)

definition uartputc :: "int \<Rightarrow> unit kop" where
  "uartputc c = bind (gets (\<lambda>k. uart (cons k))) (\<lambda>u.
     do_if u (set_cons (\<lambda>x. x\<lparr>uart_out := uart_out x @ [of_int c]\<rparr>)))"

text \<open>Scrolling the screen up by one line, and clearing it from \<open>pos\<close> to the end of row 23.\<close>

definition scroll_up :: "nat \<Rightarrow> (nat \<Rightarrow> ushort) \<Rightarrow> nat \<Rightarrow> ushort" where
  "scroll_up pos m = (let m' = (\<lambda>i. if i < 23 * 80 then m (i + 80) else m i)
     in (\<lambda>i. if pos \<le> i \<and> i < 24 * 80 then 0 else m' i))"

definition cgaputc :: "int \<Rightarrow> unit kop" where
  "cgaputc c =
     bind (gets (\<lambda>k. crt_pos (cons k))) (\<lambda>pos0.
     bind (if c = 10 then ret (pos0 + (80 - pos0 mod 80))
           else if c = BACKSPACE then ret (if pos0 > 0 then pos0 - 1 else pos0)
           else seq (set_cons (\<lambda>x. x\<lparr>crt := (crt x)(pos0 := (of_int c AND 0xFF) OR 0x0700)\<rparr>)) (ret (pos0 + 1))) (\<lambda>pos1.
     if pos1 > 25 * 80 then panic ''pos under/overflow''
     else bind (if pos1 div 80 \<ge> 24
                then seq (set_cons (\<lambda>x. x\<lparr>crt := scroll_up (pos1 - 80) (crt x)\<rparr>)) (ret (pos1 - 80))
                else ret pos1) (\<lambda>pos.
     block
       [set_cons (\<lambda>x. x\<lparr>crt_pos := pos\<rparr>),
        set_cons (\<lambda>x. x\<lparr>crt := (crt x)(pos := 32 OR 0x0700)\<rparr>)])))"

definition consputc :: "int \<Rightarrow> unit kop" where
  "consputc c =
     bind (gets (\<lambda>k. cs_panicked (cons k))) (\<lambda>p.
     if p then spin
     else block
       [if c = BACKSPACE then block [uartputc 8, uartputc 32, uartputc 8] else uartputc c,
        cgaputc c])"

text \<open>
  The digits of \<open>x\<close> from the last to the first, as the loop of \<^verbatim>\<open>printint()\<close> stores them.  The
  base is 10 or 16; no loop with a base below 2 ends.
\<close>

function digits_rev :: "nat \<Rightarrow> nat \<Rightarrow> nat list" where
  "digits_rev base x = (x mod base) # (if base < 2 \<or> x div base = 0 then [] else digits_rev base (x div base))"
  by pat_completeness auto
termination
proof (relation "measure (\<lambda>(base, x). x)", goal_cases)
  case (2 base x)
  then have "1 < base" "0 < x" by (auto intro: ccontr)
  then show ?case by simp
qed simp

declare digits_rev.simps [simp del]

definition digit :: "nat \<Rightarrow> uchar" where
  "digit d = (if d < 10 then 48 + of_nat d else 87 + of_nat d)"

definition printint_chars :: "uint \<Rightarrow> nat \<Rightarrow> bool \<Rightarrow> uchar list" where
  "printint_chars xx base sign =
     (let neg = sign \<and> sint xx < 0; x = (if neg then - xx else xx)
      in rev (map digit (digits_rev base (unat x)) @ (if neg then [45] else [])))"

definition putchars :: "uchar list \<Rightarrow> unit kop" where
  "putchars cs = for_each cs (\<lambda>c. consputc (uint c))"

definition printint :: "uint \<Rightarrow> nat \<Rightarrow> bool \<Rightarrow> unit kop" where
  "printint xx base sign = putchars (printint_chars xx base sign)"

text \<open>An argument of \<^verbatim>\<open>cprintf()\<close>: a number, or a string that may be a null pointer.\<close>

datatype carg = A_int uint | A_str "uchar list option"

fun cprintf_loop :: "uchar list \<Rightarrow> carg list \<Rightarrow> unit kop" where
  "cprintf_loop [] args = ret ()"
| "cprintf_loop (c # fmt) args =
     (if c \<noteq> 37 then seq (consputc (uint c)) (cprintf_loop fmt args)
      else case fmt of
        [] \<Rightarrow> ret ()
      | d # fmt' \<Rightarrow>
         if d = 100 then
           (case args of A_int x # args' \<Rightarrow> seq (printint x 10 True) (cprintf_loop fmt' args') | _ \<Rightarrow> undef ''missing argument'')
         else if d = 120 \<or> d = 112 then
           (case args of A_int x # args' \<Rightarrow> seq (printint x 16 False) (cprintf_loop fmt' args') | _ \<Rightarrow> undef ''missing argument'')
         else if d = 115 then
           (case args of
              A_str s # args' \<Rightarrow> seq (putchars (case s of None \<Rightarrow> map (\<lambda>c. of_nat (of_char c)) ''(null)'' | Some t \<Rightarrow> t)) (cprintf_loop fmt' args')
            | _ \<Rightarrow> undef ''missing argument'')
         else if d = 37 then seq (consputc 37) (cprintf_loop fmt' args)
         else seq (block [consputc 37, consputc (uint d)]) (cprintf_loop fmt' args))"

definition cprintf :: "uchar list \<Rightarrow> carg list \<Rightarrow> unit kop" where
  "cprintf fmt args =
     bind (gets (\<lambda>k. cs_locking (cons k))) (\<lambda>locking. block
       [do_if locking (acquire L_cons),
        cprintf_loop fmt args,
        do_if locking (release L_cons)])"

section \<open>Input\<close>

abbreviation INPUT_BUF :: nat where "INPUT_BUF \<equiv> 128"

definition in_at :: "console \<Rightarrow> uint \<Rightarrow> uchar" where
  "in_at x i = in_buf x ! unat (i mod of_nat INPUT_BUF)"

text \<open>
  The loop that kills the line.  It runs until \<^verbatim>\<open>input.e\<close> has come down to \<^verbatim>\<open>input.w\<close> or
  to a newline, so at most \<open>unat (in_e x - in_w x)\<close> times.
\<close>

primrec kill_line :: "nat \<Rightarrow> unit kop" where
  "kill_line 0 = ret ()"
| "kill_line (Suc n) =
     bind (gets cons) (\<lambda>x.
     if in_e x \<noteq> in_w x \<and> in_at x (in_e x - 1) \<noteq> 10 then
       block [set_cons (\<lambda>x. x\<lparr>in_e := in_e x - 1\<rparr>), consputc BACKSPACE, kill_line n]
     else ret ())"

definition input_char :: "uchar \<Rightarrow> unit kop" where
  "input_char c0 =
     bind (gets cons) (\<lambda>x.
     do_if (c0 \<noteq> 0 \<and> in_e x - in_r x < of_nat INPUT_BUF)
       (let c = (if c0 = 13 then 10 else c0) in block
         [set_cons (\<lambda>x. x\<lparr>in_buf := (in_buf x)[unat (in_e x mod of_nat INPUT_BUF) := c], in_e := in_e x + 1\<rparr>),
          consputc (uint c),
          bind (gets cons) (\<lambda>x.
            do_if (c = 10 \<or> c = 4 \<or> in_e x = in_r x + of_nat INPUT_BUF) (block
              [set_cons (\<lambda>x. x\<lparr>in_w := in_e x\<rparr>),
               wakeup (Some Ch_input)]))]))"

text \<open>One turn of the loop of \<^verbatim>\<open>consoleintr()\<close>; control-P asks for a process listing.\<close>

definition console_char :: "uchar \<Rightarrow> unit kop" where
  "console_char c =
     (if c = 16 then ret ()
      else if c = 21 then bind (gets cons) (\<lambda>x. kill_line (unat (in_e x - in_w x)))
      else if c = 8 \<or> c = 127 then
        bind (gets cons) (\<lambda>x. do_if (in_e x \<noteq> in_w x) (block
          [set_cons (\<lambda>x. x\<lparr>in_e := in_e x - 1\<rparr>), consputc BACKSPACE]))
      else input_char c)"

definition consoleintr :: "uchar list \<Rightarrow> unit kop" where
  "consoleintr cs = block [acquire L_cons, for_each cs console_char, release L_cons]"

definition uartintr :: "uchar list \<Rightarrow> unit kop" where
  "uartintr cs = bind (gets (\<lambda>k. uart (cons k))) (\<lambda>u. consoleintr (if u then cs else []))"

text \<open>
  The loop of \<^verbatim>\<open>consoleread()\<close>, which has \<open>got\<close> some bytes of the \<open>n\<close> it was asked for.
  A wait ends the first part, and \<open>consoleread_resume\<close> continues after it.  The bytes reach the
  caller's buffer when the call returns; a killed process gets none.
\<close>

definition consoleread_done :: "nat \<Rightarrow> uchar list \<Rightarrow> uchar list option kop" where
  "consoleread_done ip got = seq (block [release L_cons, ilock ip]) (ret (Some got))"

function consoleread_loop :: "nat \<Rightarrow> nat \<Rightarrow> uchar list \<Rightarrow> uchar list option kop" where
  "consoleread_loop ip n got =
     (if length got < n then
        bind (gets cons) (\<lambda>x.
        if in_r x = in_w x then
          bind (my p_killed) (\<lambda>killed.
          if killed then seq (block [release L_cons, ilock ip]) (ret None)
          else seq (sleep Ch_input L_cons) (ret None))
        else
          let c = in_at x (in_r x) in
          seq (set_cons (\<lambda>x. x\<lparr>in_r := in_r x + 1\<rparr>))
          (if c = 4 then
             seq (do_if (got \<noteq> []) (set_cons (\<lambda>x. x\<lparr>in_r := in_r x - 1\<rparr>))) (consoleread_done ip got)
           else if c = 10 then consoleread_done ip (got @ [c])
           else consoleread_loop ip n (got @ [c])))
      else consoleread_done ip got)"
  by pat_completeness auto
termination
  by (relation "measure (\<lambda>(ip, n, got). n - length got)") auto

declare consoleread_loop.simps [simp del]

definition consoleread :: "nat \<Rightarrow> nat \<Rightarrow> uchar list option kop" where
  "consoleread ip n = seq (block [iunlock ip, acquire L_cons]) (consoleread_loop ip n [])"

definition consoleread_resume :: "nat \<Rightarrow> nat \<Rightarrow> uchar list \<Rightarrow> uchar list option kop" where
  "consoleread_resume ip n got = seq (sleep_resume L_cons) (consoleread_loop ip n got)"

definition consolewrite :: "nat \<Rightarrow> uchar list \<Rightarrow> int kop" where
  "consolewrite ip buf =
     seq (block [iunlock ip, acquire L_cons, putchars buf, release L_cons, ilock ip]) (ret (int (length buf)))"

definition consoleinit :: "unit kop" where
  "consoleinit = block [initlock L_cons ''console'', set_cons (\<lambda>x. x\<lparr>cs_locking := True\<rparr>)]"

text \<open>The device table that \<^verbatim>\<open>consoleinit()\<close> leaves.\<close>

definition console_devsw :: devsw where
  "console_devsw = \<lparr>dv_read = (\<lambda>mj. if mj = 1 then Some consoleread else None),
     dv_write = (\<lambda>mj. if mj = 1 then Some consolewrite else None)\<rparr>"

section \<open>The screen\<close>

text \<open>The cursor is in the first 24 rows, and no CPU has panicked.\<close>

definition screen_ok :: "console \<Rightarrow> bool" where
  "screen_ok x \<longleftrightarrow> crt_pos x < 24 * 80 \<and> \<not> cs_panicked x"

definition input_of :: "console \<Rightarrow> uchar list \<times> uint \<times> uint \<times> uint" where
  "input_of x = (in_buf x, in_r x, in_w x, in_e x)"

text \<open>What goes out on the serial line for one call of \<^verbatim>\<open>consputc()\<close>.\<close>

definition uart_bytes :: "int \<Rightarrow> uchar list" where
  "uart_bytes c = (if c = BACKSPACE then [8, 32, 8] else [of_int c])"

text \<open>
  What output may change: the screen inside its first 24 rows, and what was sent to the serial port.
\<close>

definition printed :: "uchar list \<Rightarrow> console \<Rightarrow> console \<Rightarrow> bool" where
  "printed out x x' \<longleftrightarrow> screen_ok x' \<and> input_of x' = input_of x \<and> uart x' = uart x \<and> cs_locking x' = cs_locking x \<and>
     kbd_shift x' = kbd_shift x \<and>
     uart_out x' = uart_out x @ (if uart x then out else []) \<and> (\<forall>i \<ge> 24 * 80. crt x' i = crt x i)"

lemma printed_trans: "printed a x y \<Longrightarrow> printed b y z \<Longrightarrow> printed (a @ b) x z"
  by (auto simp: printed_def)

lemma newline_pos: "(pos :: nat) < 1920 \<Longrightarrow> pos + (80 - pos mod 80) \<le> 1920"
proof -
  assume "pos < 1920"
  then have "pos div 80 < 24" by (simp add: div_less_iff_less_mult)
  moreover have "pos mod 80 < 80" "80 * (pos div 80) + pos mod 80 = pos" by simp_all
  ultimately show ?thesis by linarith
qed

text \<open>\<^verbatim>\<open>cgaputc()\<close> from the moment it has moved the cursor.\<close>

definition cga_cursor :: "nat \<Rightarrow> unit kop" where
  "cga_cursor pos1 =
     (if pos1 > 25 * 80 then panic ''pos under/overflow''
      else bind (if pos1 div 80 \<ge> 24
                 then seq (set_cons (\<lambda>x. x\<lparr>crt := scroll_up (pos1 - 80) (crt x)\<rparr>)) (ret (pos1 - 80))
                 else ret pos1) (\<lambda>pos.
      block
        [set_cons (\<lambda>x. x\<lparr>crt_pos := pos\<rparr>),
         set_cons (\<lambda>x. x\<lparr>crt := (crt x)(pos := 32 OR 0x0700)\<rparr>)]))"

lemma cga_cursor_ok:
  assumes "pos \<le> 1920" and "\<not> cs_panicked (cons k)"
  shows "\<exists>x. cga_cursor pos k = Ok () (k\<lparr>cons := x\<rparr>) \<and> printed [] (cons k) x"
proof (cases "pos = 1920")
  case True
  have "cga_cursor 1920 k = Ok () (k\<lparr>cons := (cons k)\<lparr>crt := (scroll_up 1840 (crt (cons k)))(1840 := 32 OR 0x0700), crt_pos := 1840\<rparr>\<rparr>)"
    by (simp add: cga_cursor_def)
  with True assms(2) show ?thesis by (auto simp: printed_def screen_ok_def input_of_def scroll_up_def)
next
  case False
  with assms(1) have "pos < 1920" by simp
  then have "\<not> 24 \<le> pos div 80" "\<not> 25 * 80 < pos" by (simp_all add: div_less_iff_less_mult not_le)
  then have "cga_cursor pos k = Ok () (k\<lparr>cons := (cons k)\<lparr>crt := (crt (cons k))(pos := 32 OR 0x0700), crt_pos := pos\<rparr>\<rparr>)"
    by (simp add: cga_cursor_def)
  with \<open>pos < 1920\<close> assms(2) show ?thesis by (auto simp: printed_def screen_ok_def input_of_def)
qed

lemma cgaputc_ok:
  assumes "screen_ok (cons k)"
  shows "\<exists>x. cgaputc c k = Ok () (k\<lparr>cons := x\<rparr>) \<and> printed [] (cons k) x"
proof -
  let ?p = "crt_pos (cons k)" and ?y = "(cons k)\<lparr>crt := (crt (cons k))(crt_pos (cons k) := (of_int c AND 0xFF) OR 0x0700)\<rparr>"
  have p: "?p < 1920" "\<not> cs_panicked (cons k)" using assms by (simp_all add: screen_ok_def)
  have y: "printed [] (cons k) ?y" using p by (auto simp: printed_def screen_ok_def input_of_def)
  consider "c = 10" | "c = BACKSPACE" | "c \<noteq> 10" "c \<noteq> BACKSPACE" by blast
  then show ?thesis
  proof cases
    case 1
    then have "cgaputc c k = cga_cursor (?p + (80 - ?p mod 80)) k" by (simp add: cgaputc_def cga_cursor_def)
    with cga_cursor_ok [OF newline_pos [OF p(1)] p(2)] show ?thesis by simp
  next
    case 2
    then have "cgaputc c k = cga_cursor (?p - 1) k" by (simp add: cgaputc_def cga_cursor_def)
    with cga_cursor_ok [of "?p - 1" k] p show ?thesis by simp
  next
    case 3
    then have "cgaputc c k = cga_cursor (?p + 1) (k\<lparr>cons := ?y\<rparr>)" by (simp add: cgaputc_def cga_cursor_def)
    moreover obtain x where "cga_cursor (?p + 1) (k\<lparr>cons := ?y\<rparr>) = Ok () (k\<lparr>cons := x\<rparr>)" "printed [] ?y x"
      using cga_cursor_ok [of "?p + 1" "k\<lparr>cons := ?y\<rparr>"] p by auto
    moreover from printed_trans [OF y this(2)] have "printed [] (cons k) x" by simp
    ultimately show ?thesis by auto
  qed
qed

lemma uartputc_ok:
  "uartputc c k = Ok () (k\<lparr>cons := (cons k)\<lparr>uart_out := uart_out (cons k) @ (if uart (cons k) then [of_int c] else [])\<rparr>\<rparr>)"
  by (simp add: uartputc_def)

lemma consputc_ok:
  assumes "screen_ok (cons k)"
  shows "\<exists>x. consputc c k = Ok () (k\<lparr>cons := x\<rparr>) \<and> printed (uart_bytes c) (cons k) x"
proof -
  let ?y = "(cons k)\<lparr>uart_out := uart_out (cons k) @ (if uart (cons k) then uart_bytes c else [])\<rparr>"
  have y: "printed (uart_bytes c) (cons k) ?y" using assms by (simp add: printed_def screen_ok_def input_of_def)
  have "consputc c k = cgaputc c (k\<lparr>cons := ?y\<rparr>)"
    using assms by (simp add: consputc_def uartputc_ok screen_ok_def uart_bytes_def split: res.split)
  moreover have "screen_ok ?y" using y by (simp add: printed_def)
  then obtain x where "cgaputc c (k\<lparr>cons := ?y\<rparr>) = Ok () (k\<lparr>cons := x\<rparr>)" "printed [] ?y x"
    using cgaputc_ok [of "k\<lparr>cons := ?y\<rparr>" c] by auto
  moreover from printed_trans [OF y this(2)] have "printed (uart_bytes c) (cons k) x" by simp
  ultimately show ?thesis by auto
qed

lemma putchars_ok:
  "screen_ok (cons k) \<Longrightarrow> \<exists>x. putchars cs k = Ok () (k\<lparr>cons := x\<rparr>) \<and> printed cs (cons k) x"
proof (induction cs arbitrary: k)
  case Nil
  then have "printed [] (cons k) (cons k)" by (simp add: printed_def)
  then show ?case by (intro exI [of _ "cons k"]) (simp add: putchars_def)
next
  case (Cons c cs)
  from consputc_ok [OF Cons.prems, of "uint c"] obtain x where
    x: "consputc (uint c) k = Ok () (k\<lparr>cons := x\<rparr>)" "printed (uart_bytes (uint c)) (cons k) x" by auto
  have "uint c < 2 ^ LENGTH(8)" by (rule unsigned_less)
  then have "uart_bytes (uint c) = [c]" by (simp add: uart_bytes_def)
  from x(2) have "screen_ok (cons (k\<lparr>cons := x\<rparr>))" by (simp add: printed_def)
  from Cons.IH [OF this] obtain z where "putchars cs (k\<lparr>cons := x\<rparr>) = Ok () (k\<lparr>cons := z\<rparr>)" "printed cs x z" by auto
  moreover from printed_trans [OF x(2) this(2)] \<open>uart_bytes (uint c) = [c]\<close> have "printed (c # cs) (cons k) z" by simp
  ultimately show ?case using x(1) by (auto simp: putchars_def)
qed

section \<open>The input line\<close>

text \<open>
  The input as its readers and the person typing see it: the lines that \<^verbatim>\<open>consoleread()\<close> may
  take, and the line being typed.
\<close>

definition committed :: "console \<Rightarrow> uchar list" where
  "committed x = ring INPUT_BUF (in_buf x) (in_r x) (in_w x)"

definition typing :: "console \<Rightarrow> uchar list" where
  "typing x = ring INPUT_BUF (in_buf x) (in_w x) (in_e x)"

definition in_inv :: "console \<Rightarrow> bool" where
  "in_inv x \<longleftrightarrow> length (in_buf x) = INPUT_BUF \<and> length (committed x) + length (typing x) \<le> INPUT_BUF \<and>
     10 \<notin> set (typing x)"

text \<open>What one character typed does to a pair of finished lines and the line being typed.\<close>

definition edit_line :: "uchar \<Rightarrow> uchar list \<times> uchar list \<Rightarrow> uchar list \<times> uchar list" where
  "edit_line c0 = (\<lambda>(cm, ed).
     if c0 = 16 then (cm, ed)
     else if c0 = 21 then (cm, [])
     else if c0 = 8 \<or> c0 = 127 then (cm, butlast ed)
     else if c0 \<noteq> 0 \<and> length cm + length ed < INPUT_BUF then
       let c = (if c0 = 13 then 10 else c0) in
       if c = 10 \<or> c = 4 \<or> length cm + length ed + 1 = INPUT_BUF then (cm @ ed @ [c], []) else (cm, ed @ [c])
     else (cm, ed))"

lemma input_of_eq:
  assumes "input_of y = input_of x"
  shows "committed y = committed x" and "typing y = typing x" and "in_inv y = in_inv x"
    and "in_buf y = in_buf x" and "in_r y = in_r x" and "in_w y = in_w x" and "in_e y = in_e x"
  using assms by (simp_all add: input_of_def committed_def typing_def in_inv_def)

lemma in_total:
  assumes "in_inv x"
  shows "unat (in_e x - in_r x) = length (committed x) + length (typing x)"
  using assms unat_cut [of "in_w x" "in_r x" "in_e x"] by (simp add: in_inv_def committed_def typing_def)

lemma erase_line:
  assumes "in_inv x" and "in_e x \<noteq> in_w x"
  shows "in_inv (x\<lparr>in_e := in_e x - 1\<rparr>)" and "committed (x\<lparr>in_e := in_e x - 1\<rparr>) = committed x"
    and "typing (x\<lparr>in_e := in_e x - 1\<rparr>) = butlast (typing x)" and "in_at x (in_e x - 1) \<noteq> 10"
    and "unat (in_e x - 1 - in_w x) = unat (in_e x - in_w x) - 1"
proof -
  note b = ring_butlast [OF slots_128 assms(2)]
  show t: "typing (x\<lparr>in_e := in_e x - 1\<rparr>) = butlast (typing x)" by (simp add: typing_def b)
  show c: "committed (x\<lparr>in_e := in_e x - 1\<rparr>) = committed x" by (simp add: committed_def)
  show "in_inv (x\<lparr>in_e := in_e x - 1\<rparr>)"
    unfolding in_inv_def t c using assms(1) by (auto simp: in_inv_def dest: in_set_butlastD)
  show "unat (in_e x - 1 - in_w x) = unat (in_e x - in_w x) - 1" by (rule b(2))
  have "unat (in_e x - in_w x) \<noteq> 0" using assms(2) by (simp add: unat_eq_zero)
  moreover have "unat (in_e x - in_w x) \<le> 128" using assms(1) by (simp add: in_inv_def typing_def)
  ultimately have "unat (in_e x - 1 - in_w x) < 128" unfolding b(2) by simp
  from ring_snoc(1) [OF slots_128 this, of "in_buf x"]
  have "in_buf x ! (unat (in_e x - 1) mod 128) \<in> set (typing x)" by (simp add: typing_def)
  then show "in_at x (in_e x - 1) \<noteq> 10" using assms(1) by (auto simp: in_inv_def in_at_def unat_mod)
qed

lemma store_line:
  fixes x c
  defines "y \<equiv> x\<lparr>in_buf := (in_buf x)[unat (in_e x mod of_nat INPUT_BUF) := c], in_e := in_e x + 1\<rparr>"
  assumes "in_inv x" and "length (committed x) + length (typing x) < INPUT_BUF"
  shows "committed y = committed x" and "typing y = typing x @ [c]"
    and "ring INPUT_BUF (in_buf y) (in_r y) (in_e y) = committed x @ typing x @ [c]"
    and "unat (in_e y - in_r y) = length (committed x) + length (typing x) + 1"
proof -
  have len: "length (in_buf x) = 128" using assms(2) by (simp add: in_inv_def)
  have er: "unat (in_e x - in_r x) = length (committed x) + length (typing x)" by (rule in_total [OF assms(2)])
  have ew: "unat (in_e x - in_w x) < 128" using assms(3) by (simp add: typing_def)
  have le: "unat (in_w x - in_r x) \<le> unat (in_e x - in_r x)" "unat (in_e x - in_r x) < 128"
    using er assms(3) by (simp_all add: committed_def)
  show c: "committed y = committed x"
    using ring_store_other [OF slots_128 le, of "in_buf x" c] by (simp add: y_def committed_def unat_mod)
  show t: "typing y = typing x @ [c]"
    using ring_put [OF slots_128 ew len, of c] by (simp add: y_def typing_def unat_mod)
  show n: "unat (in_e y - in_r y) = length (committed x) + length (typing x) + 1"
    using ring_snoc(2) [OF slots_128 le(2)] er by (simp add: y_def)
  have "unat (in_w y - in_r y) + unat (in_e y - in_w y) < 2 ^ 32"
    using arg_cong [OF c, of length] arg_cong [OF t, of length] assms(3) by (simp add: committed_def typing_def)
  from ring_append [OF slots_128 this, of "in_buf y"]
  show "ring INPUT_BUF (in_buf y) (in_r y) (in_e y) = committed x @ typing x @ [c]"
    using c t by (simp add: committed_def typing_def)
qed

lemma kill_line_ok:
  "screen_ok (cons k) \<Longrightarrow> in_inv (cons k) \<Longrightarrow> n = unat (in_e (cons k) - in_w (cons k)) \<Longrightarrow>
   \<exists>x. kill_line n k = Ok () (k\<lparr>cons := x\<rparr>) \<and> screen_ok x \<and> in_inv x \<and> committed x = committed (cons k) \<and> typing x = []"
proof (induction n arbitrary: k)
  case 0
  then have "typing (cons k) = []" by (auto simp: typing_def unat_eq_zero)
  with 0 show ?case by (intro exI [of _ "cons k"]) simp
next
  case (Suc n)
  let ?x = "cons k"
  let ?y = "?x\<lparr>in_e := in_e ?x - 1\<rparr>"
  have ne: "in_e ?x \<noteq> in_w ?x" using Suc.prems(3) by auto
  note e = erase_line [OF Suc.prems(2) ne]
  have "screen_ok ?y" using Suc.prems(1) by (simp add: screen_ok_def)
  with consputc_ok [of "k\<lparr>cons := ?y\<rparr>" BACKSPACE] obtain z where
    z: "consputc BACKSPACE (k\<lparr>cons := ?y\<rparr>) = Ok () (k\<lparr>cons := z\<rparr>)" "screen_ok z" "input_of z = input_of ?y"
    by (auto simp: printed_def)
  note zi = input_of_eq [OF z(3)]
  have "\<exists>x. kill_line n (k\<lparr>cons := z\<rparr>) = Ok () (k\<lparr>cons := z\<rparr>\<lparr>cons := x\<rparr>) \<and> screen_ok x \<and> in_inv x \<and>
      committed x = committed (cons (k\<lparr>cons := z\<rparr>)) \<and> typing x = []"
    using z(2) e(1,5) Suc.prems(3) by (intro Suc.IH) (simp_all add: zi)
  then show ?case using ne e(2,4) z(1) by (auto simp: zi split: res.split)
qed

text \<open>The kernel in the middle of \<^verbatim>\<open>consoleintr()\<close>.\<close>

definition console_ok :: "kernel \<Rightarrow> bool" where
  "console_ok k \<longleftrightarrow> screen_ok (cons k) \<and> in_inv (cons k) \<and> ready (mach k) \<and> lock_free L_ptable (mach k) \<and>
     sync_m (mach k) = mach k"

abbreviation line :: "kernel \<Rightarrow> uchar list \<times> uchar list" where
  "line k \<equiv> (committed (cons k), typing (cons k))"

abbreviation with_input :: "console \<Rightarrow> proc list \<Rightarrow> kernel \<Rightarrow> kernel" where
  "with_input x ps k \<equiv> k\<lparr>cons := x, pt := pt k\<lparr>procs := ps\<rparr>\<rparr>"

lemma input_char_ok:
  assumes "console_ok k" and "c \<notin> {16, 21, 8, 127}"
  shows "\<exists>x ps. input_char c k = Ok () (with_input x ps k) \<and> screen_ok x \<and> in_inv x \<and>
    (committed x, typing x) = edit_line c (line k) \<and>
    ps = (if committed x = committed (cons k) then procs (pt k) else map (wake_proc (Some Ch_input)) (procs (pt k)))"
proof -
  let ?x = "cons k" and ?c = "if c = 13 then 10 else c"
  let ?y = "?x\<lparr>in_buf := (in_buf ?x)[unat (in_e ?x mod of_nat INPUT_BUF) := ?c], in_e := in_e ?x + 1\<rparr>"
  have inv: "in_inv ?x" and sc: "screen_ok ?x" using assms(1) by (simp_all add: console_ok_def)
  have room: "in_e ?x - in_r ?x < 128 \<longleftrightarrow> length (committed ?x) + length (typing ?x) < INPUT_BUF"
    using in_total [OF inv] by (simp add: word_less_nat_alt)
  show ?thesis
  proof (cases "c \<noteq> 0 \<and> length (committed ?x) + length (typing ?x) < INPUT_BUF")
    case False
    then have "input_char c k = Ok () (with_input ?x (procs (pt k)) k)" by (auto simp: input_char_def room)
    moreover have "edit_line c (line k) = line k" using False assms(2) by (auto simp: edit_line_def)
    ultimately show ?thesis using inv sc by (intro exI [of _ ?x] exI [of _ "procs (pt k)"]) auto
  next
    case True
    note st = store_line [OF inv True [THEN conjunct2], of ?c]
    have "screen_ok ?y" using sc by (simp add: screen_ok_def)
    with consputc_ok [of "k\<lparr>cons := ?y\<rparr>" "uint ?c"] obtain z where
      z: "consputc (uint ?c) (k\<lparr>cons := ?y\<rparr>) = Ok () (k\<lparr>cons := z\<rparr>)" "screen_ok z" "input_of z = input_of ?y"
      by (auto simp: printed_def)
    note zi = input_of_eq [OF z(3)]
    let ?full = "length (committed ?x) + length (typing ?x) + 1 = INPUT_BUF"
    have full: "in_e z = in_r z + 128 \<longleftrightarrow> ?full"
    proof -
      have "in_e z = in_r z + 128 \<longleftrightarrow> in_e z - in_r z = 128" by (auto simp: algebra_simps)
      also have "\<dots> \<longleftrightarrow> unat (in_e z - in_r z) = 128" by (simp add: word_unat_eq_iff)
      also have "\<dots> \<longleftrightarrow> ?full" using st(4) by (simp only: zi)
      finally show ?thesis by simp
    qed
    have run: "input_char c k = (if ?c = 10 \<or> ?c = 4 \<or> ?full
        then wakeup (Some Ch_input) (k\<lparr>cons := z\<lparr>in_w := in_e z\<rparr>\<rparr>) else Ok () (k\<lparr>cons := z\<rparr>))"
      using True z(1) full by (simp add: input_char_def room Let_def split: res.split)
    show ?thesis
    proof (cases "?c = 10 \<or> ?c = 4 \<or> ?full")
      case commit: True
      let ?z = "z\<lparr>in_w := in_e z\<rparr>"
      have "input_char c k = Ok () (with_input ?z (map (wake_proc (Some Ch_input)) (procs (pt k))) k)"
        using run commit assms(1) by (simp add: wakeup_ok console_ok_def)
      moreover have l: "committed ?z = committed ?x @ typing ?x @ [?c]" "typing ?z = []"
        using st(3) by (simp_all add: committed_def typing_def zi)
      moreover have "edit_line c (line k) = (committed ?x @ typing ?x @ [?c], [])"
        using commit True assms(2) by (auto simp: edit_line_def Let_def)
      moreover have "screen_ok ?z" using z(2) by (simp add: screen_ok_def)
      moreover have "in_inv ?z" unfolding in_inv_def l using inv True by (simp add: in_inv_def zi)
      ultimately show ?thesis by (intro exI [of _ ?z] exI) auto
    next
      case False
      have "input_char c k = Ok () (with_input z (procs (pt k)) k)" using run False by simp
      moreover have l: "committed z = committed ?x" "typing z = typing ?x @ [?c]" using st(1,2) by (simp_all add: zi)
      moreover have "edit_line c (line k) = (committed ?x, typing ?x @ [?c])"
        using False True assms(2) by (auto simp: edit_line_def Let_def)
      moreover have "in_inv z" unfolding in_inv_def l using inv True False by (auto simp: in_inv_def zi)
      ultimately show ?thesis using z(2) by (intro exI [of _ z] exI [of _ "procs (pt k)"]) auto
    qed
  qed
qed

lemma console_char_ok:
  assumes "console_ok k"
  shows "\<exists>x ps. console_char c k = Ok () (with_input x ps k) \<and> screen_ok x \<and> in_inv x \<and>
    (committed x, typing x) = edit_line c (line k) \<and>
    ps = (if committed x = committed (cons k) then procs (pt k) else map (wake_proc (Some Ch_input)) (procs (pt k)))"
proof -
  let ?x = "cons k"
  have inv: "in_inv ?x" and sc: "screen_ok ?x" using assms by (simp_all add: console_ok_def)
  consider "c = 16" | "c = 21" | "c = 8 \<or> c = 127" | "c \<notin> {16, 21, 8, 127}" by blast
  then show ?thesis
  proof cases
    case 1
    then show ?thesis using inv sc by (intro exI [of _ ?x] exI [of _ "procs (pt k)"]) (simp add: console_char_def edit_line_def)
  next
    case 2
    with kill_line_ok [OF sc inv refl] show ?thesis by (auto simp: console_char_def edit_line_def)
  next
    case 3
    let ?y = "?x\<lparr>in_e := in_e ?x - 1\<rparr>"
    have c: "c \<noteq> 16" "c \<noteq> 21" using 3 by auto
    show ?thesis
    proof (cases "in_e ?x = in_w ?x")
      case True
      then have "typing ?x = []" by (simp add: typing_def)
      with True 3 c inv sc show ?thesis
        by (intro exI [of _ ?x] exI [of _ "procs (pt k)"]) (simp add: console_char_def edit_line_def)
    next
      case False
      note e = erase_line [OF inv False]
      have "screen_ok ?y" using sc by (simp add: screen_ok_def)
      with consputc_ok [of "k\<lparr>cons := ?y\<rparr>" BACKSPACE] obtain z where
        z: "consputc BACKSPACE (k\<lparr>cons := ?y\<rparr>) = Ok () (k\<lparr>cons := z\<rparr>)" "screen_ok z" "input_of z = input_of ?y"
        by (auto simp: printed_def)
      note zi = input_of_eq [OF z(3)]
      have "console_char c k = Ok () (k\<lparr>cons := z\<rparr>)" using 3 c False z(1) by (auto simp: console_char_def)
      with 3 c z(2) e(1-3) show ?thesis by (intro exI [of _ z] exI [of _ "procs (pt k)"]) (auto simp: zi edit_line_def)
    qed
  next
    case 4
    with input_char_ok [OF assms 4] show ?thesis by (simp add: console_char_def)
  qed
qed

lemma console_chars_ok:
  "console_ok k \<Longrightarrow>
   \<exists>x ps. for_each cs console_char k = Ok () (with_input x ps k) \<and> screen_ok x \<and> in_inv x \<and>
     (committed x, typing x) = fold edit_line cs (line k)"
proof (induction cs arbitrary: k)
  case Nil
  then show ?case by (intro exI [of _ "cons k"] exI [of _ "procs (pt k)"]) (simp add: console_ok_def)
next
  case (Cons c cs)
  from console_char_ok [OF Cons.prems, of c] obtain x ps where
    x: "console_char c k = Ok () (with_input x ps k)" "screen_ok x" "in_inv x" "(committed x, typing x) = edit_line c (line k)" by blast
  have "console_ok (with_input x ps k)" using Cons.prems x by (simp add: console_ok_def)
  from Cons.IH [OF this] x show ?case by auto
qed

section \<open>Reading\<close>

text \<open>
  What a read of up to \<open>n\<close> bytes takes from the finished lines: the bytes and what is left, or
  \<open>None\<close> if it has to wait for more.
\<close>

fun take_line :: "nat \<Rightarrow> uchar list \<Rightarrow> uchar list \<Rightarrow> (uchar list \<times> uchar list) option" where
  "take_line n got cm =
     (if length got < n then
        (case cm of
           [] \<Rightarrow> None
         | c # cs \<Rightarrow>
            if c = 4 then Some (got, if got = [] then cs else c # cs)
            else if c = 10 then Some (got @ [c], cs)
            else take_line n (got @ [c]) cs)
      else Some (got, cm))"

declare take_line.simps [simp del]

lemma advance_line:
  assumes "in_inv x" and "in_r x \<noteq> in_w x"
  shows "in_inv (x\<lparr>in_r := in_r x + 1\<rparr>)" and "typing (x\<lparr>in_r := in_r x + 1\<rparr>) = typing x"
    and "committed x = in_at x (in_r x) # committed (x\<lparr>in_r := in_r x + 1\<rparr>)"
proof -
  have ne: "in_w x \<noteq> in_r x" using assms(2) by simp
  show t: "typing (x\<lparr>in_r := in_r x + 1\<rparr>) = typing x" by (simp add: typing_def)
  show c: "committed x = in_at x (in_r x) # committed (x\<lparr>in_r := in_r x + 1\<rparr>)"
    using ring_Cons(1) [OF slots_128 ne, of "in_buf x"] by (simp add: committed_def in_at_def unat_mod)
  show "in_inv (x\<lparr>in_r := in_r x + 1\<rparr>)" using assms(1) c unfolding in_inv_def t by simp
qed

lemma consoleread_loop_takes:
  "in_inv (cons k) \<Longrightarrow> take_line n got (committed (cons k)) = Some (bs, cm) \<Longrightarrow>
   \<exists>r. consoleread_loop ip n got k = consoleread_done ip bs (k\<lparr>cons := (cons k)\<lparr>in_r := r\<rparr>\<rparr>) \<and>
     committed ((cons k)\<lparr>in_r := r\<rparr>) = cm \<and> typing ((cons k)\<lparr>in_r := r\<rparr>) = typing (cons k) \<and> in_inv ((cons k)\<lparr>in_r := r\<rparr>)"
proof (induction "n - length got" arbitrary: got k rule: less_induct)
  case less
  let ?x = "cons k"
  let ?y = "?x\<lparr>in_r := in_r ?x + 1\<rparr>" and ?c = "in_at ?x (in_r ?x)"
  show ?case
  proof (cases "length got < n")
    case False
    then have "bs = got" "cm = committed ?x" using less.prems(2) by (simp_all add: take_line.simps)
    with False less.prems(1) show ?thesis by (intro exI [of _ "in_r ?x"]) (simp add: consoleread_loop.simps)
  next
    case True
    then have "committed ?x \<noteq> []" using less.prems(2) by (auto simp: take_line.simps)
    then have ne: "in_r ?x \<noteq> in_w ?x" by (auto simp: committed_def)
    note a = advance_line [OF less.prems(1) ne]
    note step = less.prems(2) [unfolded a(3), unfolded take_line.simps [of n got "_ # _"]]
    consider "?c = 4" | "?c = 10" | "?c \<noteq> 4" "?c \<noteq> 10" by blast
    then show ?thesis
    proof cases
      case 1
      then have "bs = got" "cm = (if got = [] then committed ?y else committed ?x)" using step True a(3) by auto
      with 1 True ne a less.prems(1) show ?thesis
        by (intro exI [of _ "if got = [] then in_r ?x + 1 else in_r ?x"]) (simp add: consoleread_loop.simps Let_def)
    next
      case 2
      then have "bs = got @ [10]" "cm = committed ?y" using step True by auto
      with 2 True ne a show ?thesis by (intro exI [of _ "in_r ?x + 1"]) (simp add: consoleread_loop.simps Let_def)
    next
      case 3
      then have "take_line n (got @ [?c]) (committed (cons (k\<lparr>cons := ?y\<rparr>))) = Some (bs, cm)" using step True by simp
      moreover have "n - length (got @ [?c]) < n - length got" using True by simp
      ultimately obtain r where
        "consoleread_loop ip n (got @ [?c]) (k\<lparr>cons := ?y\<rparr>) = consoleread_done ip bs (k\<lparr>cons := ?x\<lparr>in_r := r\<rparr>\<rparr>)"
        "committed (?x\<lparr>in_r := r\<rparr>) = cm" "typing (?x\<lparr>in_r := r\<rparr>) = typing ?x" "in_inv (?x\<lparr>in_r := r\<rparr>)"
        using less.hyps [of "got @ [?c]" "k\<lparr>cons := ?y\<rparr>"] a(1,2) by auto
      with 3 True ne show ?thesis
        by (intro exI [of _ r]) (simp add: consoleread_loop.simps [of ip n got] Let_def)
    qed
  qed
qed

lemma console_line_editor_run:
  assumes "screen_ok (cons k)" and "in_inv (cons k)"
    and "ready (mach k)" and "lock_free L_cons (mach k)" and "lock_free L_ptable (mach k)"
  shows "\<exists>k'. consoleintr cs k = Ok () k' \<and> line k' = fold edit_line cs (line k) \<and>
     in_inv (cons k') \<and> screen_ok (cons k') \<and> locks (mach k') = locks (mach k)"
proof -
  let ?k = "k\<lparr>mach := acq_m L_cons (mach k)\<rparr>"
  have "console_ok ?k" using assms by (simp add: console_ok_def lock_simps)
  from console_chars_ok [OF this, of cs] obtain x ps where
    x: "for_each cs console_char ?k = Ok () (with_input x ps ?k)" "screen_ok x" "in_inv x"
      "(committed x, typing x) = fold edit_line cs (line k)" by auto
  have "consoleintr cs k = Ok () (k\<lparr>cons := x, pt := pt k\<lparr>procs := ps\<rparr>, mach := sync_m (mach k)\<rparr>)"
    using x(1) assms by (simp add: consoleintr_def lock_simps)
  with x show ?thesis by auto
qed

lemma edit_plain:
  "length ed + length cs < INPUT_BUF \<Longrightarrow> set cs \<inter> {0, 4, 8, 10, 13, 16, 21, 127} = {} \<Longrightarrow>
   fold edit_line cs ([], ed) = ([], ed @ cs)"
  by (induction cs arbitrary: ed) (auto simp: edit_line_def Let_def)

lemma take_plain:
  "length got + length cs < n \<Longrightarrow> set cs \<inter> {4, 10} = {} \<Longrightarrow>
   take_line n got (cs @ [10]) = Some (got @ cs @ [10], [])"
  by (induction cs arbitrary: got) (auto simp: take_line.simps)

section \<open>Properties\<close>

text \<open>C30: The code of \<^verbatim>\<open>consoleintr()\<close>, with its ring buffer of 128 bytes and three wrapping
  counters, implements a line editor: on the finished lines and the line being typed it acts as
  \<open>edit_line\<close>, character by character.  Control-U empties the line being typed, backspace
  takes its last character, a carriage return counts as a newline, a newline, control-D or a full
  buffer finishes the line, and a character that finds the buffer full is dropped.  The screen stays
  in order and the lock is given back.\<close>

theorem console_line_editor:
  assumes "screen_ok (cons k)" and "in_inv (cons k)"
    and "ready (mach k)" and "lock_free L_cons (mach k)" and "lock_free L_ptable (mach k)"
  shows "\<exists>k'. consoleintr cs k = Ok () k' \<and>
     (committed (cons k'), typing (cons k')) = fold edit_line cs (committed (cons k), typing (cons k)) \<and>
     in_inv (cons k') \<and> screen_ok (cons k') \<and> locks (mach k') = locks (mach k)"
  using console_line_editor_run [OF assms] .

definition console_example :: kernel where
  "console_example = kernel0\<lparr>cons := console0\<lparr>in_r := - 1, in_w := - 1, in_e := - 1\<rparr>\<rparr>"

lemma console_example_ok:
  "screen_ok (cons console_example)" "in_inv (cons console_example)" "ready (mach console_example)"
  "lock_free L (mach console_example)" "committed (cons console_example) = []" "typing (cons console_example) = []"
  by (simp_all add: console_example_def cold_defs screen_ok_def in_inv_def committed_def typing_def ring_def
      ready_def here_def lock_free_def)

theorem console_line_editor_witness:
  "\<exists>k'. consoleintr [97, 98, 8, 99, 13, 100] console_example = Ok () k' \<and>
     committed (cons k') = [97, 99, 10] \<and> typing (cons k') = [100]"
  using console_line_editor [OF console_example_ok(1-4) console_example_ok(4), of "[97, 98, 8, 99, 13, 100]"]
  by (auto simp: console_example_ok edit_line_def)



text \<open>C35: Output never leaves the screen.  Printing any text with the cursor in the first 24 rows
  succeeds, leaves the cursor there and changes nothing of the text memory below them; the serial port,
  if there is one, receives exactly the text; the input line is not touched.\<close>

theorem console_output_bounds:
  assumes "crt_pos (cons k) < 24 * 80" and "\<not> cs_panicked (cons k)"
  shows "\<exists>x. putchars cs k = Ok () (k\<lparr>cons := x\<rparr>) \<and> crt_pos x < 24 * 80 \<and>
     (\<forall>i. 24 * 80 \<le> i \<longrightarrow> crt x i = crt (cons k) i) \<and>
     uart_out x = uart_out (cons k) @ (if uart (cons k) then cs else []) \<and>
     (in_buf x, in_r x, in_w x, in_e x) = (in_buf (cons k), in_r (cons k), in_w (cons k), in_e (cons k))"
proof -
  have "screen_ok (cons k)" using assms by (simp add: screen_ok_def)
  from putchars_ok [OF this, of cs] obtain x where x: "putchars cs k = Ok () (k\<lparr>cons := x\<rparr>)" "printed cs (cons k) x" by blast
  from x(2) show ?thesis unfolding printed_def screen_ok_def input_of_def by (intro exI [of _ x] conjI x(1)) simp_all
qed

theorem console_output_bounds_witness:
  "\<exists>x. putchars [104, 105, 10] kernel0 = Ok () (kernel0\<lparr>cons := x\<rparr>) \<and> crt_pos x < 24 * 80"
  using console_output_bounds [of kernel0 "[104, 105, 10]"] by (auto simp: kernel0_def console0_def)

end
