(* ===== verification/Kbd.thy ===== *)
theory Kbd
  imports Console
begin

unbundle bit_operations_syntax

text \<open>
  \<^verbatim>\<open>kbd.c\<close> and the tables of \<^verbatim>\<open>kbd.h\<close>: from scan codes to characters.  \<^verbatim>\<open>kbdgetc()\<close>
  reads a byte from the keyboard's data port while the status port says there is one; the bytes of one
  interrupt are a list.
\<close>

section \<open>The tables\<close>

text \<open>A table: its first entries in order, some more by index, and 0 elsewhere.\<close>

definition keytable :: "uchar list \<Rightarrow> (nat \<times> uchar) list \<Rightarrow> nat \<Rightarrow> uchar" where
  "keytable xs ps i = (if i < length xs then xs ! i else case map_of ps i of Some c \<Rightarrow> c | None \<Rightarrow> 0)"

abbreviation K_SHIFT :: uchar where "K_SHIFT \<equiv> 1"
abbreviation K_CTL :: uchar where "K_CTL \<equiv> 2"
abbreviation K_ALT :: uchar where "K_ALT \<equiv> 4"
abbreviation K_CAPSLOCK :: uchar where "K_CAPSLOCK \<equiv> 8"
abbreviation K_NUMLOCK :: uchar where "K_NUMLOCK \<equiv> 16"
abbreviation K_SCROLLLOCK :: uchar where "K_SCROLLLOCK \<equiv> 32"
abbreviation K_E0ESC :: uchar where "K_E0ESC \<equiv> 64"

definition shiftcode :: "nat \<Rightarrow> uchar" where
  "shiftcode = keytable [] [(0x1D, K_CTL), (0x2A, K_SHIFT), (0x36, K_SHIFT), (0x38, K_ALT), (0x9D, K_CTL), (0xB8, K_ALT)]"

definition togglecode :: "nat \<Rightarrow> uchar" where
  "togglecode = keytable [] [(0x3A, K_CAPSLOCK), (0x45, K_NUMLOCK), (0x46, K_SCROLLLOCK)]"

definition normalmap :: "nat \<Rightarrow> uchar" where
  "normalmap = keytable
     [0, 27, 49, 50, 51, 52, 53, 54, 55, 56, 57, 48, 45, 61, 8, 9,
      113, 119, 101, 114, 116, 121, 117, 105, 111, 112, 91, 93, 10, 0, 97, 115,
      100, 102, 103, 104, 106, 107, 108, 59, 39, 96, 0, 92, 122, 120, 99, 118,
      98, 110, 109, 44, 46, 47, 0, 42, 0, 32, 0, 0, 0, 0, 0, 0,
      0, 0, 0, 0, 0, 0, 0, 55, 56, 57, 45, 52, 53, 54, 43, 49,
      50, 51, 48, 46, 0, 0, 0, 0]
     [(156, 10), (181, 47), (200, 226), (208, 227), (201, 230), (209, 231), (203, 228), (205, 229), (151, 224), (207, 225), (210, 232), (211, 233)]"

definition shiftmap :: "nat \<Rightarrow> uchar" where
  "shiftmap = keytable
     [0, 27, 33, 64, 35, 36, 37, 94, 38, 42, 40, 41, 95, 43, 8, 9,
      81, 87, 69, 82, 84, 89, 85, 73, 79, 80, 123, 125, 10, 0, 65, 83,
      68, 70, 71, 72, 74, 75, 76, 58, 34, 126, 0, 124, 90, 88, 67, 86,
      66, 78, 77, 60, 62, 63, 0, 42, 0, 32, 0, 0, 0, 0, 0, 0,
      0, 0, 0, 0, 0, 0, 0, 55, 56, 57, 45, 52, 53, 54, 43, 49,
      50, 51, 48, 46, 0, 0, 0, 0]
     [(156, 10), (181, 47), (200, 226), (208, 227), (201, 230), (209, 231), (203, 228), (205, 229), (151, 224), (207, 225), (210, 232), (211, 233)]"

definition ctlmap :: "nat \<Rightarrow> uchar" where
  "ctlmap = keytable
     [0, 0, 0, 0, 0, 0, 0, 0, 0, 0, 0, 0, 0, 0, 0, 0,
      17, 23, 5, 18, 20, 25, 21, 9, 15, 16, 0, 0, 13, 0, 1, 19,
      4, 6, 7, 8, 10, 11, 12, 0, 0, 0, 0, 28, 26, 24, 3, 22,
      2, 14, 13, 0, 0, 239, 0, 0]
     [(156, 13), (181, 239), (200, 226), (208, 227), (201, 230), (209, 231), (203, 228), (205, 229), (151, 224), (207, 225), (210, 232), (211, 233)]"

definition charcode :: "uchar \<Rightarrow> nat \<Rightarrow> uchar" where
  "charcode s = (if s = 0 then normalmap else if s = 1 then shiftmap else ctlmap)"

section \<open>Scan codes\<close>

text \<open>The value that \<^verbatim>\<open>kbdgetc()\<close> returns for the byte \<open>data0\<close>, and the new state of the modifier keys.\<close>

definition kbdgetc :: "uchar \<Rightarrow> uchar \<Rightarrow> uchar \<times> uchar" where
  "kbdgetc data0 sh =
     (if data0 = 0xE0 then (0, sh OR K_E0ESC)
      else if data0 AND 0x80 \<noteq> 0 then
        (let data = (if sh AND K_E0ESC \<noteq> 0 then data0 else data0 AND 0x7F)
         in (0, sh AND NOT (shiftcode (unat data) OR K_E0ESC)))
      else
        (let (data, sh1) = (if sh AND K_E0ESC \<noteq> 0 then (data0 OR 0x80, sh AND NOT K_E0ESC) else (data0, sh));
             sh2 = (sh1 OR shiftcode (unat data)) XOR togglecode (unat data);
             c = charcode (sh2 AND (K_CTL OR K_SHIFT)) (unat data);
             c' = (if sh2 AND K_CAPSLOCK \<noteq> 0 then
                     if 97 \<le> c \<and> c \<le> 122 then c - 32 else if 65 \<le> c \<and> c \<le> 90 then c + 32 else c
                   else c)
         in (c', sh2)))"

primrec kbd_chars :: "uchar list \<Rightarrow> uchar \<Rightarrow> uchar list \<times> uchar" where
  "kbd_chars [] sh = ([], sh)"
| "kbd_chars (d # ds) sh = (let (c, sh') = kbdgetc d sh; (cs, sh'') = kbd_chars ds sh' in (c # cs, sh''))"

text \<open>\<^verbatim>\<open>consoleintr()\<close> draws the characters one by one; nothing else reads the modifier keys meanwhile.\<close>

definition kbdintr :: "uchar list \<Rightarrow> unit kop" where
  "kbdintr ds =
     bind (gets (\<lambda>k. kbd_chars ds (kbd_shift (cons k)))) (\<lambda>(cs, sh).
     seq (set_cons (\<lambda>x. x\<lparr>kbd_shift := sh\<rparr>)) (consoleintr cs))"

end
