(* ===== verification/Trap.thy ===== *)
theory Trap
  imports Timer Sysproc Sysfile Kbd
begin

unbundle bit_operations_syntax

text \<open>
  The dispatch of system calls in \<^verbatim>\<open>syscall.c\<close>, and \<^verbatim>\<open>trap()\<close> of \<^verbatim>\<open>trap.c\<close>.  The device
  table is the one \<^verbatim>\<open>consoleinit()\<close> leaves.  What the keyboard or the serial port delivers during
  an interrupt is the argument \<open>ds\<close>.  The interrupt controllers, which \<^verbatim>\<open>lapiceoi()\<close>
  acknowledges, are not part of the state.

  A call that gives up the CPU ends in \<open>Swtch\<close>; the definitions called \<open>..._resume\<close> continue the
  trap after each \<^verbatim>\<open>yield()\<close> in it.
\<close>

section \<open>System calls\<close>

definition syscalls :: "uint \<Rightarrow> uint \<Rightarrow> nat \<Rightarrow> int kop option" where
  "syscalls kdata kend num = (let t =
     [None,
      Some (sys_fork kdata kend), Some (sys_exit kend), Some (sys_wait kend), Some (sys_pipe kend),
      Some (sys_read console_devsw), Some sys_kill, Some (sys_exec console_devsw kdata kend), Some sys_fstat,
      Some (sys_chdir console_devsw), Some sys_dup, Some sys_getpid, Some (sys_sbrk kend),
      Some sys_sleep, Some sys_uptime, Some (sys_open console_devsw kend), Some (sys_write console_devsw),
      Some (sys_mknod console_devsw), Some (sys_unlink console_devsw), Some (sys_link console_devsw),
      Some (sys_mkdir console_devsw), Some (sys_close kend), Some sys_myfunction, Some sys_getgpid,
      Some sys_yield, Some sys_getlev, Some sys_setpriority, Some sys_setmonopoly, Some sys_monopolize,
      Some sys_unmonopolize]
     in if num < length t then t ! num else None)"

definition set_eax :: "nat \<Rightarrow> int \<Rightarrow> unit kop" where
  "set_eax i r = set_proc i (\<lambda>q. q\<lparr>p_tf := (p_tf q)\<lparr>tf_eax := word_of_int r\<rparr>\<rparr>)"

definition syscall :: "uint \<Rightarrow> uint \<Rightarrow> unit kop" where
  "syscall kdata kend =
     bind myproc (\<lambda>p. deref p (\<lambda>i.
     bind (gets (\<lambda>k. sint (tf_eax (p_tf (proc_at k i))))) (\<lambda>num.
     case (if num > 0 then syscalls kdata kend (nat num) else None) of
       Some f \<Rightarrow> bind f (set_eax i)
     | None \<Rightarrow> set_eax i (-1))))"

section \<open>Traps\<close>

abbreviation T_SYSCALL :: uint where "T_SYSCALL \<equiv> 64"
abbreviation T_IRQ0 :: uint where "T_IRQ0 \<equiv> 32"

definition user_mode :: "trapframe \<Rightarrow> bool" where
  "user_mode tf \<longleftrightarrow> tf_cs tf AND 3 = 3"

definition exit_if_killed :: "uint \<Rightarrow> unit kop" where
  "exit_if_killed kend = bind (my p_killed) (\<lambda>b. do_if b (exit kend))"

text \<open>\<^verbatim>\<open>if(myproc() && myproc()->killed && (tf->cs&3) == DPL_USER) exit();\<close>\<close>

definition exit_if_user_killed :: "uint \<Rightarrow> trapframe \<Rightarrow> unit kop" where
  "exit_if_user_killed kend tf =
     bind (all_of [have_proc, my p_killed, ret (user_mode tf)]) (\<lambda>b. do_if b (exit kend))"

definition trap_other :: "trapframe \<Rightarrow> unit kop" where
  "trap_other tf =
     bind have_proc (\<lambda>b.
     if \<not> b \<or> tf_cs tf AND 3 = 0 then panic ''trap''
     else set_my (\<lambda>p. p\<lparr>p_killed := True\<rparr>))"

definition trap_switch :: "uchar list \<Rightarrow> trapframe \<Rightarrow> unit kop" where
  "trap_switch ds tf =
     (if tf_trapno tf = T_IRQ0 then timer_intr
      else if tf_trapno tf = T_IRQ0 + 14 then ret ()
      else if tf_trapno tf = T_IRQ0 + 15 then ret ()
      else if tf_trapno tf = T_IRQ0 + 1 then kbdintr ds
      else if tf_trapno tf = T_IRQ0 + 4 then uartintr ds
      else if tf_trapno tf = T_IRQ0 + 7 \<or> tf_trapno tf = T_IRQ0 + 31 then ret ()
      else trap_other tf)"

definition trap_end :: "uint \<Rightarrow> trapframe \<Rightarrow> unit kop" where
  "trap_end kend tf = block [tick_boost, exit_if_user_killed kend tf]"

definition trap :: "uint \<Rightarrow> uint \<Rightarrow> uchar list \<Rightarrow> trapframe \<Rightarrow> unit kop" where
  "trap kdata kend ds tf =
     (if tf_trapno tf = T_SYSCALL then block
        [exit_if_killed kend,
         set_my (\<lambda>p. p\<lparr>p_tf := tf\<rparr>),
         syscall kdata kend,
         exit_if_killed kend]
      else block
        [trap_switch ds tf,
         exit_if_user_killed kend tf,
         demote0, demote12, demote3,
         trap_end kend tf])"

text \<open>The trap after the \<^verbatim>\<open>yield()\<close> of the first, the second and the third demotion.\<close>

definition trap_resume0 :: "uint \<Rightarrow> trapframe \<Rightarrow> unit kop" where
  "trap_resume0 kend tf = block [yield_resume, demote12, demote3, trap_end kend tf]"

definition trap_resume12 :: "uint \<Rightarrow> trapframe \<Rightarrow> unit kop" where
  "trap_resume12 kend tf = block [yield_resume, demote3, trap_end kend tf]"

definition trap_resume3 :: "uint \<Rightarrow> trapframe \<Rightarrow> unit kop" where
  "trap_resume3 kend tf = block [yield_resume, trap_end kend tf]"

end
