(* ===== verification/Grep.thy ===== *)
theory Grep
  imports Xv6_Prelude
begin

text \<open>
  \<^verbatim>\<open>grep.c\<close>: a pattern matcher and the loop that feeds it lines.  A C string is a \<open>string\<close>
  without its terminating zero byte, and \<^verbatim>\<open>re[1] == '*'\<close> looks at the second character if there is
  one.  The first part is the code, the second compares the matcher with the meaning of patterns.
\<close>

section \<open>The matcher\<close>

function (sequential) matchhere :: "string \<Rightarrow> string \<Rightarrow> bool"
  and matchstar :: "char \<Rightarrow> string \<Rightarrow> string \<Rightarrow> bool" where
  "matchhere [] text = True"
| "matchhere (c # re) text =
     (if re \<noteq> [] \<and> hd re = CHR ''*'' then matchstar c (tl re) text
      else if c = CHR ''$'' \<and> re = [] then text = []
      else (case text of
          [] \<Rightarrow> False
        | x # text' \<Rightarrow> if c = CHR ''.'' \<or> c = x then matchhere re text' else False))"
| "matchstar c re text =
     (if matchhere re text then True
      else (case text of
          [] \<Rightarrow> False
        | x # text' \<Rightarrow> if x = c \<or> c = CHR ''.'' then matchstar c re text' else False))"
  by pat_completeness auto
termination
  by (relation "measures
      [\<lambda>p. case p of Inl (re, text) \<Rightarrow> length re | Inr (c, re, text) \<Rightarrow> length re,
       \<lambda>p. case p of Inl (re, text) \<Rightarrow> length text | Inr (c, re, text) \<Rightarrow> length text,
       \<lambda>p. case p of Inl _ \<Rightarrow> 0 | Inr _ \<Rightarrow> 1]") auto

declare matchhere.simps [simp del] matchstar.simps [simp del]

fun match_from :: "string \<Rightarrow> string \<Rightarrow> bool" where
  "match_from re text =
     (if matchhere re text then True else case text of [] \<Rightarrow> False | x # text' \<Rightarrow> match_from re text')"

declare match_from.simps [simp del]

definition match :: "string \<Rightarrow> string \<Rightarrow> bool" where
  "match re text = (if re \<noteq> [] \<and> hd re = CHR ''^'' then matchhere (tl re) text else match_from re text)"

section \<open>The lines of a file\<close>

text \<open>
  The inner loop of \<^verbatim>\<open>grep()\<close> over the buffer: what it writes, the rest after the last newline,
  and whether it found one.  \<^verbatim>\<open>strchr()\<close> does not look beyond a zero byte.
\<close>

abbreviation newline :: char where "newline \<equiv> CHR 0x0A"

definition before_newline :: "string \<Rightarrow> string" where
  "before_newline p = takeWhile (\<lambda>c. c \<noteq> newline \<and> c \<noteq> CHR 0x00) p"

definition from_newline :: "string \<Rightarrow> string" where
  "from_newline p = dropWhile (\<lambda>c. c \<noteq> newline \<and> c \<noteq> CHR 0x00) p"

lemma from_newline_shorter: "from_newline p = c # p' \<Longrightarrow> length p' < length p"
  using length_dropWhile_le [of "\<lambda>c. c \<noteq> newline \<and> c \<noteq> CHR 0x00" p] by (simp add: from_newline_def)

function grep_lines :: "string \<Rightarrow> string \<Rightarrow> string \<times> string \<times> bool" where
  "grep_lines pattern p =
     (case from_newline p of
        [] \<Rightarrow> ([], p, False)
      | c # p' \<Rightarrow>
         if c \<noteq> newline then ([], p, False)
         else let l = before_newline p; (out, r, _) = grep_lines pattern p'
           in (if match pattern l then l @ newline # out else out, r, True))"
  by pat_completeness auto
termination
  by (relation "measure (\<lambda>(pattern, p). length p)") (auto simp: from_newline_shorter)

declare grep_lines.simps [simp del]

text \<open>
  The outer loop, with \<open>b\<close> the bytes kept at the start of the buffer and the list of what the calls of
  \<^verbatim>\<open>read()\<close> return; an empty read ends it.  If the buffer holds no newline, all of it is dropped.
\<close>

primrec grep_loop :: "string \<Rightarrow> string \<Rightarrow> string list \<Rightarrow> string" where
  "grep_loop pattern b [] = []"
| "grep_loop pattern b (r # rs) =
     (if r = [] then []
      else let (out, rest, found) = grep_lines pattern (b @ r)
        in out @ grep_loop pattern (if found then rest else []) rs)"

definition grep :: "string \<Rightarrow> string list \<Rightarrow> string" where
  "grep pattern reads = grep_loop pattern [] reads"

section \<open>What a pattern means\<close>

text \<open>
  A pattern is a sequence of single characters and starred characters, where \<open>.\<close> stands for any
  character, perhaps bound to the start and to the end of the text.
\<close>

datatype atom = One char | Many char

definition fits :: "char \<Rightarrow> char \<Rightarrow> bool" where
  "fits c x \<longleftrightarrow> c = CHR ''.'' \<or> c = x"

fun lang :: "atom list \<Rightarrow> string set" where
  "lang [] = {[]}"
| "lang (One c # as) = {x # v | x v. fits c x \<and> v \<in> lang as}"
| "lang (Many c # as) = {u @ v | u v. (\<forall>x \<in> set u. fits c x) \<and> v \<in> lang as}"

text \<open>Reading a pattern: its atoms, and whether a final \<open>$\<close> binds it to the end.\<close>

fun atoms :: "string \<Rightarrow> atom list \<times> bool" where
  "atoms [] = ([], False)"
| "atoms [c] = (if c = CHR ''$'' then ([], True) else ([One c], False))"
| "atoms (c # d # re) =
     (if d = CHR ''*'' then (Many c # fst (atoms re), snd (atoms re))
      else (One c # fst (atoms (d # re)), snd (atoms (d # re))))"

text \<open>A prefix of the text is in the language of the pattern; all of it, if the pattern is bound to the end.\<close>

definition here :: "string \<Rightarrow> string \<Rightarrow> bool" where
  "here re text \<longleftrightarrow> (\<exists>v w. text = v @ w \<and> v \<in> lang (fst (atoms re)) \<and> (snd (atoms re) \<longrightarrow> w = []))"

lemma here_Nil: "here [] text"
  by (simp add: here_def)

lemma here_end: "here [CHR ''$''] text \<longleftrightarrow> text = []"
  by (auto simp: here_def)

lemma here_one:
  assumes "re = [] \<Longrightarrow> c \<noteq> CHR ''$''" and "re = [] \<or> hd re \<noteq> CHR ''*''"
  shows "here (c # re) text \<longleftrightarrow> (\<exists>x text'. text = x # text' \<and> fits c x \<and> here re text')"
proof -
  have "atoms (c # re) = (One c # fst (atoms re), snd (atoms re))" using assms by (cases re) auto
  then have l: "here (c # re) text \<longleftrightarrow>
      (\<exists>v w. text = v @ w \<and> (\<exists>x v'. v = x # v' \<and> fits c x \<and> v' \<in> lang (fst (atoms re))) \<and> (snd (atoms re) \<longrightarrow> w = []))"
    by (simp add: here_def)
  show ?thesis
  proof
    assume "here (c # re) text"
    then obtain w x v' where t: "text = (x # v') @ w" "fits c x" "v' \<in> lang (fst (atoms re))" "snd (atoms re) \<longrightarrow> w = []"
      unfolding l by blast
    then have "here re (v' @ w)" unfolding here_def by blast
    with t show "\<exists>x text'. text = x # text' \<and> fits c x \<and> here re text'" by auto
  next
    assume "\<exists>x text'. text = x # text' \<and> fits c x \<and> here re text'"
    then obtain x v w where t: "text = x # v @ w" "fits c x" "v \<in> lang (fst (atoms re))" "snd (atoms re) \<longrightarrow> w = []"
      unfolding here_def by blast
    then show "here (c # re) text" unfolding l by (intro exI [of _ "x # v"] exI [of _ w]) auto
  qed
qed

lemma here_many:
  "here (c # CHR ''*'' # re) text \<longleftrightarrow> here re text \<or> (\<exists>x text'. text = x # text' \<and> fits c x \<and> here (c # CHR ''*'' # re) text')"
  (is "?l = ?r")
proof -
  have h: "here (c # CHR ''*'' # re) t \<longleftrightarrow> (\<exists>u v w. t = (u @ v) @ w \<and> (\<forall>x \<in> set u. fits c x) \<and>
      v \<in> lang (fst (atoms re)) \<and> (snd (atoms re) \<longrightarrow> w = []))" for t
    unfolding here_def atoms.simps if_P [OF refl] fst_conv snd_conv lang.simps by blast
  show ?thesis
  proof
    assume ?l
    then obtain u v w where t: "text = (u @ v) @ w" "\<forall>x \<in> set u. fits c x" "v \<in> lang (fst (atoms re))" "snd (atoms re) \<longrightarrow> w = []"
      unfolding h by blast
    show ?r
    proof (cases u)
      case Nil
      with t have "here re text" unfolding here_def by (intro exI [of _ v] exI [of _ w]) simp
      then show ?thesis ..
    next
      case (Cons x u')
      with t have "here (c # CHR ''*'' # re) (u' @ v @ w)"
        unfolding h by (intro exI [of _ u'] exI [of _ v] exI [of _ w]) simp
      with Cons t show ?thesis by auto
    qed
  next
    assume ?r
    then show ?l
    proof
      assume "here re text"
      then obtain v w where "text = v @ w" "v \<in> lang (fst (atoms re))" "snd (atoms re) \<longrightarrow> w = []" unfolding here_def by blast
      then show ?l unfolding h by (intro exI [of _ "[]"] exI [of _ v] exI [of _ w]) simp
    next
      assume "\<exists>x text'. text = x # text' \<and> fits c x \<and> here (c # CHR ''*'' # re) text'"
      then obtain x u v w where "text = x # (u @ v) @ w" "fits c x" "\<forall>x \<in> set u. fits c x"
        "v \<in> lang (fst (atoms re))" "snd (atoms re) \<longrightarrow> w = []" unfolding h by blast
      then show ?l unfolding h by (intro exI [of _ "x # u"] exI [of _ v] exI [of _ w]) simp
    qed
  qed
qed

section \<open>The matcher implements the meaning\<close>

lemma matcher_correct:
  "matchhere re t = here re t" and "matchstar c re t = here (c # CHR ''*'' # re) t"
proof (induction re t and c re t rule: matchhere_matchstar.induct)
  case (1 t)
  show ?case by (simp add: matchhere.simps here_Nil)
next
  case (2 c re t)
  show ?case
  proof (cases "re \<noteq> [] \<and> hd re = CHR ''*''")
    case True
    then obtain re' where re: "re = CHR ''*'' # re'" by (cases re) auto
    with 2 True show ?thesis by (simp add: matchhere.simps)
  next
    case False
    then have m: "matchhere (c # re) t = (if c = CHR ''$'' \<and> re = [] then t = [] else case t of [] \<Rightarrow> False
        | x # t' \<Rightarrow> if c = CHR ''.'' \<or> c = x then matchhere re t' else False)"
      by (simp only: matchhere.simps if_False)
    show ?thesis
    proof (cases "c = CHR ''$'' \<and> re = []")
      case True
      with m show ?thesis by (simp add: here_end)
    next
      case ne: False
      with False here_one [of re c t] m 2 show ?thesis by (auto simp: fits_def split: list.splits if_splits)
    qed
  qed
next
  case (3 c re t)
  then show ?case by (subst matchstar.simps, subst here_many) (auto simp: fits_def split: list.split)
qed

lemma match_from_correct: "match_from re t \<longleftrightarrow> (\<exists>u v. t = u @ v \<and> here re v)"
proof (induction re t rule: match_from.induct)
  case (1 re t)
  show ?case
  proof (cases "matchhere re t")
    case True
    then have "here re t" by (simp add: matcher_correct)
    then have "\<exists>u v. t = u @ v \<and> here re v" by (intro exI [of _ "[]"] exI [of _ t]) simp
    with True show ?thesis by (simp add: match_from.simps)
  next
    case False
    then have n: "\<not> here re t" by (simp add: matcher_correct)
    have "(\<exists>u v. t = u @ v \<and> here re v) \<longleftrightarrow> (\<exists>x t'. t = x # t' \<and> (\<exists>u v. t' = u @ v \<and> here re v))"
      (is "?l = ?r")
    proof
      assume ?l
      then obtain u v where uv: "t = u @ v" "here re v" by blast
      with n obtain x u' where "u = x # u'" by (cases u) auto
      with uv show ?r by auto
    next
      assume ?r
      then show ?l by (metis append_Cons)
    qed
    with 1 False show ?thesis by (cases t) (simp_all add: match_from.simps [of re "_"] match_from.simps)
  qed
qed

section \<open>Properties\<close>

text \<open>C33: The matcher decides the meaning of patterns.  \<^verbatim>\<open>match()\<close>, with its backtracking loops
  over pointers, accepts a text exactly if the text contains a string of the language of the pattern's
  atoms: at its start if the pattern begins with \<open>^\<close>, at its end if it ends in \<open>$\<close>, and anywhere
  otherwise.\<close>

theorem grep_match_language:
  "match re t \<longleftrightarrow>
     (let bol = (re \<noteq> [] \<and> hd re = CHR ''^''); p = atoms (if bol then tl re else re)
      in \<exists>u v w. t = u @ v @ w \<and> v \<in> lang (fst p) \<and> (bol \<longrightarrow> u = []) \<and> (snd p \<longrightarrow> w = []))"
  unfolding match_def match_from_correct matcher_correct here_def Let_def by auto

theorem grep_match_language_witness:
  "match ''^a*b'' ''aabc'' \<and> \<not> match ''^b'' ''ab''"
proof
  have "''aa'' @ ''b'' @ [] \<in> lang [Many CHR ''a'', One CHR ''b'']"
    unfolding lang.simps mem_Collect_eq by (intro exI conjI, rule refl) (auto simp: fits_def)
  then show "match ''^a*b'' ''aabc''"
    unfolding grep_match_language by (simp add: Let_def) (intro exI [of _ "''aab''"] exI [of _ "''c''"], simp)
  show "\<not> match ''^b'' ''ab''" unfolding grep_match_language by (auto simp: fits_def)
qed


end
