(* ===== verification/Shell.thy ===== *)
theory Shell
  imports Xv6_Prelude
begin

text \<open>
  \<^verbatim>\<open>sh.c\<close>: the parser of the shell.  A pointer into the line is the list of the characters from it
  to the end of the line, which holds no zero byte.  A word is the list of its characters; the code
  keeps a pointer to its first character and one behind its last, and \<^verbatim>\<open>nulterminate()\<close> stores a zero
  byte there, which is a blank, an operator or the end of the line and so never part of another word.
  A call of \<^verbatim>\<open>panic()\<close>, which prints a message and ends the process, is the value \<open>Inl\<close> with
  that message.
\<close>

section \<open>Commands\<close>

datatype cmd =
    EXEC "string list"
  | REDIR cmd string int int
  | PIPE cmd cmd
  | LIST cmd cmd
  | BACK cmd

abbreviation MAXARGS :: nat where "MAXARGS \<equiv> 10"

type_synonym 'a parse = "string + 'a \<times> string"

section \<open>Tokens\<close>

definition whitespace :: "char list" where
  "whitespace = [CHR '' '', CHR 0x09, CHR 0x0D, CHR 0x0A, CHR 0x0B]"

definition symbols :: "char list" where
  "symbols = ''<|>&;()''"

definition skip_ws :: "string \<Rightarrow> string" where
  "skip_ws s = dropWhile (\<lambda>c. c \<in> set whitespace) s"

definition word_char :: "char \<Rightarrow> bool" where
  "word_char c \<longleftrightarrow> c \<notin> set whitespace \<and> c \<notin> set symbols"

text \<open>
  A token: its kind (a zero byte at the end of the line, \<open>a\<close> for a word, \<open>+\<close> for \<open>>>\<close>), the
  characters between \<^verbatim>\<open>*q\<close> and \<^verbatim>\<open>*eq\<close>, and the rest of the line.
\<close>

definition gettoken :: "string \<Rightarrow> char \<times> string \<times> string" where
  "gettoken s0 =
     (case skip_ws s0 of
        [] \<Rightarrow> (CHR 0x00, [], [])
      | c # s \<Rightarrow>
         if c \<in> set ''|();&<'' then (c, [c], skip_ws s)
         else if c = CHR ''>'' then
           (if s \<noteq> [] \<and> hd s = CHR ''>'' then (CHR ''+'', [c, c], skip_ws (tl s)) else (c, [c], skip_ws s))
         else (CHR ''a'', takeWhile word_char (c # s), skip_ws (dropWhile word_char (c # s))))"

definition peek :: "string \<Rightarrow> string \<Rightarrow> bool" where
  "peek s toks \<longleftrightarrow> (case skip_ws s of [] \<Rightarrow> False | c # _ \<Rightarrow> c \<in> set toks)"

abbreviation token :: "string \<Rightarrow> char" where "token s \<equiv> fst (gettoken s)"
abbreviation tok_word :: "string \<Rightarrow> string" where "tok_word s \<equiv> fst (snd (gettoken s))"
abbreviation after :: "string \<Rightarrow> string" where "after s \<equiv> snd (snd (gettoken s))"

lemma skip_ws_le: "length (skip_ws s) \<le> length s"
  by (simp add: skip_ws_def length_dropWhile_le)

lemma word_char_default: "c \<notin> set whitespace \<Longrightarrow> c \<notin> set ''|();&<'' \<Longrightarrow> c \<noteq> CHR ''>'' \<Longrightarrow> word_char c"
  by (auto simp: word_char_def symbols_def)

lemma skip_ws_head: "skip_ws s = c # t \<Longrightarrow> c \<notin> set whitespace"
  unfolding skip_ws_def by (metis (mono_tags, lifting) hd_dropWhile list.sel(1) list.simps(3))

text \<open>A token that is not the end of the line makes the rest shorter.\<close>

lemma after_shorter:
  assumes "token s \<noteq> CHR 0x00"
  shows "length (after s) < length s"
proof -
  obtain c t where ct: "skip_ws s = c # t" using assms by (cases "skip_ws s") (auto simp: gettoken_def)
  have "length t < length s" using skip_ws_le [of s] ct by simp
  moreover have "length (after s) \<le> length t"
  proof -
    consider "c \<in> set ''|();&<''" | "c = CHR ''>''" | "c \<notin> set ''|();&<''" "c \<noteq> CHR ''>''" by blast
    then show ?thesis
    proof cases
      case 1
      then have "after s = skip_ws t" unfolding gettoken_def ct by (simp only: list.case if_True fst_conv snd_conv)
      then show ?thesis by (simp add: skip_ws_le)
    next
      case 2
      then have "after s = skip_ws t \<or> after s = skip_ws (tl t)" by (auto simp: gettoken_def ct)
      with skip_ws_le [of t] skip_ws_le [of "tl t"] show ?thesis by auto
    next
      case 3
      then have w: "word_char c" using skip_ws_head [OF ct] by (intro word_char_default)
      have "after s = skip_ws (dropWhile word_char (c # t))"
        unfolding gettoken_def ct using 3 by (simp only: list.case if_False fst_conv snd_conv)
      also have "dropWhile word_char (c # t) = dropWhile word_char t" using w by simp
      finally show ?thesis using skip_ws_le [of "dropWhile word_char t"] length_dropWhile_le [of word_char t] by simp
    qed
  qed
  ultimately show ?thesis by linarith
qed

lemma peek_token: "peek s toks \<Longrightarrow> CHR 0x00 \<notin> set toks \<Longrightarrow> set toks \<subseteq> set symbols \<Longrightarrow> token s \<noteq> CHR 0x00"
  by (auto simp: peek_def gettoken_def symbols_def split: list.splits)

lemma after_peek: "peek s toks \<Longrightarrow> set toks \<subseteq> set symbols \<Longrightarrow> length (after s) < length s"
  by (intro after_shorter peek_token) (auto simp: symbols_def)

section \<open>Redirections and arguments\<close>

text \<open>The loop of \<^verbatim>\<open>parseredirs()\<close>: the file, the mode and the descriptor of each redirection.\<close>

type_synonym redir = "string \<times> int \<times> int"

definition mk_redir :: "char \<Rightarrow> string \<Rightarrow> redir" where
  "mk_redir tok f = (if tok = CHR ''<'' then (f, 0, 0) else (f, 0x201, 1))"

function parse_redirs :: "string \<Rightarrow> redir list parse" where
  "parse_redirs s =
     (if peek s ''<>'' then
        if token (after s) \<noteq> CHR ''a'' then Inl ''missing file for redirection''
        else (case parse_redirs (after (after s)) of
            Inl e \<Rightarrow> Inl e
          | Inr (rs, s') \<Rightarrow> Inr (mk_redir (token s) (tok_word (after s)) # rs, s'))
      else Inr ([], skip_ws s))"
  by pat_completeness auto
termination
proof (relation "measure length", goal_cases)
  case (2 s)
  then have "length (after s) < length s" by (intro after_peek) (auto simp: symbols_def)
  moreover have "length (after (after s)) < length (after s)" using 2 by (intro after_shorter) auto
  ultimately show ?case by simp
qed simp

declare parse_redirs.simps [simp del]

lemma parse_redirs_le: "parse_redirs s = Inr (rs, s') \<Longrightarrow> length s' \<le> length s"
proof (induction s arbitrary: rs s' rule: parse_redirs.induct)
  case (1 s)
  show ?case
  proof (cases "peek s ''<>''")
    case False
    with 1 show ?thesis by (auto simp: parse_redirs.simps [of s] skip_ws_le)
  next
    case True
    then have a: "length (after s) < length s" by (intro after_peek) (auto simp: symbols_def)
    from True 1(2) have t: "token (after s) = CHR ''a''" by (simp add: parse_redirs.simps [of s] split: if_splits)
    then have "length (after (after s)) < length (after s)" by (intro after_shorter) simp
    with 1 True t a show ?thesis by (auto simp: parse_redirs.simps [of s] split: sum.splits)
  qed
qed

primrec redircmds :: "cmd \<Rightarrow> redir list \<Rightarrow> cmd" where
  "redircmds c [] = c"
| "redircmds c (r # rs) = redircmds (case r of (f, m, fd) \<Rightarrow> REDIR c f m fd) rs"

definition parseredirs :: "cmd \<Rightarrow> string \<Rightarrow> cmd parse" where
  "parseredirs c s = (case parse_redirs s of Inl e \<Rightarrow> Inl e | Inr (rs, s') \<Rightarrow> Inr (redircmds c rs, s'))"

text \<open>
  The loop of \<^verbatim>\<open>parseexec()\<close> over the arguments.  The redirections it meets are wrapped round the
  command whose arguments it is still storing, so words and redirections are collected apart.
\<close>

function parse_args :: "nat \<Rightarrow> string \<Rightarrow> (string list \<times> redir list) parse" where
  "parse_args argc s =
     (if peek s ''|)&;'' then Inr (([], []), skip_ws s)
      else if token s = CHR 0x00 then Inr (([], []), after s)
      else if token s \<noteq> CHR ''a'' then Inl ''syntax''
      else if argc + 1 \<ge> MAXARGS then Inl ''too many args''
      else (case parse_redirs (after s) of
          Inl e \<Rightarrow> Inl e
        | Inr (rs, s1) \<Rightarrow>
           (case parse_args (argc + 1) s1 of
              Inl e \<Rightarrow> Inl e
            | Inr ((ws, rs'), s2) \<Rightarrow> Inr ((tok_word s # ws, rs @ rs'), s2))))"
  by pat_completeness auto
termination
proof (relation "measure (\<lambda>(argc, s). length s)", goal_cases)
  case (2 argc s p rs s1)
  then have "length s1 \<le> length (after s)" by (intro parse_redirs_le) auto
  moreover have "length (after s) < length s" using 2 by (intro after_shorter) auto
  ultimately show ?case by simp
qed simp

declare parse_args.simps [simp del]

lemma parse_args_le: "parse_args argc s = Inr (p, s') \<Longrightarrow> length s' \<le> length s"
proof (induction argc s arbitrary: p s' rule: parse_args.induct)
  case (1 argc s)
  note e = "1.prems" [unfolded parse_args.simps [of argc s]]
  consider "peek s ''|)&;''" | "\<not> peek s ''|)&;''" "token s = CHR 0x00" | "\<not> peek s ''|)&;''" "token s = CHR ''a''"
    using e by (auto split: if_splits)
  then show ?case
  proof cases
    case 1
    with e show ?thesis by (auto simp: skip_ws_le)
  next
    case 2
    with e have "s' = after s" by simp
    with 2 show ?thesis by (auto simp: gettoken_def split: list.splits if_splits)
  next
    case 3
    from 3 e obtain rs s1 q where s1: "argc + 1 < MAXARGS" "parse_redirs (after s) = Inr (rs, s1)" "parse_args (argc + 1) s1 = Inr (q, s')"
      by (auto split: if_splits sum.splits)
    have "length s' \<le> length s1" using 3 s1 by (intro "1.IH" [where x = rs and y = s1, OF _ _ _ _ s1(2) refl s1(3)]) simp_all
    also have "\<dots> \<le> length (after s)" using s1(2) by (rule parse_redirs_le)
    also have "\<dots> \<le> length s" using 3 by (intro less_imp_le after_shorter) simp
    finally show ?thesis .
  qed
qed

section \<open>Commands\<close>

text \<open>The loop of \<^verbatim>\<open>parseline()\<close> over the ampersands.\<close>

function parse_backs :: "cmd \<Rightarrow> string \<Rightarrow> cmd \<times> string" where
  "parse_backs c s = (if peek s ''&'' then parse_backs (BACK c) (after s) else (c, skip_ws s))"
  by pat_completeness auto
termination
  by (relation "measure (\<lambda>(c, s). length s)") (auto intro!: after_peek simp: symbols_def)

declare parse_backs.simps [simp del]

lemma parse_backs_le: "length (snd (parse_backs c s)) \<le> length s"
proof (induction c s rule: parse_backs.induct)
  case (1 c s)
  show ?case
  proof (cases "peek s ''&''")
    case True
    then have "length (after s) < length s" by (intro after_peek) (auto simp: symbols_def)
    with 1 True show ?thesis by (simp add: parse_backs.simps [of c s])
  next
    case False
    then show ?thesis by (simp add: parse_backs.simps [of c s] skip_ws_le)
  qed
qed

text \<open>
  Every part of the parser leaves a rest that is no longer than what it was given: the steps of that
  argument, for the rest that a recursive call may leave.
\<close>

lemma line_rest_le:
  assumes "length s1 \<le> length s" and "parse_backs c s1 = (c', s2)"
  shows "peek s2 '';'' \<Longrightarrow> length (after s2) < length s" and "length (skip_ws s2) \<le> length s"
proof -
  have "length s2 \<le> length s" using assms parse_backs_le [of c s1] by simp
  then show "length (skip_ws s2) \<le> length s" using skip_ws_le [of s2] by simp
  assume "peek s2 '';''"
  then have "length (after s2) < length s2" by (intro after_peek) (auto simp: symbols_def)
  with \<open>length s2 \<le> length s\<close> show "length (after s2) < length s" by simp
qed

lemma pipe_rest_le:
  assumes "length s1 \<le> length s"
  shows "peek s1 ''|'' \<Longrightarrow> length (after s1) < length s" and "length (skip_ws s1) \<le> length s"
proof -
  show "length (skip_ws s1) \<le> length s" using assms skip_ws_le [of s1] by simp
  assume "peek s1 ''|''"
  then have "length (after s1) < length s1" by (intro after_peek) (auto simp: symbols_def)
  with assms show "length (after s1) < length s" by simp
qed

lemma block_rest_le:
  assumes "length s1 \<le> length (after s)" and "peek s ''(''" and "peek s1 '')''" and "parseredirs c (after s1) = Inr (d, s')"
  shows "length s' \<le> length s"
proof -
  have "length (after s) < length s" using assms(2) by (intro after_peek) (auto simp: symbols_def)
  moreover have "length (after s1) < length s1" using assms(3) by (intro after_peek) (auto simp: symbols_def)
  moreover have "length s' \<le> length (after s1)" using assms(4) by (auto simp: parseredirs_def split: sum.splits dest: parse_redirs_le)
  ultimately show ?thesis using assms(1) by simp
qed

function (domintros) parseline :: "string \<Rightarrow> cmd parse"
  and parsepipe :: "string \<Rightarrow> cmd parse"
  and parseexec :: "string \<Rightarrow> cmd parse"
  and parseblock :: "string \<Rightarrow> cmd parse" where
  "parseline s =
     (case parsepipe s of
        Inl e \<Rightarrow> Inl e
      | Inr (c, s1) \<Rightarrow>
         (case parse_backs c s1 of (c', s2) \<Rightarrow>
            if peek s2 '';'' then
              (case parseline (after s2) of Inl e \<Rightarrow> Inl e | Inr (d, s3) \<Rightarrow> Inr (LIST c' d, s3))
            else Inr (c', skip_ws s2)))"
| "parsepipe s =
     (case parseexec s of
        Inl e \<Rightarrow> Inl e
      | Inr (c, s1) \<Rightarrow>
         if peek s1 ''|'' then
           (case parsepipe (after s1) of Inl e \<Rightarrow> Inl e | Inr (d, s2) \<Rightarrow> Inr (PIPE c d, s2))
         else Inr (c, skip_ws s1))"
| "parseexec s =
     (if peek s ''('' then parseblock s
      else (case parse_redirs s of
          Inl e \<Rightarrow> Inl e
        | Inr (rs, s1) \<Rightarrow>
           (case parse_args 0 s1 of
              Inl e \<Rightarrow> Inl e
            | Inr ((ws, rs'), s2) \<Rightarrow> Inr (redircmds (EXEC ws) (rs @ rs'), s2))))"
| "parseblock s =
     (if \<not> peek s ''('' then Inl ''parseblock''
      else (case parseline (after s) of
          Inl e \<Rightarrow> Inl e
        | Inr (c, s1) \<Rightarrow>
           if \<not> peek s1 '')'' then Inl ''syntax - missing )''
           else parseredirs c (after s1)))"
  by pat_completeness auto
termination
proof -
  let ?D = parseline_parsepipe_parseexec_parseblock_dom
  have le: "?D (Inl (Inl s)) \<Longrightarrow> parseline s = Inr (c, s') \<Longrightarrow> length s' \<le> length s"
    "?D (Inl (Inr s)) \<Longrightarrow> parsepipe s = Inr (c, s') \<Longrightarrow> length s' \<le> length s"
    "?D (Inr (Inl s)) \<Longrightarrow> parseexec s = Inr (c, s') \<Longrightarrow> length s' \<le> length s"
    "?D (Inr (Inr s)) \<Longrightarrow> parseblock s = Inr (c, s') \<Longrightarrow> length s' \<le> length s" for s c s'
  proof (induction s and s and s and s arbitrary: c s' and c s' and c s' and c s'
      rule: parseline_parsepipe_parseexec_parseblock.pinduct)
    case (1 s)
    note e = "1.prems" [unfolded parseline.psimps [OF "1.hyps"]]
    then obtain c1 s1 where p: "parsepipe s = Inr (c1, s1)" by (auto split: sum.splits)
    obtain c2 s2 where b: "parse_backs c1 s1 = (c2, s2)" by force
    note r = line_rest_le [OF "1.IH"(1) [OF p] b]
    note n = "1.IH"(2) [OF p refl b [symmetric]]
    show ?case using e p b r n by (cases "peek s2 '';''") (auto split: sum.splits intro: less_imp_le le_less_trans)
  next
    case (2 s)
    note e = "2.prems" [unfolded parsepipe.psimps [OF "2.hyps"]]
    then obtain c1 s1 where p: "parseexec s = Inr (c1, s1)" by (auto split: sum.splits)
    note r = pipe_rest_le [OF "2.IH"(1) [OF p]] and n = "2.IH"(2) [OF p refl]
    show ?case using e p r n by (cases "peek s1 ''|''") (auto split: sum.splits intro: less_imp_le le_less_trans)
  next
    case (3 s)
    note e = "3.prems" [unfolded parseexec.psimps [OF "3.hyps"]]
    show ?case
    proof (cases "peek s ''(''")
      case True
      with e show ?thesis by (intro "3.IH" [OF True]) simp
    next
      case False
      with e obtain rs s1 p where "parse_redirs s = Inr (rs, s1)" "parse_args 0 s1 = Inr (p, s')" by (auto split: sum.splits)
      then show ?thesis using parse_redirs_le parse_args_le le_trans by blast
    qed
  next
    case (4 s)
    note e = "4.prems" [unfolded parseblock.psimps [OF "4.hyps"]]
    then have o: "peek s ''(''" by (auto split: if_splits)
    with e obtain c1 s1 where p: "parseline (after s) = Inr (c1, s1)" "peek s1 '')''" "parseredirs c1 (after s1) = Inr (c, s')"
      by (auto split: sum.splits if_splits)
    show ?case by (rule block_rest_le [OF _ o p(2,3)], rule "4.IH" [OF _ p(1)]) (simp add: o)
  qed
  show ?thesis
  proof (relation "measures
      [\<lambda>p. case p of Inl (Inl s) \<Rightarrow> length s | Inl (Inr s) \<Rightarrow> length s | Inr (Inl s) \<Rightarrow> length s | Inr (Inr s) \<Rightarrow> length s,
       \<lambda>p. case p of Inl (Inl s) \<Rightarrow> 3 | Inl (Inr s) \<Rightarrow> 2 | Inr (Inl s) \<Rightarrow> 1 | Inr (Inr s) \<Rightarrow> 0]", goal_cases)
    case (3 s p c1 s1 c2 s2)
    then have "length s1 \<le> length s" by (auto dest: le(2))
    moreover have "parse_backs c1 s1 = (c2, s2)" using 3 by simp
    ultimately have "length (after s2) < length s" using 3 by (intro line_rest_le(1))
    then show ?case by simp
  next
    case (5 s p c1 s1)
    then have "length s1 \<le> length s" by (auto dest: le(3))
    then have "length (after s1) < length s" using 5 by (intro pipe_rest_le(1))
    then show ?case by simp
  next
    case (7 s)
    then show ?case by (auto intro!: after_peek simp: symbols_def)
  qed simp_all
qed

lemmas parse_simps = parseline.simps parsepipe.simps parseexec.simps parseblock.simps

declare parse_simps [simp del]

definition parsecmd :: "string \<Rightarrow> string + cmd" where
  "parsecmd s =
     (case parseline s of
        Inl e \<Rightarrow> Inl e
      | Inr (c, s') \<Rightarrow> if skip_ws s' \<noteq> [] then Inl ''syntax'' else Inr c)"

section \<open>Printing\<close>

text \<open>
  Commands as a user would type them.  The level says which operators need no parentheses: 0 for a
  line, 1 left of a semicolon, 2 right of a bar, 3 left of it.
\<close>

definition show_words :: "string list \<Rightarrow> string" where
  "show_words ws = concat (map (\<lambda>w. CHR '' '' # w) ws)"

definition show_redir :: "redir \<Rightarrow> string" where
  "show_redir r = (case r of (f, m, fd) \<Rightarrow> (if fd = 0 then '' <'' else '' >'') @ CHR '' '' # f)"

definition show_redirs :: "redir list \<Rightarrow> string" where
  "show_redirs rs = concat (map show_redir rs)"

definition paren :: "bool \<Rightarrow> string \<Rightarrow> string" where
  "paren b s = (if b then '' ('' @ s @ '' )'' else s)"

primrec show_cmd :: "nat \<Rightarrow> cmd \<Rightarrow> string" where
  "show_cmd l (EXEC ws) = show_words ws"
| "show_cmd l (REDIR c f m fd) = show_cmd 3 c @ show_redir (f, m, fd)"
| "show_cmd l (PIPE c d) = paren (2 < l) (show_cmd 3 c @ '' |'' @ show_cmd 2 d)"
| "show_cmd l (BACK c) = paren (1 < l) (show_cmd 1 c @ '' &'')"
| "show_cmd l (LIST c d) = paren (0 < l) (show_cmd 1 c @ '' ;'' @ show_cmd 0 d)"

text \<open>Commands that can be typed: words are not empty and hold no blank and no operator.\<close>

definition wf_word :: "string \<Rightarrow> bool" where
  "wf_word w \<longleftrightarrow> w \<noteq> [] \<and> (\<forall>c \<in> set w. word_char c \<and> c \<noteq> CHR 0x00)"

definition wf_redir :: "redir \<Rightarrow> bool" where
  "wf_redir r \<longleftrightarrow> (case r of (f, m, fd) \<Rightarrow> wf_word f \<and> (m, fd) \<in> {(0, 0), (0x201, 1)})"

primrec wf_cmd :: "cmd \<Rightarrow> bool" where
  "wf_cmd (EXEC ws) \<longleftrightarrow> length ws < MAXARGS \<and> (\<forall>w \<in> set ws. wf_word w)"
| "wf_cmd (REDIR c f m fd) \<longleftrightarrow> wf_cmd c \<and> wf_redir (f, m, fd)"
| "wf_cmd (PIPE c d) \<longleftrightarrow> wf_cmd c \<and> wf_cmd d"
| "wf_cmd (BACK c) \<longleftrightarrow> wf_cmd c"
| "wf_cmd (LIST c d) \<longleftrightarrow> wf_cmd c \<and> wf_cmd d"

section \<open>Tokens of printed text\<close>

lemma skip_ws_idem [simp]: "skip_ws (skip_ws s) = skip_ws s"
  by (cases "skip_ws s") (auto simp: skip_ws_def dest: skip_ws_head [unfolded skip_ws_def])

lemma gettoken_skip [simp]: "gettoken (skip_ws s) = gettoken s"
  by (simp add: gettoken_def)

lemma peek_skip [simp]: "peek (skip_ws s) toks = peek s toks"
  by (simp add: peek_def)

lemma skip_ws_blank [simp]: "skip_ws (CHR '' '' # s) = skip_ws s"
  by (simp add: skip_ws_def whitespace_def)

lemma gettoken_blank [simp]: "gettoken (CHR '' '' # s) = gettoken s"
  by (simp add: gettoken_def)

lemma peek_blank [simp]: "peek (CHR '' '' # s) toks = peek s toks"
  by (simp add: peek_def)

lemma parse_skip [simp]:
  "parse_redirs (skip_ws s) = parse_redirs s" "parse_args n (skip_ws s) = parse_args n s"
  "parse_backs c (skip_ws s) = parse_backs c s"
  by (simp_all add: parse_redirs.simps [of "skip_ws s"] parse_redirs.simps [of s]
      parse_args.simps [of n "skip_ws s"] parse_args.simps [of n s]
      parse_backs.simps [of c "skip_ws s"] parse_backs.simps [of c s] cong: sum.case_cong prod.case_cong)

lemma parse_cmd_skip [simp]:
  "parseblock (skip_ws s) = parseblock s" "parseexec (skip_ws s) = parseexec s"
  "parsepipe (skip_ws s) = parsepipe s" "parseline (skip_ws s) = parseline s"
proof -
  show b: "parseblock (skip_ws s) = parseblock s" by (simp add: parseblock.simps [of "skip_ws s"] parseblock.simps [of s])
  show e: "parseexec (skip_ws s) = parseexec s" by (simp add: parseexec.simps [of "skip_ws s"] parseexec.simps [of s] b)
  show p: "parsepipe (skip_ws s) = parsepipe s" by (simp add: parsepipe.simps [of "skip_ws s"] parsepipe.simps [of s] e)
  show "parseline (skip_ws s) = parseline s" by (simp add: parseline.simps [of "skip_ws s"] parseline.simps [of s] p)
qed

text \<open>What may follow a printed piece: nothing, or a blank.\<close>

definition tail_ok :: "string \<Rightarrow> bool" where
  "tail_ok t \<longleftrightarrow> t = [] \<or> hd t = CHR '' ''"

lemma gettoken_symbol:
  assumes "c \<in> set ''|();&<''"
  shows "gettoken (c # s) = (c, [c], skip_ws s)"
proof -
  have "c \<notin> set whitespace" using assms by (auto simp: whitespace_def)
  then have "skip_ws (c # s) = c # s" by (simp add: skip_ws_def)
  with assms show ?thesis unfolding gettoken_def by (simp only: list.case if_True)
qed

lemma gettoken_gt: "tail_ok s \<Longrightarrow> gettoken (CHR ''>'' # s) = (CHR ''>'', ''>'', skip_ws s)"
  by (auto simp: gettoken_def skip_ws_def whitespace_def tail_ok_def)

lemma gettoken_word:
  assumes "wf_word w" and "tail_ok t"
  shows "gettoken (w @ t) = (CHR ''a'', w, skip_ws t)" and "\<not> peek (w @ t) ''|)&;<>('' "
proof -
  obtain c w' where w: "w = c # w'" "word_char c" using assms(1) by (cases w) (auto simp: wf_word_def)
  then have sk: "skip_ws (w @ t) = c # w' @ t" by (simp add: skip_ws_def word_char_def)
  have c: "c \<notin> set ''|();&<''" "c \<noteq> CHR ''>''" using w(2) by (auto simp: word_char_def symbols_def)
  have t: "takeWhile word_char t = []" "dropWhile word_char t = t"
    using assms(2) by (cases t; simp add: tail_ok_def word_char_def whitespace_def)+
  have all: "\<forall>x \<in> set w. word_char x" using assms(1) by (simp add: wf_word_def)
  have "takeWhile word_char (w @ t) = w" "dropWhile word_char (w @ t) = t" using all t by simp_all
  then have "takeWhile word_char (c # w' @ t) = w" "dropWhile word_char (c # w' @ t) = t" using w by simp_all
  then show "gettoken (w @ t) = (CHR ''a'', w, skip_ws t)"
    unfolding gettoken_def sk using c by (simp only: list.case if_False)
  show "\<not> peek (w @ t) ''|)&;<>('' " using w(2) by (auto simp: peek_def sk word_char_def symbols_def)
qed

section \<open>Parsing printed text\<close>

lemma show_redir_head: "show_redir r = CHR '' '' # tl (show_redir r)"
  by (simp add: show_redir_def split: prod.split)

lemma tail_ok_redirs: "tail_ok t \<Longrightarrow> tail_ok (show_redirs rs @ t)"
proof (cases rs)
  case (Cons r rs')
  then show ?thesis by (subst Cons) (simp add: show_redirs_def tail_ok_def, subst show_redir_head, simp)
qed (simp add: show_redirs_def)

lemma tail_ok_words: "tail_ok t \<Longrightarrow> tail_ok (show_words ws @ t)"
  by (cases ws) (simp_all add: show_words_def tail_ok_def)

lemma parse_redirs_show:
  "(\<forall>r \<in> set rs. wf_redir r) \<Longrightarrow> tail_ok t \<Longrightarrow> \<not> peek t ''<>'' \<Longrightarrow> parse_redirs (show_redirs rs @ t) = Inr (rs, skip_ws t)"
proof (induction rs)
  case Nil
  then show ?case by (simp add: show_redirs_def parse_redirs.simps [of t])
next
  case (Cons r rs)
  obtain f m fd where r: "r = (f, m, fd)" by (cases r) auto
  let ?u = "show_redirs rs @ t" and ?tok = "if fd = 0 then CHR ''<'' else CHR ''>''"
  have f: "wf_word f" and m: "mk_redir ?tok f = (f, m, fd)" using Cons.prems(1) r by (auto simp: wf_redir_def mk_redir_def)
  have u: "tail_ok ?u" using Cons.prems(2) by (rule tail_ok_redirs)
  let ?s = "?tok # CHR '' '' # f @ ?u"
  have s: "show_redirs (r # rs) @ t = CHR '' '' # ?s" by (simp add: show_redirs_def show_redir_def r)
  have g: "gettoken ?s = (?tok, [?tok], skip_ws (f @ ?u))" by (simp add: gettoken_symbol gettoken_gt tail_ok_def)
  have p: "peek ?s ''<>''" by (simp add: peek_def skip_ws_def whitespace_def)
  have "parse_redirs ?u = Inr (rs, skip_ws t)" using Cons by simp
  then have "parse_redirs ?s = Inr (r # rs, skip_ws t)"
    using p g gettoken_word(1) [OF f u] m r by (simp add: parse_redirs.simps [of ?s])
  moreover have "parse_redirs (CHR '' '' # ?s) = parse_redirs ?s" using parse_skip(1) [of "CHR '' '' # ?s"] by simp
  ultimately show ?case unfolding s by simp
qed

text \<open>The end of a simple command: the end of the line or one of the operators that follow it.\<close>

definition stop :: "string \<Rightarrow> string \<Rightarrow> bool" where
  "stop toks t \<longleftrightarrow> tail_ok t \<and> (skip_ws t = [] \<or> peek t toks)"

lemma stopD: "stop toks t \<Longrightarrow> tail_ok t"
  by (simp add: stop_def)

lemma stop_mono: "stop toks t \<Longrightarrow> set toks \<subseteq> set toks' \<Longrightarrow> stop toks' t"
  by (auto simp: stop_def peek_def split: list.splits)

lemma stop_no_peek: "stop toks t \<Longrightarrow> set toks \<inter> set toks' = {} \<Longrightarrow> \<not> peek t toks'"
  by (auto simp: stop_def peek_def split: list.splits)

lemma parse_args_stop:
  assumes "stop ''|)&;'' t"
  shows "parse_args n t = Inr (([], []), skip_ws t)"
  using assms by (cases "skip_ws t") (auto simp: stop_def parse_args.simps [of n t] peek_def gettoken_def)

lemma parse_args_show:
  "(\<forall>w \<in> set ws. wf_word w) \<Longrightarrow> (\<forall>r \<in> set rs. wf_redir r) \<Longrightarrow> stop ''|)&;'' t \<Longrightarrow> n + length ws < MAXARGS \<Longrightarrow> ws \<noteq> [] \<Longrightarrow>
   parse_args n (show_words ws @ show_redirs rs @ t) = Inr ((ws, rs), skip_ws t)"
proof (induction ws arbitrary: n)
  case (Cons w ws)
  let ?v = "show_redirs rs @ t" and ?u = "show_words ws @ show_redirs rs @ t"
  let ?s = "w @ ?u"
  have w: "wf_word w" using Cons.prems(1) by simp
  have v: "tail_ok ?v" using stopD [OF Cons.prems(3)] by (rule tail_ok_redirs)
  then have u: "tail_ok ?u" by (rule tail_ok_words)
  have np: "\<not> peek t ''<>''" using Cons.prems(3) by (rule stop_no_peek) simp
  note g = gettoken_word [OF w u]
  have pk: "\<not> peek ?s ''|)&;''" using g(2) by (auto simp: peek_def split: list.splits)
  have n: "\<not> MAXARGS \<le> n + 1" using Cons.prems(4) by simp
  have "parse_args n ?s = Inr ((w # ws, rs), skip_ws t)"
  proof (cases "ws = []")
    case True
    then have "parse_redirs (skip_ws ?u) = Inr (rs, skip_ws t)"
      using parse_redirs_show [OF Cons.prems(2) stopD [OF Cons.prems(3)] np] by (simp add: show_words_def)
    then show ?thesis unfolding parse_args.simps [of n ?s] g(1)
      using True pk n parse_args_stop [OF Cons.prems(3), of "n + 1"] by simp
  next
    case False
    then obtain x xs where ws: "ws = x # xs" by (cases ws) auto
    have "wf_word x" using Cons.prems(1) ws by simp
    moreover have "tail_ok (show_words xs @ ?v)" using v by (rule tail_ok_words)
    ultimately have "\<not> peek ?u ''<>''" using gettoken_word(2) [of x "show_words xs @ ?v"] ws
      by (auto simp: show_words_def peek_def split: list.splits)
    then have "parse_redirs (skip_ws ?u) = Inr ([], skip_ws ?u)" by (simp add: parse_redirs.simps [of ?u])
    then show ?thesis unfolding parse_args.simps [of n ?s] g(1)
      using pk n Cons.IH [of "n + 1"] Cons.prems False by simp
  qed
  moreover have "show_words (w # ws) @ ?v = CHR '' '' # ?s" by (simp add: show_words_def)
  moreover have "parse_args n (CHR '' '' # ?s) = parse_args n ?s" using parse_skip(2) [of n "CHR '' '' # ?s"] by simp
  ultimately show ?case by simp
qed simp

lemma parseexec_words:
  assumes "wf_cmd (EXEC ws)" and "\<forall>r \<in> set rs. wf_redir r" and "stop ''|)&;'' t"
  shows "parseexec (show_words ws @ show_redirs rs @ t) = Inr (redircmds (EXEC ws) rs, skip_ws t)"
proof -
  let ?s = "show_words ws @ show_redirs rs @ t"
  have np: "\<not> peek t ''<>''" "\<not> peek t ''(''" by (rule stop_no_peek [OF assms(3)], simp)+
  note t = stopD [OF assms(3)]
  show ?thesis
  proof (cases "ws = []")
    case True
    then have s: "?s = show_redirs rs @ t" by (simp add: show_words_def)
    have "\<not> peek (show_redirs rs @ t) ''(''"
    proof (cases rs)
      case (Cons r rs')
      then show ?thesis by (auto simp: show_redirs_def show_redir_def peek_def skip_ws_def whitespace_def split: prod.split)
    qed (simp add: show_redirs_def np)
    then show ?thesis unfolding s parseexec.simps [of "show_redirs rs @ t"]
      using True parse_redirs_show [OF assms(2) t np(1)] parse_args_stop [OF assms(3), of 0] by simp
  next
    case False
    then obtain w ws' where ws: "ws = w # ws'" by (cases ws) auto
    let ?v = "show_words ws' @ show_redirs rs @ t"
    have "wf_word w" using assms(1) ws by simp
    moreover have "tail_ok ?v" using t by (intro tail_ok_words tail_ok_redirs)
    ultimately have "\<not> peek (w @ ?v) ''|)&;<>(''" by (rule gettoken_word(2))
    then have "\<not> peek ?s ''(''" "\<not> peek ?s ''<>''"
      by (auto simp: ws show_words_def peek_def split: list.splits)
    then show ?thesis unfolding parseexec.simps [of ?s] parse_redirs.simps [of ?s]
      using parse_args_show [of ws rs t 0] assms False by simp
  qed
qed

text \<open>Redirections peel off: every command is one that is not a redirection, with a list of them.\<close>

lemma redircmds_snoc: "redircmds c (rs @ [(f, m, fd)]) = REDIR (redircmds c rs) f m fd"
  by (induction rs arbitrary: c) auto

lemma unredir: "\<exists>b rs. c = redircmds b rs \<and> (\<forall>d f m fd. b \<noteq> REDIR d f m fd)"
proof (induction c)
  case (REDIR c f m fd)
  then obtain b rs where "c = redircmds b rs" "\<forall>d f m fd. b \<noteq> REDIR d f m fd" by blast
  then have "REDIR c f m fd = redircmds b (rs @ [(f, m, fd)])" by (simp add: redircmds_snoc)
  with \<open>\<forall>d f m fd. b \<noteq> REDIR d f m fd\<close> show ?case by blast
qed (metis cmd.distinct redircmds.simps(1))+

lemma redircmds_facts:
  "show_cmd 3 (redircmds b rs) = show_cmd 3 b @ show_redirs rs"
  "wf_cmd (redircmds b rs) \<longleftrightarrow> wf_cmd b \<and> (\<forall>r \<in> set rs. wf_redir r)"
  "size (redircmds b rs) = size b + length rs"
  by (induction rs rule: rev_induct) (auto simp: redircmds_snoc show_redirs_def)

section \<open>The levels of the parser\<close>

definition okE :: "cmd \<Rightarrow> bool" where
  "okE c \<longleftrightarrow> (\<forall>t. stop ''|)&;'' t \<longrightarrow> parseexec (show_cmd 3 c @ t) = Inr (c, skip_ws t))"

definition okP :: "cmd \<Rightarrow> bool" where
  "okP c \<longleftrightarrow> (\<forall>t. stop '')&;'' t \<longrightarrow> parsepipe (show_cmd 2 c @ t) = Inr (c, skip_ws t))"

definition okL :: "cmd \<Rightarrow> bool" where
  "okL c \<longleftrightarrow> (\<forall>t. stop '')'' t \<longrightarrow> parseline (show_cmd 0 c @ t) = Inr (c, skip_ws t))"

lemma stop_symbol:
  assumes "c \<in> set toks" and "c \<in> set ''|();&''"
  shows "stop toks (CHR '' '' # c # t)"
proof -
  have "skip_ws (c # t) = c # t" using assms(2) by (auto simp: skip_ws_def whitespace_def)
  with assms(1) show ?thesis by (simp add: stop_def tail_ok_def peek_def)
qed

lemma after_symbol: "c \<in> set ''|();&<'' \<Longrightarrow> after (CHR '' '' # c # t) = skip_ws t"
  by (simp only: gettoken_blank gettoken_symbol snd_conv)

lemma peek_symbol: "c \<in> set ''|();&<'' \<Longrightarrow> peek (CHR '' '' # c # t) toks \<longleftrightarrow> c \<in> set toks"
  by (auto simp: peek_def skip_ws_def whitespace_def)

lemma parseexec_block:
  assumes "okL b" and "\<forall>r \<in> set rs. wf_redir r" and "stop ''|)&;'' t"
  shows "parseexec (('' ('' @ show_cmd 0 b @ '' )'') @ show_redirs rs @ t) = Inr (redircmds b rs, skip_ws t)"
proof -
  let ?v = "CHR '' '' # CHR '')'' # show_redirs rs @ t"
  let ?u = "show_cmd 0 b @ ?v"
  let ?s = "CHR '' '' # CHR ''('' # ?u"
  have np: "\<not> peek t ''<>''" by (rule stop_no_peek [OF assms(3)]) simp
  have "stop '')'' ?v" by (rule stop_symbol) simp_all
  then have l: "parseline ?u = Inr (b, skip_ws ?v)" using assms(1) by (simp add: okL_def)
  have "parseredirs b (show_redirs rs @ t) = Inr (redircmds b rs, skip_ws t)"
    unfolding parseredirs_def parse_redirs_show [OF assms(2) stopD [OF assms(3)] np] by simp
  moreover have "parseredirs b (skip_ws s) = parseredirs b s" for s by (simp add: parseredirs_def)
  ultimately have "parseblock ?s = Inr (redircmds b rs, skip_ws t)"
    unfolding parseblock.simps [of ?s] by (simp add: peek_symbol after_symbol l del: peek_blank gettoken_blank skip_ws_blank)
  then show ?thesis by (simp add: parseexec.simps [of ?s] peek_symbol del: peek_blank)
qed

lemma okE_okP:
  assumes "okE c" and "show_cmd 2 c = show_cmd 3 c"
  shows "okP c"
  unfolding okP_def
proof (intro allI impI)
  fix t assume t: "stop '')&;'' t"
  from t have "stop ''|)&;'' t" by (rule stop_mono) auto
  moreover have "\<not> peek t ''|''" using t by (rule stop_no_peek) simp
  ultimately show "parsepipe (show_cmd 2 c @ t) = Inr (c, skip_ws t)"
    using assms by (simp add: okE_def parsepipe.simps)
qed

lemma okP_PIPE:
  assumes "okE c" and "okP d"
  shows "okP (PIPE c d)"
  unfolding okP_def
proof (intro allI impI)
  fix t assume t: "stop '')&;'' t"
  let ?v = "CHR '' '' # CHR ''|'' # show_cmd 2 d @ t"
  have "stop ''|)&;'' ?v" by (rule stop_symbol) simp_all
  then have "parseexec (show_cmd 3 c @ ?v) = Inr (c, skip_ws ?v)" using assms(1) by (simp add: okE_def)
  moreover have "parsepipe (show_cmd 2 d @ t) = Inr (d, skip_ws t)" using assms(2) t by (simp add: okP_def)
  ultimately show "parsepipe (show_cmd 2 (PIPE c d) @ t) = Inr (PIPE c d, skip_ws t)"
    by (simp add: paren_def parsepipe.simps [of "show_cmd 3 c @ ?v"] peek_symbol after_symbol
        del: peek_blank gettoken_blank skip_ws_blank)
qed

text \<open>Left of a semicolon: the ampersands that follow a command are read back.\<close>

fun strip :: "cmd \<Rightarrow> cmd" where
  "strip (BACK c) = strip c"
| "strip c = c"

lemma parse_backs_show:
  assumes "okP (strip c)" and "stop '')&;'' t"
  shows "\<exists>c0 s0. parsepipe (show_cmd 1 c @ t) = Inr (c0, s0) \<and> parse_backs c0 s0 = parse_backs c t"
  using assms
proof (induction c arbitrary: t)
  case (BACK c)
  let ?v = "CHR '' '' # CHR ''&'' # t"
  have "stop '')&;'' ?v" by (rule stop_symbol) simp_all
  moreover have "okP (strip c)" using BACK.prems(1) by simp
  ultimately obtain c0 s0 where "parsepipe (show_cmd 1 c @ ?v) = Inr (c0, s0)" "parse_backs c0 s0 = parse_backs c ?v"
    using BACK.IH [of ?v] by blast
  moreover have "parse_backs c ?v = parse_backs (BACK c) t"
    by (simp add: parse_backs.simps [of c ?v] peek_symbol after_symbol del: peek_blank gettoken_blank skip_ws_blank)
  ultimately show ?case by (simp add: paren_def)
next
  case (EXEC ws)
  then have "okP (EXEC ws)" by simp
  with EXEC.prems(2) show ?case by (auto simp: okP_def)
next
  case (REDIR c f m fd)
  then have "okP (REDIR c f m fd)" by simp
  with REDIR.prems(2) show ?case by (auto simp: okP_def)
next
  case (PIPE c d)
  then have "okP (PIPE c d)" by simp
  with PIPE.prems(2) show ?case by (auto simp: okP_def paren_def)
next
  case (LIST c d)
  then have "okP (LIST c d)" by simp
  with LIST.prems(2) show ?case by (auto simp: okP_def paren_def)
qed

lemma parseline_show:
  assumes "okP (strip c)"
  shows "stop '')'' t \<Longrightarrow> parseline (show_cmd 1 c @ t) = Inr (c, skip_ws t)"
    and "okL d \<Longrightarrow> stop '')'' t \<Longrightarrow> parseline (show_cmd 1 c @ '' ;'' @ show_cmd 0 d @ t) = Inr (LIST c d, skip_ws t)"
proof -
  assume t: "stop '')'' t"
  from t have "stop '')&;'' t" by (rule stop_mono) auto
  from parse_backs_show [OF assms this] obtain c0 s0 where
    p: "parsepipe (show_cmd 1 c @ t) = Inr (c0, s0)" "parse_backs c0 s0 = parse_backs c t" by blast
  have "\<not> peek t ''&''" "\<not> peek t '';''" by (rule stop_no_peek [OF t], simp)+
  then show "parseline (show_cmd 1 c @ t) = Inr (c, skip_ws t)"
    unfolding parseline.simps [of "show_cmd 1 c @ t"] p(1) by (simp add: p(2) parse_backs.simps [of c t])
next
  assume d: "okL d" and t: "stop '')'' t"
  let ?v = "CHR '' '' # CHR '';'' # show_cmd 0 d @ t"
  have "stop '')&;'' ?v" by (rule stop_symbol) simp_all
  from parse_backs_show [OF assms this] obtain c0 s0 where
    p: "parsepipe (show_cmd 1 c @ ?v) = Inr (c0, s0)" "parse_backs c0 s0 = parse_backs c ?v" by blast
  have b: "parse_backs c ?v = (c, skip_ws ?v)"
    by (simp add: parse_backs.simps [of c ?v] peek_symbol del: peek_blank skip_ws_blank)
  have "parseline (show_cmd 0 d @ t) = Inr (d, skip_ws t)" using d t by (simp add: okL_def)
  then have "parseline (show_cmd 1 c @ ?v) = Inr (LIST c d, skip_ws t)"
    unfolding parseline.simps [of "show_cmd 1 c @ ?v"] p(1) by (simp add: p(2) b peek_symbol after_symbol del: peek_blank gettoken_blank skip_ws_blank)
  then show "parseline (show_cmd 1 c @ '' ;'' @ show_cmd 0 d @ t) = Inr (LIST c d, skip_ws t)" by simp
qed

text \<open>All levels, by induction on the size of the command.\<close>

lemma strip_facts: "size (strip c) \<le> size c" "wf_cmd (strip c) = wf_cmd c"
  by (induction c rule: strip.induct) auto

lemma ok_levels: "wf_cmd c \<Longrightarrow> okE c \<and> okP c \<and> okL c"
proof (induction "size c" arbitrary: c rule: less_induct)
  case less
  have IH: "okE d" "okP d" "okL d" if "size d < size c" "wf_cmd d" for d using less.hyps that by blast+
  obtain b rs where c: "c = redircmds b rs" and nr: "\<forall>d f m fd. b \<noteq> REDIR d f m fd" using unredir by blast
  have wf: "wf_cmd b" "\<forall>r \<in> set rs. wf_redir r" using less.prems redircmds_facts(2) c by auto
  have simple: "okE c \<Longrightarrow> show_cmd 2 c = show_cmd 3 c \<Longrightarrow> show_cmd 0 c = show_cmd 1 c \<Longrightarrow> strip c = c \<Longrightarrow> ?case"
    using okE_okP [of c] parseline_show(1) [of c] by (auto simp: okL_def)
  show ?case
  proof (cases "rs = [] \<and> (\<forall>ws. b \<noteq> EXEC ws)")
    case False
    have "okE c"
    proof (cases "\<exists>ws. b = EXEC ws")
      case True
      then show ?thesis using parseexec_words wf by (auto simp: okE_def c redircmds_facts(1))
    next
      case ne: False
      with False have "size b < size c" by (auto simp: c redircmds_facts(3))
      then have "okL b" using wf(1) by (rule IH(3))
      moreover have "show_cmd 3 b = '' ('' @ show_cmd 0 b @ '' )''" using nr ne by (cases b) (auto simp: paren_def)
      ultimately show ?thesis
        unfolding okE_def c redircmds_facts(1) using parseexec_block wf(2) by simp
    qed
    moreover have "\<exists>d f m fd. c = REDIR d f m fd" if "rs \<noteq> []" using that unfolding c
      by (cases rs rule: rev_cases) (auto simp: redircmds_snoc)
    then have "(\<exists>ws. c = EXEC ws) \<or> (\<exists>d f m fd. c = REDIR d f m fd)" using False c by (cases rs) auto
    ultimately show ?thesis by (intro simple) auto
  next
    case True
    then have cb: "c = b" by (simp add: c)
    have block: "okL c \<Longrightarrow> okE c"
    proof -
      assume "okL c"
      moreover have "show_cmd 3 c = '' ('' @ show_cmd 0 c @ '' )''" using nr True cb by (cases b) (auto simp: paren_def)
      ultimately show ?thesis unfolding okE_def using parseexec_block [of c "[]"] by (simp add: show_redirs_def)
    qed
    show ?thesis
    proof (cases c)
      case (PIPE d e)
      then have "okP c" using IH less.prems by (auto intro!: okP_PIPE)
      moreover from this have "okL c" using parseline_show(1) [of c] PIPE by (auto simp: okL_def paren_def)
      ultimately show ?thesis using block by blast
    next
      case (BACK d)
      have "okP (strip d)" using less.prems BACK strip_facts [of d] by (intro IH(2)) auto
      then have "okL c" using parseline_show(1) [of c] BACK by (auto simp: okL_def paren_def)
      moreover have "show_cmd 2 c = show_cmd 3 c" using BACK by (simp add: paren_def)
      ultimately show ?thesis using block okE_okP by blast
    next
      case (LIST d e)
      have "okP (strip d)" using less.prems LIST strip_facts [of d] by (intro IH(2)) auto
      moreover have "okL e" using less.prems LIST by (intro IH(3)) auto
      ultimately have "okL c" using parseline_show(2) [of d e] LIST by (auto simp: okL_def paren_def)
      moreover have "show_cmd 2 c = show_cmd 3 c" using LIST by (simp add: paren_def)
      ultimately show ?thesis using block okE_okP by blast
    qed (use True cb nr in auto)
  qed
qed

section \<open>Properties\<close>

text \<open>C31: The shell's parser reads back every command it can express.  A tree of simple commands,
  redirections, pipelines, lists and background commands, of any shape, printed with parentheses where
  the grammar needs them, is parsed to the same tree.  (The parser is a total function: its mutual
  recursion ends on every line.)\<close>

theorem shell_parse_print:
  assumes "wf_cmd c"
  shows "parsecmd (show_cmd 0 c) = Inr c"
proof -
  have "stop '')'' []" by (simp add: stop_def tail_ok_def skip_ws_def)
  then have "parseline (show_cmd 0 c) = Inr (c, skip_ws [])" using ok_levels [OF assms] unfolding okL_def by (metis append_Nil2)
  then show ?thesis by (simp add: parsecmd_def skip_ws_def)
qed

theorem shell_parse_print_witness:
  "parsecmd '' ( ls -l < f ; cat & ) > g | wc'' =
     Inr (PIPE (REDIR (LIST (REDIR (EXEC [''ls'', ''-l'']) ''f'' 0 0) (BACK (EXEC [''cat'']))) ''g'' 0x201 1) (EXEC [''wc'']))"
proof -
  let ?c = "PIPE (REDIR (LIST (REDIR (EXEC [''ls'', ''-l'']) ''f'' 0 0) (BACK (EXEC [''cat'']))) ''g'' 0x201 1) (EXEC [''wc''])"
  have "wf_cmd ?c" by (simp add: wf_redir_def wf_word_def word_char_def whitespace_def symbols_def)
  from shell_parse_print [OF this] show ?thesis
    by (simp add: paren_def show_words_def show_redir_def)
qed

end
