(* ===== verification/Ulib.thy ===== *)
theory Ulib
  imports Strings
begin

text \<open>
  \<^verbatim>\<open>ulib.c\<close>, the string routines of user programs.  The routines that write work on the memory of the
  process, and a loop over a string that has no end is \<open>None\<close>.  The routines that only read a string get
  the list of its bytes without the terminating zero.  \<^verbatim>\<open>gets()\<close> gets the results of its calls of
  \<^verbatim>\<open>read()\<close>, one byte or none each.
\<close>

section \<open>Routines that write\<close>

partial_function (option) strcpy :: "memory \<Rightarrow> uint \<Rightarrow> uint \<Rightarrow> memory option" where
  "strcpy m s t = (let m' = m(s := m t) in if m t = 0 then Some m' else strcpy m' (s + 1) (t + 1))"

definition umemset :: "memory \<Rightarrow> uint \<Rightarrow> uint \<Rightarrow> nat \<Rightarrow> memory" where
  "umemset m dst c n = stosb m dst (ucast c) n"

text \<open>The copy always runs upwards, so unlike the kernel's it is meant for areas that do not overlap that way.\<close>

definition umemmove :: "memory \<Rightarrow> uint \<Rightarrow> uint \<Rightarrow> int \<Rightarrow> memory" where
  "umemmove m dst src n = copy_up m dst src (nat n)"

section \<open>Routines that read\<close>

fun strcmp :: "uchar list \<Rightarrow> uchar list \<Rightarrow> int" where
  "strcmp [] [] = 0"
| "strcmp [] (d # q) = - uint d"
| "strcmp (c # p) [] = uint c"
| "strcmp (c # p) (d # q) = (if c = d then strcmp p q else uint c - uint d)"

primrec ustrlen :: "uchar list \<Rightarrow> nat" where
  "ustrlen [] = 0"
| "ustrlen (c # s) = Suc (ustrlen s)"

text \<open>The rest of the string from the first \<open>c\<close>, or a null pointer.  A zero byte is never found.\<close>

primrec strchr :: "uchar list \<Rightarrow> uchar \<Rightarrow> uchar list option" where
  "strchr [] c = None"
| "strchr (x # s) c = (if x = c then Some (x # s) else strchr s c)"

text \<open>The sum is a signed number; where it leaves the range of \<^verbatim>\<open>int\<close> its value is not defined.\<close>

primrec atoi_loop :: "int \<Rightarrow> uchar list \<Rightarrow> int option" where
  "atoi_loop n [] = Some n"
| "atoi_loop n (c # s) =
     (if 48 \<le> c \<and> c \<le> 57 then
        if n * 10 + uint c < 2 ^ 31 then atoi_loop (n * 10 + uint c - 48) s else None
      else Some n)"

definition atoi :: "uchar list \<Rightarrow> int option" where
  "atoi s = atoi_loop 0 s"

section \<open>Input\<close>

text \<open>
  The bytes that \<^verbatim>\<open>gets()\<close> stores before the zero byte, and the reads it leaves; \<open>None\<close> is an end of
  file or an error.
\<close>

fun gets_loop :: "nat \<Rightarrow> int \<Rightarrow> uchar option list \<Rightarrow> uchar list \<times> uchar option list" where
  "gets_loop i mx [] = ([], [])"
| "gets_loop i mx (r # rs) =
     (if int i + 1 < mx then
        case r of
          None \<Rightarrow> ([], rs)
        | Some c \<Rightarrow>
           if c = 10 \<or> c = 13 then ([c], rs)
           else (case gets_loop (Suc i) mx rs of (cs, rs') \<Rightarrow> (c # cs, rs'))
      else ([], r # rs))"

definition ugets :: "int \<Rightarrow> uchar option list \<Rightarrow> uchar list \<times> uchar option list" where
  "ugets mx reads = gets_loop 0 mx reads"

section \<open>What they do\<close>

lemma strcmp_zero_iff: "0 \<notin> set p \<Longrightarrow> 0 \<notin> set q \<Longrightarrow> strcmp p q = 0 \<longleftrightarrow> p = q"
  by (induction p q rule: strcmp.induct) (auto simp: uint_0_iff intro: word_uint_eqI)

lemma strchr_iff: "strchr s c \<noteq> None \<longleftrightarrow> c \<in> set s"
  by (induction s) auto

lemma ustrlen_length: "ustrlen s = length s"
  by (induction s) auto

lemma gets_bound: "0 < mx \<Longrightarrow> int (length (fst (gets_loop i mx reads))) + int i < mx \<or> mx \<le> int i"
  by (induction i mx reads rule: gets_loop.induct) (auto split: option.splits prod.splits)

lemma atoi_snoc:
  assumes "\<forall>x \<in> set xs. 48 \<le> x \<and> x \<le> 57"
  shows "atoi_loop n (xs @ [c]) = Option.bind (atoi_loop n xs) (\<lambda>v. atoi_loop v [c])"
  using assms by (induction xs arbitrary: n) auto

text \<open>
  C strings in memory.  \<^verbatim>\<open>strcpy()\<close> copies a string with its zero byte to an area that does not meet it, and
  changes nothing else.
\<close>

definition str_at :: "memory \<Rightarrow> uint \<Rightarrow> uchar list \<Rightarrow> bool" where
  "str_at m a s \<longleftrightarrow> 0 \<notin> set s \<and> (\<forall>i < length s. m (a + of_nat i) = s ! i) \<and> m (a + of_nat (length s)) = 0"

lemma str_at_Cons: "str_at m a (c # s) \<longleftrightarrow> c \<noteq> 0 \<and> m a = c \<and> str_at m (a + 1) s"
  unfolding str_at_def by (auto simp: All_less_Suc2 algebra_simps)

lemma strcpy_ok:
  assumes "str_at m t s" and "unat a + length s < 2 ^ 32" and "unat t + length s < 2 ^ 32"
    and "\<forall>i \<le> length s. \<forall>j \<le> length s. a + of_nat i \<noteq> t + of_nat j"
  shows "\<exists>m'. strcpy m a t = Some m' \<and> str_at m' a s \<and> (\<forall>x. (\<forall>i \<le> length s. x \<noteq> a + of_nat i) \<longrightarrow> m' x = m x)"
  using assms
proof (induction s arbitrary: m a t)
  case Nil
  then show ?case by (subst strcpy.simps) (simp add: str_at_def)
next
  case (Cons c s)
  let ?m = "m(a := m t)"
  have c: "c \<noteq> 0" "m t = c" "str_at m (t + 1) s" using Cons(2) by (simp_all add: str_at_Cons)
  have off: "(x + 1) + of_nat i = x + of_nat (Suc i)" for x :: uint and i by (simp add: algebra_simps)
  have d: "\<forall>i \<le> length s. \<forall>j \<le> length s. a + 1 + of_nat i \<noteq> t + 1 + of_nat j" "\<forall>j \<le> length s. a \<noteq> t + 1 + of_nat j"
  proof -
    show "\<forall>i \<le> length s. \<forall>j \<le> length s. a + 1 + of_nat i \<noteq> t + 1 + of_nat j"
      unfolding off using Cons(5) by (metis Suc_le_mono length_Cons)
    show "\<forall>j \<le> length s. a \<noteq> t + 1 + of_nat j"
    proof (intro allI impI)
      fix j assume "j \<le> length s"
      then have "a + of_nat 0 \<noteq> t + of_nat (Suc j)" using Cons(5) by (metis Suc_le_mono le0 length_Cons)
      then show "a \<noteq> t + 1 + of_nat j" unfolding off by simp
    qed
  qed
  have "?m (t + 1 + of_nat j) = m (t + 1 + of_nat j)" if "j \<le> length s" for j using d(2) that by (simp add: fun_upd_def) metis
  then have st: "str_at ?m (t + 1) s" using c(3) unfolding str_at_def by simp
  have "unat (a + 1) + length s < 2 ^ 32" "unat (t + 1) + length s < 2 ^ 32"
    using Cons(3,4) unat_plus_nat [of a 1] unat_plus_nat [of t 1] by simp_all
  from Cons(1) [OF st this d(1)] obtain m' where m': "strcpy ?m (a + 1) (t + 1) = Some m'" "str_at m' (a + 1) s"
      "\<forall>x. (\<forall>i \<le> length s. x \<noteq> a + 1 + of_nat i) \<longrightarrow> m' x = ?m x" by blast
  have "m' a = c"
  proof -
    have "a \<noteq> a + 1 + of_nat i" if "i \<le> length s" for i
      using off_inj [of 0 "Suc i" a] that Cons(3) unfolding off by simp
    then show ?thesis using m'(3) c(2) by simp
  qed
  moreover have "m' x = m x" if "\<forall>i \<le> length (c # s). x \<noteq> a + of_nat i" for x
  proof -
    have "x \<noteq> a" "\<forall>i \<le> length s. x \<noteq> a + 1 + of_nat i" using that unfolding off by (auto dest: spec [of _ 0])
    then show ?thesis using m'(3) by simp
  qed
  ultimately show ?case using m' c by (subst strcpy.simps) (auto simp: str_at_Cons)
qed

end
