(* ===== verification/Runcmd.thy ===== *)
theory Runcmd
  imports Shell Ulib
begin

text \<open>
  The other half of \<^verbatim>\<open>sh.c\<close>: running a parsed command.  A user program is a tree of its system
  calls, with a continuation for every result; the code of the shell is translated into such trees.  The second
  part gives the calls a meaning on tables of file descriptors, as \<^verbatim>\<open>sysfile.c\<close> has it (a call takes the
  lowest free descriptor), and shows which program the shell starts with which descriptors.
\<close>

section \<open>Programs as trees of system calls\<close>

datatype ucall =
    U_fork
  | U_wait
  | U_open string int
  | U_close int
  | U_dup int
  | U_chdir string
  | U_mknod string int int
  | U_link string string
  | U_unlink string
  | U_mkdir string
  | U_kill int
  | U_print int string

text \<open>
  \<open>Exec\<close> goes on only if the call fails.  \<open>Pipe\<close> hands the result and the two descriptors to its
  continuation.
\<close>

datatype uprog =
    Exit
  | Call ucall "int \<Rightarrow> uprog"
  | Exec string "string list" uprog
  | Pipe "int \<Rightarrow> int \<Rightarrow> int \<Rightarrow> uprog"

definition nl :: string where
  "nl = [CHR 0x0A]"

definition sh_panic :: "string \<Rightarrow> uprog" where
  "sh_panic s = Call (U_print 2 (s @ nl)) (\<lambda>_. Exit)"

definition fork1 :: "(int \<Rightarrow> uprog) \<Rightarrow> uprog" where
  "fork1 k = Call U_fork (\<lambda>pid. if pid = -1 then sh_panic ''fork'' else k pid)"

fun runcmd :: "cmd \<Rightarrow> uprog" where
  "runcmd (EXEC argv) =
     (case argv of
        [] \<Rightarrow> Exit
      | a # _ \<Rightarrow> Exec a argv (Call (U_print 2 (''exec '' @ a @ '' failed'' @ nl)) (\<lambda>_. Exit)))"
| "runcmd (REDIR c file mode fd) =
     Call (U_close fd) (\<lambda>_.
     Call (U_open file mode) (\<lambda>r.
       if r < 0 then Call (U_print 2 (''open '' @ file @ '' failed'' @ nl)) (\<lambda>_. Exit) else runcmd c))"
| "runcmd (LIST l r) =
     fork1 (\<lambda>pid. if pid = 0 then runcmd l else Call U_wait (\<lambda>_. runcmd r))"
| "runcmd (PIPE l r) =
     Pipe (\<lambda>res p0 p1.
       if res < 0 then sh_panic ''pipe''
       else fork1 (\<lambda>pid.
         if pid = 0 then
           Call (U_close 1) (\<lambda>_. Call (U_dup p1) (\<lambda>_. Call (U_close p0) (\<lambda>_. Call (U_close p1) (\<lambda>_. runcmd l))))
         else fork1 (\<lambda>pid.
           if pid = 0 then
             Call (U_close 0) (\<lambda>_. Call (U_dup p0) (\<lambda>_. Call (U_close p0) (\<lambda>_. Call (U_close p1) (\<lambda>_. runcmd r))))
           else Call (U_close p0) (\<lambda>_. Call (U_close p1) (\<lambda>_. Call U_wait (\<lambda>_. Call U_wait (\<lambda>_. Exit)))))))"
| "runcmd (BACK c) = fork1 (\<lambda>pid. if pid = 0 then runcmd c else Exit)"

text \<open>
  \<^verbatim>\<open>getcmd()\<close> reads a line of at most 99 bytes; an empty one ends the input.  \<open>cmd_lines\<close> is
  what a run of the shell reads, from the results of its calls of \<^verbatim>\<open>read()\<close>.
\<close>

definition getcmd :: "uchar option list \<Rightarrow> uchar list option \<times> uchar option list" where
  "getcmd reads = (case ugets 100 reads of (cs, rest) \<Rightarrow> (if cs = [] \<or> hd cs = 0 then None else Some cs, rest))"

lemma gets_loop_le: "length (snd (gets_loop i mx reads)) \<le> length reads"
  by (induction i mx reads rule: gets_loop.induct) (auto split: option.splits prod.splits)

lemma gets_loop_shorter: "gets_loop i mx reads = (cs, rest) \<Longrightarrow> cs \<noteq> [] \<Longrightarrow> length rest < length reads"
proof (induction i mx reads arbitrary: cs rest rule: gets_loop.induct)
  case (2 i mx r rs)
  obtain cs' rs' where g: "gets_loop (Suc i) mx rs = (cs', rs')" by force
  have le: "length rs' \<le> length rs"
    using g gets_loop_le [of "Suc i" mx rs] by simp
  then show ?case using 2(2,3) g by (auto split: if_splits option.splits)
qed simp

function cmd_lines :: "uchar option list \<Rightarrow> string list" where
  "cmd_lines reads =
     (case getcmd reads of
        (None, rest) \<Rightarrow> []
      | (Some cs, rest) \<Rightarrow> map (\<lambda>c. char_of (unat c)) (takeWhile (\<lambda>c. c \<noteq> 0) cs) # cmd_lines rest)"
  by pat_completeness auto
termination
  by (relation "measure length") (auto simp: getcmd_def ugets_def split: prod.splits if_splits dest: gets_loop_shorter)

declare cmd_lines.simps [simp del]

text \<open>
  \<^verbatim>\<open>main()\<close>.  The first loop opens the console until it gets a descriptor above 2; every success takes
  another descriptor, so 16 rounds are enough.  The lines are those \<^verbatim>\<open>getcmd()\<close> reads until the end of
  the input, with their newline.
\<close>

primrec open_console :: "nat \<Rightarrow> uprog \<Rightarrow> uprog" where
  "open_console 0 k = k"
| "open_console (Suc n) k =
     Call (U_open ''console'' 2) (\<lambda>fd.
       if fd \<ge> 0 then if fd \<ge> 3 then Call (U_close fd) (\<lambda>_. k) else open_console n k else k)"

definition run_line :: "string \<Rightarrow> uprog" where
  "run_line line = (case parsecmd line of Inl e \<Rightarrow> sh_panic e | Inr c \<Rightarrow> runcmd c)"

primrec sh_loop :: "string list \<Rightarrow> uprog" where
  "sh_loop [] = Call (U_print 2 ''$ '') (\<lambda>_. Exit)"
| "sh_loop (line # lines) =
     Call (U_print 2 ''$ '') (\<lambda>_.
     if take 3 line = ''cd '' then
       Call (U_chdir (drop 3 (butlast line))) (\<lambda>r.
         if r < 0 then Call (U_print 2 (''cannot cd '' @ drop 3 (butlast line) @ nl)) (\<lambda>_. sh_loop lines) else sh_loop lines)
     else fork1 (\<lambda>pid. if pid = 0 then run_line line else Call U_wait (\<lambda>_. sh_loop lines)))"

definition sh_main :: "string list \<Rightarrow> uprog" where
  "sh_main lines = open_console 16 (sh_loop lines)"

section \<open>Descriptors\<close>

datatype fobj = F_file string int | F_read nat | F_write nat

type_synonym fdtab = "fobj option list"

text \<open>
  What the calls do to the descriptors of the calling process.  \<open>ok\<close> says which files can be opened; a fork
  runs the child, which gets 0, and the parent, which gets a positive number, on a table of its own each.  The
  result is the programs started with their arguments and tables, and the number of pipes made.
\<close>

type_synonym started = "string list \<times> fdtab"

definition free_fd :: "fdtab \<Rightarrow> nat option" where
  "free_fd t = find_idx (\<lambda>x. x = None) t"

definition close_fd :: "int \<Rightarrow> fdtab \<Rightarrow> fdtab" where
  "close_fd fd t = (if 0 \<le> fd then t[nat fd := None] else t)"

definition alloc_fd :: "fobj \<Rightarrow> fdtab \<Rightarrow> int \<times> fdtab" where
  "alloc_fd x t = (case free_fd t of None \<Rightarrow> (-1, t) | Some i \<Rightarrow> (int i, t[i := Some x]))"

definition dup_fd :: "int \<Rightarrow> fdtab \<Rightarrow> int \<times> fdtab" where
  "dup_fd fd t = (if 0 \<le> fd \<and> nat fd < length t then case t ! nat fd of None \<Rightarrow> (-1, t) | Some x \<Rightarrow> alloc_fd x t else (-1, t))"

primrec run :: "(string \<Rightarrow> int \<Rightarrow> bool) \<Rightarrow> uprog \<Rightarrow> fdtab \<Rightarrow> nat \<Rightarrow> started list \<times> nat" where
  "run ok Exit t n = ([], n)"
| "run ok (Call c k) t n =
     (case c of
        U_fork \<Rightarrow> let (e, n1) = run ok (k 0) t n; (e', n2) = run ok (k 1) t n1 in (e @ e', n2)
      | U_wait \<Rightarrow> run ok (k 1) t n
      | U_open f m \<Rightarrow> if ok f m then run ok (k (fst (alloc_fd (F_file f m) t))) (snd (alloc_fd (F_file f m) t)) n else run ok (k (-1)) t n
      | U_close fd \<Rightarrow> run ok (k 0) (close_fd fd t) n
      | U_dup fd \<Rightarrow> run ok (k (fst (dup_fd fd t))) (snd (dup_fd fd t)) n
      | _ \<Rightarrow> run ok (k 0) t n)"
| "run ok (Exec a argv k) t n = ([(argv, t)], n)"
| "run ok (Pipe k) t n =
     (let (p0, t1) = alloc_fd (F_read n) t; (p1, t2) = alloc_fd (F_write n) t1
      in if p0 < 0 \<or> p1 < 0 then run ok (k (-1) 0 0) t n else run ok (k 0 p0 p1) t2 (Suc n))"

section \<open>What a command means\<close>

fun wires :: "(string \<Rightarrow> int \<Rightarrow> bool) \<Rightarrow> cmd \<Rightarrow> fdtab \<Rightarrow> nat \<Rightarrow> started list \<times> nat" where
  "wires ok (EXEC argv) t n = (if argv = [] then [] else [(argv, t)], n)"
| "wires ok (REDIR c f m fd) t n = (if ok f m then wires ok c (t[nat fd := Some (F_file f m)]) n else ([], n))"
| "wires ok (PIPE l r) t n =
     (let (e, n1) = wires ok l (t[1 := Some (F_write n)]) (Suc n); (e', n2) = wires ok r (t[0 := Some (F_read n)]) n1 in (e @ e', n2))"
| "wires ok (LIST l r) t n = (let (e, n1) = wires ok l t n; (e', n2) = wires ok r t n1 in (e @ e', n2))"
| "wires ok (BACK c) t n = wires ok c t n"

primrec redirs_ok :: "cmd \<Rightarrow> bool" where
  "redirs_ok (EXEC argv) = True"
| "redirs_ok (REDIR c f m fd) = ((fd = 0 \<or> fd = 1) \<and> redirs_ok c)"
| "redirs_ok (PIPE l r) = (redirs_ok l \<and> redirs_ok r)"
| "redirs_ok (LIST l r) = (redirs_ok l \<and> redirs_ok r)"
| "redirs_ok (BACK c) = redirs_ok c"

text \<open>The table of a process of the shell: the descriptors 0, 1 and 2 are open and no others.\<close>

definition std :: "fdtab \<Rightarrow> bool" where
  "std t \<longleftrightarrow> (\<exists>a b c. t = Some a # Some b # Some c # replicate 13 None)"

lemma run_fork1 [simp]:
  "run ok (fork1 k) t n = (let (e, n1) = run ok (k 0) t n; (e', n2) = run ok (k 1) t n1 in (e @ e', n2))"
  by (simp add: fork1_def)

lemma replicate13: "replicate 13 x = x # x # replicate 11 x"
  by (simp add: numeral_eq_Suc)

lemma runcmd_wires: "std t \<Longrightarrow> redirs_ok c \<Longrightarrow> run ok (runcmd c) t n = wires ok c t n"
proof (induction c arbitrary: t n)
  case (EXEC argv)
  then show ?case by (cases argv) simp_all
next
  case (REDIR c f m fd)
  from REDIR(2) obtain a b d where t: "t = Some a # Some b # Some d # replicate 13 None" by (auto simp: std_def)
  have fd: "fd = 0 \<or> fd = 1" using REDIR(3) by simp
  let ?u = "t[nat fd := Some (F_file f m)]"
  have "alloc_fd (F_file f m) (close_fd fd t) = (fd, ?u)"
    using fd by (auto simp: t alloc_fd_def free_fd_def close_fd_def)
  moreover have "std ?u" using fd by (auto simp: t std_def)
  ultimately show ?case using REDIR fd by auto
next
  case (PIPE l r)
  from PIPE(3) obtain a b d where t: "t = Some a # Some b # Some d # replicate 13 None" by (auto simp: std_def)
  let ?p = "Some a # Some b # Some d # Some (F_read n) # Some (F_write n) # replicate 11 None"
  have al: "alloc_fd (F_read n) t = (3, Some a # Some b # Some d # Some (F_read n) # replicate 12 None)"
    "alloc_fd (F_write n) (Some a # Some b # Some d # Some (F_read n) # replicate 12 None) = (4, ?p)"
    by (simp_all add: t alloc_fd_def free_fd_def numeral_eq_Suc)
  have left: "close_fd 4 (close_fd 3 (snd (dup_fd 4 (close_fd 1 ?p)))) = t[1 := Some (F_write n)]"
    by (simp add: t close_fd_def dup_fd_def alloc_fd_def free_fd_def numeral_eq_Suc)
  have right: "close_fd 4 (close_fd 3 (snd (dup_fd 3 (close_fd 0 ?p)))) = t[0 := Some (F_read n)]"
    by (simp add: t close_fd_def dup_fd_def alloc_fd_def free_fd_def numeral_eq_Suc)
  have "std (t[1 := Some (F_write n)])" "std (t[0 := Some (F_read n)])" by (auto simp: t std_def)
  then show ?case using PIPE al by (simp add: left [simplified] right [simplified])
qed auto

section \<open>From the line to the descriptors\<close>

lemma redirs_ok_redircmds: "redirs_ok c \<Longrightarrow> \<forall>(f, m, fd) \<in> set rs. fd = 0 \<or> fd = 1 \<Longrightarrow> redirs_ok (redircmds c rs)"
  by (induction rs arbitrary: c) auto

lemma parse_redirs_fd: "parse_redirs s = Inr (rs, s') \<Longrightarrow> \<forall>(f, m, fd) \<in> set rs. fd = 0 \<or> fd = 1"
proof (induction s arbitrary: rs s' rule: parse_redirs.induct)
  case (1 s)
  show ?case
  proof (cases "peek s ''<>''")
    case True
    with 1(2) obtain rs1 where "token (after s) = CHR ''a''" "parse_redirs (after (after s)) = Inr (rs1, s')"
      "rs = mk_redir (token s) (tok_word (after s)) # rs1" by (auto simp: parse_redirs.simps [of s] split: if_splits sum.splits)
    then show ?thesis using 1(1) [OF True] by (auto simp: mk_redir_def)
  next
    case False
    then show ?thesis using 1(2) by (simp add: parse_redirs.simps [of s])
  qed
qed

lemma parse_args_fd: "parse_args argc s = Inr ((ws, rs), s') \<Longrightarrow> \<forall>(f, m, fd) \<in> set rs. fd = 0 \<or> fd = 1"
proof (induction argc s arbitrary: ws rs s' rule: parse_args.induct)
  case (1 argc s)
  show ?case
  proof (cases "peek s ''|)&;'' \<or> token s = CHR 0x00")
    case True
    then show ?thesis using 1(2) by (auto simp: parse_args.simps [of argc s] split: if_splits)
  next
    case False
    with 1(2) obtain rs1 s1 ws2 rs2 where r: "token s = CHR ''a''" "argc + 1 < MAXARGS" "parse_redirs (after s) = Inr (rs1, s1)"
      "parse_args (argc + 1) s1 = Inr ((ws2, rs2), s')" "rs = rs1 @ rs2"
      by (auto simp: parse_args.simps [of argc s] split: if_splits sum.splits)
    have "\<forall>(f, m, fd) \<in> set rs2. fd = 0 \<or> fd = 1"
      using False r by (intro 1(1) [where x = rs1 and y = s1, OF _ _ _ _ r(3) refl r(4)]) simp_all
    then show ?thesis using parse_redirs_fd [OF r(3)] r(5) by auto
  qed
qed

lemma parse_backs_ok: "redirs_ok c \<Longrightarrow> redirs_ok (fst (parse_backs c s))"
  by (induction c s rule: parse_backs.induct) (subst parse_backs.simps, auto)

lemma parse_redirs_ok:
  "parseline s = Inr (c, s') \<Longrightarrow> redirs_ok c" "parsepipe s = Inr (c, s') \<Longrightarrow> redirs_ok c"
  "parseexec s = Inr (c, s') \<Longrightarrow> redirs_ok c" "parseblock s = Inr (c, s') \<Longrightarrow> redirs_ok c"
proof (induction s and s and s and s arbitrary: c s' and c s' and c s' and c s'
    rule: parseline_parsepipe_parseexec_parseblock.induct)
  case (1 s)
  note e = "1.prems" [unfolded parseline.simps [of s]]
  then obtain c1 s1 where p: "parsepipe s = Inr (c1, s1)" by (auto split: sum.splits)
  obtain c2 s2 where b: "parse_backs c1 s1 = (c2, s2)" by force
  have "redirs_ok c2" using parse_backs_ok [OF "1.IH"(1) [OF p], of s1] b by simp
  then show ?case using e p b "1.IH"(2) [OF p refl b [symmetric]] by (auto split: sum.splits if_splits)
next
  case (2 s)
  note e = "2.prems" [unfolded parsepipe.simps [of s]]
  then obtain c1 s1 where p: "parseexec s = Inr (c1, s1)" by (auto split: sum.splits)
  then show ?case using e "2.IH"(1) [OF p] "2.IH"(2) [OF p refl] by (auto split: sum.splits if_splits)
next
  case (3 s)
  note e = "3.prems" [unfolded parseexec.simps [of s]]
  show ?case
  proof (cases "peek s ''(''")
    case True
    with e show ?thesis by (intro "3.IH" [OF True]) simp
  next
    case False
    with e obtain rs s1 ws rs' where
      r: "parse_redirs s = Inr (rs, s1)" "parse_args 0 s1 = Inr ((ws, rs'), s')" "c = redircmds (EXEC ws) (rs @ rs')"
      by (auto split: sum.splits)
    then show ?thesis using parse_redirs_fd [OF r(1)] parse_args_fd [OF r(2)] by (auto intro!: redirs_ok_redircmds)
  qed
next
  case (4 s)
  note e = "4.prems" [unfolded parseblock.simps [of s]]
  then have o: "peek s ''(''" by (auto split: if_splits)
  with e obtain c1 s1 where p: "parseline (after s) = Inr (c1, s1)" "parseredirs c1 (after s1) = Inr (c, s')"
    by (auto split: sum.splits if_splits)
  have "redirs_ok c1" by (rule "4.IH" [OF _ p(1)]) (simp add: o)
  moreover from p(2) obtain rs where r: "parse_redirs (after s1) = Inr (rs, s')" "c = redircmds c1 rs"
    by (auto simp: parseredirs_def split: sum.splits)
  ultimately show ?case using parse_redirs_fd [OF r(1)] by (auto intro!: redirs_ok_redircmds)
qed

text \<open>The programs that a session starts.\<close>

primrec session :: "(string \<Rightarrow> int \<Rightarrow> bool) \<Rightarrow> string list \<Rightarrow> fdtab \<Rightarrow> nat \<Rightarrow> started list \<times> nat" where
  "session ok [] t n = ([], n)"
| "session ok (line # lines) t n =
     (if take 3 line = ''cd '' then session ok lines t n
      else case parsecmd line of
        Inl e \<Rightarrow> session ok lines t n
      | Inr c \<Rightarrow> let (e, n1) = wires ok c t n; (e', n2) = session ok lines t n1 in (e @ e', n2))"

lemma run_line_wires:
  "std t \<Longrightarrow> run ok (run_line line) t n = (case parsecmd line of Inl e \<Rightarrow> ([], n) | Inr c \<Rightarrow> wires ok c t n)"
proof (cases "parsecmd line")
  case (Inr c)
  then have "redirs_ok c" using parse_redirs_ok(1) by (auto simp: parsecmd_def split: sum.splits if_splits)
  then show "std t \<Longrightarrow> ?thesis" using Inr runcmd_wires by (simp add: run_line_def)
qed (simp add: run_line_def sh_panic_def)

lemma run_session: "std t \<Longrightarrow> run ok (sh_loop lines) t n = session ok lines t n"
proof (induction lines arbitrary: n)
  case (Cons line lines)
  then show ?case by (cases "parsecmd line") (auto simp: run_line_wires split: prod.splits)
qed simp


definition tty :: fdtab where
  "tty = replicate 3 (Some (F_file ''console'' 2)) @ replicate 13 None"


end
