(* ===== verification/Printf.thy ===== *)
theory Printf
  imports Console Ulib
begin

text \<open>
  \<^verbatim>\<open>printf.c\<close>: formatted output of user programs.  Every character is a \<^verbatim>\<open>write()\<close> of one
  byte; the model returns the bytes in order.  The arguments are words, of which \<^verbatim>\<open>%s\<close> takes one as a
  pointer to a string; a conversion without an argument of its kind is not defined, which is \<open>None\<close>.
\<close>

definition udigit :: "nat \<Rightarrow> uchar" where
  "udigit d = (if d < 10 then 48 + of_nat d else 55 + of_nat d)"

definition uprintint :: "uint \<Rightarrow> nat \<Rightarrow> bool \<Rightarrow> uchar list" where
  "uprintint xx base signed_p =
     (let neg = signed_p \<and> sint xx < 0; x = (if neg then - xx else xx)
      in rev (map udigit (digits_rev base (unat x)) @ (if neg then [45] else [])))"

definition null_text :: "uchar list" where
  "null_text = [40, 110, 117, 108, 108, 41]"

text \<open>The loop over the format, with \<open>st\<close> set after a \<^verbatim>\<open>%\<close>.\<close>

fun printf_loop :: "bool \<Rightarrow> uchar list \<Rightarrow> carg list \<Rightarrow> uchar list option" where
  "printf_loop st [] args = Some []"
| "printf_loop False (c # fmt) args =
     (if c = 37 then printf_loop True fmt args else map_option (Cons c) (printf_loop False fmt args))"
| "printf_loop True (c # fmt) args =
     (if c = 100 then
        (case args of A_int x # args' \<Rightarrow> map_option (append (uprintint x 10 True)) (printf_loop False fmt args') | _ \<Rightarrow> None)
      else if c = 120 \<or> c = 112 then
        (case args of A_int x # args' \<Rightarrow> map_option (append (uprintint x 16 False)) (printf_loop False fmt args') | _ \<Rightarrow> None)
      else if c = 115 then
        (case args of
           A_str s # args' \<Rightarrow> map_option (append (case s of None \<Rightarrow> null_text | Some t \<Rightarrow> t)) (printf_loop False fmt args')
         | _ \<Rightarrow> None)
      else if c = 99 then
        (case args of A_int x # args' \<Rightarrow> map_option (Cons (ucast x)) (printf_loop False fmt args') | _ \<Rightarrow> None)
      else if c = 37 then map_option (Cons c) (printf_loop False fmt args)
      else map_option (append [37, c]) (printf_loop False fmt args))"

definition printf :: "uchar list \<Rightarrow> carg list \<Rightarrow> uchar list option" where
  "printf fmt args = printf_loop False fmt args"

section \<open>Numbers\<close>

definition number :: "nat \<Rightarrow> nat list \<Rightarrow> nat" where
  "number base ds = foldr (\<lambda>d n. n * base + d) ds 0"

lemma number_Cons: "number base (d # ds) = number base ds * base + d" "number base [] = 0"
  by (simp_all add: number_def)

lemma digits_rev_number: "2 \<le> base \<Longrightarrow> number base (digits_rev base x) = x \<and> (\<forall>d \<in> set (digits_rev base x). d < base)"
proof (induction base x rule: digits_rev.induct)
  case (1 base x)
  have m: "x mod base < base" using 1(2) by simp
  show ?case
  proof (cases "x div base = 0")
    case True
    then have "digits_rev base x = [x mod base]" by (subst digits_rev.simps) simp
    moreover have "x mod base = x" using True m by (metis div_mult_mod_eq mult_0 add_0)
    ultimately show ?thesis using m by (simp add: number_Cons)
  next
    case False
    then have e: "digits_rev base x = (x mod base) # digits_rev base (x div base)" using 1(2) by (subst digits_rev.simps) simp
    have "\<not> (base < 2 \<or> x div base = 0)" using False 1(2) by simp
    from 1(1) [OF this 1(2)] show ?thesis using m unfolding e by (simp add: number_Cons)
  qed
qed

lemma udigit_dec: "d < 10 \<Longrightarrow> 48 \<le> udigit d \<and> udigit d \<le> 57 \<and> uint (udigit d) - 48 = int d"
proof -
  assume "d < 10"
  then have u: "unat (48 + of_nat d :: uchar) = 48 + d" by (simp add: unat_word_ariths unat_of_nat)
  then have "uint (48 + of_nat d :: uchar) = 48 + int d" by (metis of_nat_add of_nat_numeral uint_nat)
  then show ?thesis using u \<open>d < 10\<close> by (simp add: udigit_def word_le_nat_alt)
qed

lemma atoi_digits:
  assumes "\<forall>d \<in> set ds. d < 10" and "number 10 ds + 48 < 2 ^ 31"
  shows "atoi (rev (map udigit ds)) = Some (int (number 10 ds))"
  using assms unfolding atoi_def
proof (induction ds)
  case Nil
  then show ?case by (simp add: number_Cons)
next
  case (Cons d ds)
  have n: "number 10 (d # ds) = number 10 ds * 10 + d" by (rule number_Cons)
  note u = udigit_dec [of d]
  have digits: "\<forall>x \<in> set (rev (map udigit ds)). 48 \<le> x \<and> x \<le> 57" using Cons(2) udigit_dec by auto
  have "atoi_loop 0 (rev (map udigit ds)) = Some (int (number 10 ds))" using Cons n by simp
  then show ?case using u Cons(2,3) by (simp add: atoi_snoc [OF digits] n)
qed

lemma sint_cases: "sint (x :: uint) = (if uint x < 0x80000000 then uint x else uint x - 0x100000000)"
proof -
  have b: "0 \<le> uint x" "uint x < 0x100000000" using uint_lt2p [of x] by simp_all
  have s: "sint x = (uint x + 0x80000000) mod 0x100000000 - 0x80000000"
    by (simp add: sint_uint signed_take_bit_eq_take_bit_shift take_bit_eq_mod)
  show ?thesis
  proof (cases "uint x < 0x80000000")
    case True
    then have "(uint x + 0x80000000) mod 0x100000000 = uint x + 0x80000000" using b by (intro mod_pos_pos_trivial) linarith+
    then show ?thesis using s True by simp
  next
    case False
    have "uint x + 0x80000000 = uint x - 0x80000000 + 0x100000000" by simp
    then have "(uint x + 0x80000000) mod 0x100000000 = (uint x - 0x80000000 + 0x100000000) mod 0x100000000" by (simp only:)
    also have "\<dots> = (uint x - 0x80000000) mod 0x100000000" by (rule mod_add_self2)
    also have "\<dots> = uint x - 0x80000000" using b False by (intro mod_pos_pos_trivial) linarith+
    finally show ?thesis using s False by simp
  qed
qed

lemma unat_sint: "0 \<le> sint (x :: uint) \<Longrightarrow> int (unat x) = sint x"
  using uint_lt2p [of x] by (simp add: sint_cases split: if_splits)

lemma unat_neg_sint: "sint (x :: uint) < 0 \<Longrightarrow> int (unat (- x)) = - sint x"
proof -
  assume n: "sint x < 0"
  then have u: "\<not> uint x < 0x80000000" unfolding sint_cases by (auto split: if_splits)
  have "uint (- x) = (- uint x) mod 0x100000000" by (simp add: uint_word_ariths)
  also have "\<dots> = (- uint x + 0x100000000) mod 0x100000000" by (rule mod_add_self2 [symmetric])
  also have "- uint x + 0x100000000 = 0x100000000 - uint x" by simp
  also have "(0x100000000 - uint x) mod 0x100000000 = 0x100000000 - uint x" using u uint_lt2p [of x] by (intro mod_pos_pos_trivial) simp_all
  finally show ?thesis using u by (simp add: sint_cases)
qed



end
