(* ===== verification/UserProgs.thy ===== *)
theory UserProgs
  imports Runcmd Printf
begin

text \<open>
  The small user programs.  Those that only issue system calls are trees of calls as in theory
  \<open>Runcmd\<close>, on their arguments after the program name: \<^verbatim>\<open>ln.c\<close>, \<^verbatim>\<open>mkdir.c\<close>,
  \<^verbatim>\<open>rm.c\<close>, \<^verbatim>\<open>kill.c\<close>, \<^verbatim>\<open>echo.c\<close> and \<^verbatim>\<open>init.c\<close>.  Those that read,
  \<^verbatim>\<open>cat.c\<close> and \<^verbatim>\<open>wc.c\<close>, get the results of their calls of \<^verbatim>\<open>read()\<close>: a list of
  bytes, empty at the end of the file, or \<open>None\<close> for an error.  \<^verbatim>\<open>ls.c\<close> gets the entries of
  the directory.
\<close>

section \<open>Programs that issue calls\<close>

definition ln_main :: "string list \<Rightarrow> uprog" where
  "ln_main args =
     (case args of
        [old, new] \<Rightarrow> Call (U_link old new) (\<lambda>r.
          if r < 0 then Call (U_print 2 (''link '' @ old @ '' '' @ new @ '': failed'' @ nl)) (\<lambda>_. Exit) else Exit)
      | _ \<Rightarrow> Call (U_print 2 (''Usage: ln old new'' @ nl)) (\<lambda>_. Exit))"

text \<open>The loops of \<^verbatim>\<open>mkdir\<close> and \<^verbatim>\<open>rm\<close> stop at the first file that fails.\<close>

primrec mkdir_loop :: "string list \<Rightarrow> uprog" where
  "mkdir_loop [] = Exit"
| "mkdir_loop (f # fs) = Call (U_mkdir f) (\<lambda>r.
     if r < 0 then Call (U_print 2 (''mkdir: '' @ f @ '' failed to create'' @ nl)) (\<lambda>_. Exit) else mkdir_loop fs)"

definition mkdir_main :: "string list \<Rightarrow> uprog" where
  "mkdir_main args = (if args = [] then Call (U_print 2 (''Usage: mkdir files...'' @ nl)) (\<lambda>_. Exit) else mkdir_loop args)"

primrec rm_loop :: "string list \<Rightarrow> uprog" where
  "rm_loop [] = Exit"
| "rm_loop (f # fs) = Call (U_unlink f) (\<lambda>r.
     if r < 0 then Call (U_print 2 (''rm: '' @ f @ '' failed to delete'' @ nl)) (\<lambda>_. Exit) else rm_loop fs)"

definition rm_main :: "string list \<Rightarrow> uprog" where
  "rm_main args = (if args = [] then Call (U_print 2 (''Usage: rm files...'' @ nl)) (\<lambda>_. Exit) else rm_loop args)"

text \<open>A number that \<^verbatim>\<open>atoi()\<close> leaves undefined ends the model of \<^verbatim>\<open>kill\<close> there.\<close>

primrec kill_loop :: "string list \<Rightarrow> uprog" where
  "kill_loop [] = Exit"
| "kill_loop (s # ss) =
     (case atoi (map (\<lambda>c. of_nat (of_char c)) s) of
        None \<Rightarrow> Exit
      | Some pid \<Rightarrow> Call (U_kill pid) (\<lambda>_. kill_loop ss))"

definition kill_main :: "string list \<Rightarrow> uprog" where
  "kill_main args = (if args = [] then Call (U_print 2 (''usage: kill pid...'' @ nl)) (\<lambda>_. Exit) else kill_loop args)"

fun echo_loop :: "string list \<Rightarrow> uprog" where
  "echo_loop [] = Exit"
| "echo_loop (a # as) = Call (U_print 1 (a @ (if as \<noteq> [] then '' '' else nl))) (\<lambda>_. echo_loop as)"

text \<open>
  \<^verbatim>\<open>init\<close> never ends.  The argument bounds the calls of \<^verbatim>\<open>wait()\<close> it makes: after so many the
  model stops.
\<close>

fun init_wait :: "nat \<Rightarrow> int \<Rightarrow> (nat \<Rightarrow> uprog) \<Rightarrow> uprog" where
  "init_wait 0 pid k = Exit"
| "init_wait (Suc n) pid k = Call U_wait (\<lambda>wpid.
     if wpid \<ge> 0 \<and> wpid \<noteq> pid then Call (U_print 1 (''zombie!'' @ nl)) (\<lambda>_. init_wait n pid k) else k n)"

lemma init_wait_cong [fundef_cong]: "n = n' \<Longrightarrow> pid = pid' \<Longrightarrow> (\<And>i. i < n' \<Longrightarrow> k i = k' i) \<Longrightarrow> init_wait n pid k = init_wait n' pid' k'"
proof (induction n pid k arbitrary: n' pid' rule: init_wait.induct)
  case (2 n pid k)
  then show ?case by (cases n') auto
qed simp

fun init_loop :: "nat \<Rightarrow> uprog" where
  "init_loop n =
     Call (U_print 1 (''init: starting sh'' @ nl)) (\<lambda>_.
     Call U_fork (\<lambda>pid.
       if pid < 0 then Call (U_print 1 (''init: fork failed'' @ nl)) (\<lambda>_. Exit)
       else if pid = 0 then Exec ''sh'' [''sh''] (Call (U_print 1 (''init: exec sh failed'' @ nl)) (\<lambda>_. Exit))
       else init_wait n pid init_loop))"

declare init_loop.simps [simp del]

definition init_main :: "nat \<Rightarrow> uprog" where
  "init_main n =
     Call (U_open ''console'' 2) (\<lambda>fd.
       let rest = Call (U_dup 0) (\<lambda>_. Call (U_dup 0) (\<lambda>_. init_loop n))
       in if fd < 0 then Call (U_mknod ''console'' 1 1) (\<lambda>_. Call (U_open ''console'' 2) (\<lambda>_. rest)) else rest)"

section \<open>\<open>cat\<close>\<close>

text \<open>
  The programs that read return what they write to descriptor 1.  The flag of \<open>cat\<close> and \<open>wc\<close> is
  false when they end the program.
\<close>

definition bytes :: "string \<Rightarrow> uchar list" where
  "bytes s = map (\<lambda>c. of_nat (of_char c)) s"

text \<open>The result of each \<^verbatim>\<open>read()\<close> comes with that of the \<^verbatim>\<open>write()\<close> after it.\<close>

fun cat :: "(uchar list option \<times> int) list \<Rightarrow> uchar list \<times> bool" where
  "cat [] = ([], True)"
| "cat ((None, w) # rs) = (bytes (''cat: read error'' @ nl), False)"
| "cat ((Some bs, w) # rs) =
     (if bs = [] then ([], True)
      else if w \<noteq> int (length bs) then (take (nat w) bs @ bytes (''cat: write error'' @ nl), False)
      else (case cat rs of (out, ok) \<Rightarrow> (bs @ out, ok)))"

text \<open>The files named by the arguments: their names, and \<open>None\<close> for one that cannot be opened.\<close>

fun cat_files :: "(uchar list \<times> (uchar list option \<times> int) list option) list \<Rightarrow> uchar list" where
  "cat_files [] = []"
| "cat_files ((name, None) # fs) = bytes ''cat: cannot open '' @ name @ bytes nl"
| "cat_files ((name, Some rs) # fs) = (case cat rs of (out, ok) \<Rightarrow> out @ (if ok then cat_files fs else []))"

definition cat_main :: "(uchar list \<times> (uchar list option \<times> int) list option) list \<Rightarrow> (uchar list option \<times> int) list \<Rightarrow> uchar list" where
  "cat_main args stdin = (if args = [] then fst (cat stdin) else cat_files args)"

section \<open>\<open>wc\<close>\<close>

record wcount =
  wc_l :: int
  wc_w :: int
  wc_c :: int
  wc_inword :: bool

definition wc_blanks :: "uchar list" where
  "wc_blanks = [32, 13, 9, 10, 11]"

definition wc_byte :: "wcount \<Rightarrow> uchar \<Rightarrow> wcount" where
  "wc_byte s b =
     (let s1 = s\<lparr>wc_c := wc_c s + 1\<rparr>; s2 = (if b = 10 then s1\<lparr>wc_l := wc_l s1 + 1\<rparr> else s1)
      in if strchr wc_blanks b \<noteq> None then s2\<lparr>wc_inword := False\<rparr>
         else if \<not> wc_inword s2 then s2\<lparr>wc_w := wc_w s2 + 1, wc_inword := True\<rparr> else s2)"

fun wc_loop :: "wcount \<Rightarrow> uchar list option list \<Rightarrow> wcount option" where
  "wc_loop s [] = Some s"
| "wc_loop s (None # rs) = None"
| "wc_loop s (Some bs # rs) = (if bs = [] then Some s else wc_loop (foldl wc_byte s bs) rs)"

definition wc_format :: "uchar list" where
  "wc_format = [37, 100, 32, 37, 100, 32, 37, 100, 32, 37, 115, 10]"

definition wc :: "uchar list option list \<Rightarrow> uchar list \<Rightarrow> uchar list option \<times> bool" where
  "wc reads name =
     (case wc_loop \<lparr>wc_l = 0, wc_w = 0, wc_c = 0, wc_inword = False\<rparr> reads of
        None \<Rightarrow> (printf (bytes (''wc: read error'' @ nl)) [], False)
      | Some s \<Rightarrow> (printf wc_format [A_int (of_int (wc_l s)), A_int (of_int (wc_w s)), A_int (of_int (wc_c s)), A_str (Some name)], True))"

fun wc_files :: "(uchar list \<times> uchar list option list option) list \<Rightarrow> uchar list option" where
  "wc_files [] = Some []"
| "wc_files ((name, None) # fs) = printf (bytes (''wc: cannot open %s'' @ nl)) [A_str (Some name)]"
| "wc_files ((name, Some reads) # fs) =
     (case wc reads name of (out, ok) \<Rightarrow>
        if ok then Option.bind out (\<lambda>o1. map_option (append o1) (wc_files fs)) else out)"

definition wc_main :: "(uchar list \<times> uchar list option list option) list \<Rightarrow> uchar list option list \<Rightarrow> uchar list option" where
  "wc_main args stdin = (if args = [] then fst (wc stdin []) else wc_files args)"

section \<open>\<open>ls\<close>\<close>

text \<open>The part of a path behind its last slash, padded with blanks to the length of a directory entry.\<close>

definition fmtname :: "uchar list \<Rightarrow> uchar list" where
  "fmtname path =
     (let p = rev (takeWhile (\<lambda>c. c \<noteq> 47) (rev path))
      in if length p \<ge> DIRSIZ then p else p @ replicate (DIRSIZ - length p) 32)"

record ustat =
  us_type :: uint
  us_ino :: uint
  us_size :: uint

definition ls_format :: "uchar list" where
  "ls_format = [37, 115, 32, 37, 100, 32, 37, 100, 32, 37, 100, 10]"

definition ls_line :: "uchar list \<Rightarrow> ustat \<Rightarrow> uchar list option" where
  "ls_line path st = printf ls_format [A_str (Some (fmtname path)), A_int (us_type st), A_int (us_ino st), A_int (us_size st)]"

text \<open>
  The entries of the directory, read whole: the inode number, the \<open>DIRSIZ\<close> bytes of the name and the result
  of \<^verbatim>\<open>stat()\<close> on the path made of the directory and the name.
\<close>

fun ls_entries :: "uchar list \<Rightarrow> (uint \<times> uchar list \<times> ustat option) list \<Rightarrow> uchar list option" where
  "ls_entries path [] = Some []"
| "ls_entries path ((inum, name, st) # es) =
     (if inum = 0 then ls_entries path es
      else let buf = path @ [47] @ takeWhile (\<lambda>c. c \<noteq> 0) name
        in Option.bind
             (case st of
                None \<Rightarrow> printf (bytes (''ls: cannot stat %s'' @ nl)) [A_str (Some buf)]
              | Some s \<Rightarrow> ls_line buf s)
             (\<lambda>out. map_option (append out) (ls_entries path es)))"

text \<open>\<open>None\<close> for a path that cannot be opened; the message goes to descriptor 2, which comes first.\<close>

definition ls :: "uchar list \<Rightarrow> (ustat option \<times> (uint \<times> uchar list \<times> ustat option) list) option \<Rightarrow> uchar list option \<times> uchar list option" where
  "ls path file =
     (case file of
        None \<Rightarrow> (printf (bytes (''ls: cannot open %s'' @ nl)) [A_str (Some path)], Some [])
      | Some (None, es) \<Rightarrow> (printf (bytes (''ls: cannot stat %s'' @ nl)) [A_str (Some path)], Some [])
      | Some (Some st, es) \<Rightarrow>
         (Some [],
          if us_type st = 2 then ls_line path st
          else if us_type st = 1 then
            if length path + 1 + DIRSIZ + 1 > 512 then printf (bytes (''ls: path too long'' @ nl)) [] else ls_entries path es
          else Some []))"

section \<open>What \<open>cat\<close> and \<open>wc\<close> do\<close>

text \<open>The bytes of a file, from the reads up to the first empty one.\<close>

fun file_bytes :: "uchar list option list \<Rightarrow> uchar list" where
  "file_bytes (Some bs # rs) = (if bs = [] then [] else bs @ file_bytes rs)"
| "file_bytes _ = []"

lemma cat_copies:
  "\<forall>(r, w) \<in> set rs. \<exists>bs. r = Some bs \<and> w = int (length bs) \<Longrightarrow> cat rs = (file_bytes (map fst rs), True)"
  by (induction rs rule: cat.induct) auto

text \<open>The words of a text: the maximal runs of bytes that are not blank.\<close>

definition blank :: "uchar \<Rightarrow> bool" where
  "blank b \<longleftrightarrow> b \<in> set wc_blanks"

function text_words :: "uchar list \<Rightarrow> uchar list list" where
  "text_words s = (let t = dropWhile blank s in if t = [] then [] else takeWhile (\<lambda>b. \<not> blank b) t # text_words (dropWhile (\<lambda>b. \<not> blank b) t))"
  by pat_completeness auto
termination
proof (relation "measure length", goal_cases)
  case (2 s t)
  obtain b u where t: "dropWhile blank s = b # u" "t = b # u" using 2 by (metis neq_Nil_conv)
  then have "\<not> blank b" using hd_dropWhile [of blank s] by simp
  then have "length (dropWhile (\<lambda>b. \<not> blank b) t) < length t" using t by (simp add: length_dropWhile_le le_imp_less_Suc)
  then show ?case using length_dropWhile_le [of blank s] t by simp
qed simp

declare text_words.simps [simp del]

lemma text_words_Nil [simp]: "text_words [] = []"
  by (simp add: text_words.simps [of "[]"])

lemma text_words_blank: "blank b \<Longrightarrow> text_words (b # s) = text_words s"
  by (simp add: text_words.simps [of "b # s"] text_words.simps [of s])

lemma text_words_start: "\<not> blank b \<Longrightarrow> length (text_words (b # s)) = 1 + length (text_words (dropWhile (\<lambda>b. \<not> blank b) s))"
  by (simp add: text_words.simps [of "b # s"])

lemma wc_byte_eq:
  "wc_byte s b =
     \<lparr>wc_l = wc_l s + (if b = 10 then 1 else 0), wc_w = wc_w s + (if \<not> blank b \<and> \<not> wc_inword s then 1 else 0),
      wc_c = wc_c s + 1, wc_inword = (\<not> blank b)\<rparr>"
proof -
  have "strchr wc_blanks b \<noteq> None \<longleftrightarrow> blank b" by (simp only: strchr_iff blank_def)
  then show ?thesis by (simp only: wc_byte_def Let_def) (cases s, auto)
qed

lemma wc_bytes:
  "foldl wc_byte s bs =
     \<lparr>wc_l = wc_l s + int (count_list bs 10),
      wc_w = wc_w s + int (length (text_words (if wc_inword s then dropWhile (\<lambda>b. \<not> blank b) bs else bs))),
      wc_c = wc_c s + int (length bs),
      wc_inword = (if bs = [] then wc_inword s else \<not> blank (last bs))\<rparr>"
proof (induction bs arbitrary: s)
  case Nil
  then show ?case by simp
next
  case (Cons b bs)
  have "blank 10" by (simp add: blank_def wc_blanks_def)
  then show ?case unfolding foldl_Cons Cons by (auto simp: wc_byte_eq text_words_blank text_words_start)
qed

lemma wc_loop_file: "None \<notin> set reads \<Longrightarrow> wc_loop s reads = Some (foldl wc_byte s (file_bytes reads))"
  by (induction reads arbitrary: s rule: file_bytes.induct) auto

text \<open>C37: \<^verbatim>\<open>wc\<close> prints the number of newlines, of words and of bytes of the file, whatever the pieces in which
  its reads deliver it.\<close>

theorem wc_counts:
  assumes "None \<notin> set reads"
  shows "wc reads name = (printf wc_format [A_int (of_nat (count_list (file_bytes reads) 10)), A_int (of_nat (length (text_words (file_bytes reads)))),
     A_int (of_nat (length (file_bytes reads))), A_str (Some name)], True)"
  using assms by (simp add: wc_def wc_loop_file wc_bytes)

theorem wc_counts_witness:
  "wc [Some (bytes ''ab c''), Some (bytes (''d '' @ nl)), Some []] (bytes ''f'') = (Some (bytes (''1 2 7 f'' @ nl)), True)"
proof -
  have f: "file_bytes [Some (bytes ''ab c''), Some (bytes (''d '' @ nl)), Some []] = [97, 98, 32, 99, 100, 32, 10]"
    by (simp add: bytes_def nl_def)
  have w: "text_words [97, 98, 32, 99, 100, 32, 10] = [[97, 98], [99, 100]]" by code_simp
  have "printf wc_format [A_int 1, A_int 2, A_int 7, A_str (Some [102])] = Some (bytes (''1 2 7 f'' @ nl))" by code_simp
  then show ?thesis
    using wc_counts [of "[Some (bytes ''ab c''), Some (bytes (''d '' @ nl)), Some []]" "bytes ''f''"] unfolding f w
    by (simp add: bytes_def)
qed

text \<open>\<^verbatim>\<open>ls\<close> shows an entry of a directory under its name, padded to \<open>DIRSIZ\<close> characters.\<close>

lemma takeWhile_all: "\<forall>x \<in> set xs. P x \<Longrightarrow> takeWhile P (xs @ ys) = xs @ takeWhile P ys"
  by (induction xs) auto

lemma fmtname_entry:
  assumes "length name \<le> DIRSIZ" and "47 \<notin> set name"
  shows "fmtname (path @ [47] @ name) = name @ replicate (DIRSIZ - length name) 32"
proof -
  have "\<forall>x \<in> set (rev name). x \<noteq> 47" using assms(2) by auto
  from takeWhile_all [OF this, of "47 # rev path"] show ?thesis using assms(1) by (simp add: fmtname_def)
qed

section \<open>The calls a program makes\<close>

text \<open>The calls up to an \<open>Exec\<close> or \<open>Pipe\<close>, with the results that \<open>res\<close> gives.\<close>

primrec trace :: "(ucall \<Rightarrow> int) \<Rightarrow> uprog \<Rightarrow> ucall list" where
  "trace res Exit = []"
| "trace res (Call c k) = c # trace res (k (res c))"
| "trace res (Exec a argv k) = []"
| "trace res (Pipe k) = []"

lemma rm_removes: "\<forall>f \<in> set fs. 0 \<le> res (U_unlink f) \<Longrightarrow> trace res (rm_loop fs) = map U_unlink fs"
  by (induction fs) auto

lemma rm_stops:
  "\<forall>f \<in> set fs. 0 \<le> res (U_unlink f) \<Longrightarrow> res (U_unlink g) < 0 \<Longrightarrow>
   trace res (rm_loop (fs @ g # gs)) = map U_unlink (fs @ [g]) @ [U_print 2 (''rm: '' @ g @ '' failed to delete'' @ nl)]"
  by (induction fs) auto

lemma mkdir_stops:
  "\<forall>f \<in> set fs. 0 \<le> res (U_mkdir f) \<Longrightarrow> res (U_mkdir g) < 0 \<Longrightarrow>
   trace res (mkdir_loop (fs @ g # gs)) = map U_mkdir (fs @ [g]) @ [U_print 2 (''mkdir: '' @ g @ '' failed to create'' @ nl)]"
  by (induction fs) auto

definition printed :: "ucall list \<Rightarrow> string" where
  "printed cs = concat (map (\<lambda>c. case c of U_print fd s \<Rightarrow> s | _ \<Rightarrow> []) cs)"

lemma echo_prints: "args \<noteq> [] \<Longrightarrow> printed (trace res (echo_loop args)) = concat (map (\<lambda>a. a @ '' '') (butlast args)) @ last args @ nl"
  by (induction args rule: echo_loop.induct) (auto simp: printed_def)

lemma kill_calls: "\<forall>a \<in> set args. atoi (map (\<lambda>c. of_nat (of_char c)) a) \<noteq> None \<Longrightarrow>
   trace res (kill_loop args) = map (\<lambda>a. U_kill (the (atoi (map (\<lambda>c. of_nat (of_char c)) a)))) args"
  by (induction args) auto

text \<open>
  \<^verbatim>\<open>init\<close> starts a new shell only when the last one is gone: it waits on while \<^verbatim>\<open>wait()\<close> returns other
  children.
\<close>

lemma init_waits:
  assumes "res U_wait \<ge> 0" and "res U_wait \<noteq> pid"
  shows "trace res (init_wait n pid k) = concat (replicate n [U_wait, U_print 1 (''zombie!'' @ nl)])"
  using assms by (induction n) auto

lemma init_restarts: "res U_wait = pid \<or> res U_wait < 0 \<Longrightarrow> trace res (init_wait (Suc n) pid k) = U_wait # trace res (k n)"
  by auto

end
