(* ===== verification/Spec2Isabelle.thy ===== *)
theory Spec2Isabelle
  imports Crash LogSpace UserMem Trap Grep UserProgs
begin

text \<open>
  The kernel of xv6 with a multi-level feedback queue scheduler.
\<close>

end
